(* ===== verification/Muduo_Prelude.thy ===== *)
theory Muduo_Prelude
  imports Main "HOL-Library.Word"
begin

text \<open>
  Shared vocabulary of the development: the machine types of the C++ code, the ways an
  operation can end the process (\<open>fault\<close>), the result type \<open>'a res\<close> with its sequencing
  \<open>bind_res\<close>, three judgements on results, and generic lemmas on lists and words that several
  components use. \<open>returns r P\<close>: the operation completes and its result satisfies \<open>P\<close>;
  \<open>ends E r P\<close>: it completes like that or with a fault of \<open>E\<close>; \<open>safely r P\<close>: if it completes, the
  result satisfies \<open>P\<close>.
\<close>

section \<open>Machine types\<close>

type_synonym byte = "8 word"

text \<open>\<open>size_t\<close> of the 64-bit target; arithmetic wraps.\<close>

type_synonym size_t = "64 word"

text \<open>An epoll event mask (\<open>int\<close> / \<open>uint32_t\<close> of the code).\<close>

type_synonym mask = "32 word"

section \<open>Faults and results\<close>

text \<open>
  \<open>LogFatal\<close> is the macro LOG_FATAL of Logger.h, which logs and calls \<open>exit(-1)\<close>.
  \<open>BadFunctionCall\<close> is the exception of calling an empty \<open>std::function\<close>, \<open>BadAlloc\<close> the one
  of a failing \<open>new\<close>.
  The others are undefined behaviour that a run of the code would meet: a null pointer, an access
  outside a \<open>std::vector\<close> or C array, the use of a destroyed object by the library, an overflow of a
  signed integer, or a call of the application on an object of its own that is destroyed (\<open>Misuse\<close>).
\<close>

datatype fault =
    LogFatal string | BadFunctionCall | BadAlloc | NullPointer | OutOfRange | UseAfterFree
  | SignedOverflow | Misuse

type_synonym 'a res = "fault + 'a"

definition bind_res :: "'a res \<Rightarrow> ('a \<Rightarrow> 'b res) \<Rightarrow> 'b res" where
  "bind_res r f = (case r of Inl e \<Rightarrow> Inl e | Inr x \<Rightarrow> f x)"

text \<open>Reading through a pointer: \<open>None\<close> is the pointer that has no object.\<close>

definition deref :: "fault \<Rightarrow> 'a option \<Rightarrow> 'a res" where
  "deref e p = (case p of None \<Rightarrow> Inl e | Some x \<Rightarrow> Inr x)"

fun fold_res :: "('b \<Rightarrow> 'a \<Rightarrow> 'a res) \<Rightarrow> 'b list \<Rightarrow> 'a \<Rightarrow> 'a res" where
  "fold_res f [] s = Inr s"
| "fold_res f (x # xs) s = bind_res (f x s) (fold_res f xs)"

definition returns :: "'a res \<Rightarrow> ('a \<Rightarrow> bool) \<Rightarrow> bool" where
  "returns r P = (case r of Inl e \<Rightarrow> False | Inr x \<Rightarrow> P x)"

definition ends :: "fault set \<Rightarrow> 'a res \<Rightarrow> ('a \<Rightarrow> bool) \<Rightarrow> bool" where
  "ends E r P = (case r of Inl e \<Rightarrow> e \<in> E | Inr x \<Rightarrow> P x)"

definition safely :: "'a res \<Rightarrow> ('a \<Rightarrow> bool) \<Rightarrow> bool" where
  "safely r P = (case r of Inl e \<Rightarrow> True | Inr x \<Rightarrow> P x)"

fun opt_list :: "'a option \<Rightarrow> 'a list" where
  "opt_list None = []"
| "opt_list (Some x) = [x]"

named_theorems evolving "operations that keep the preorder evolves"

lemma bind_res_simps [simp]:
  "bind_res (Inl e) f = Inl e"
  "bind_res (Inr x) f = f x"
  by (simp_all add: bind_res_def)

lemma deref_simps [simp]:
  "deref e None = Inl e"
  "deref e (Some x) = Inr x"
  by (simp_all add: deref_def)

lemma bind_res_assoc: "bind_res (bind_res r f) g = bind_res r (\<lambda>x. bind_res (f x) g)"
  by (cases r) simp_all

lemma bind_res_Inr_iff: "bind_res r f = Inr y \<longleftrightarrow> (\<exists>x. r = Inr x \<and> f x = Inr y)"
  by (cases r) auto

lemma deref_Inr_iff [simp]: "deref e p = Inr x \<longleftrightarrow> p = Some x"
  by (cases p) auto

lemma returns_simps [simp]:
  "returns (Inl e) P = False"
  "returns (Inr x) P = P x"
  "returns (bind_res r f) P = returns r (\<lambda>x. returns (f x) P)"
  by (simp_all add: returns_def bind_res_def split: sum.splits)

lemma returns_deref [simp]: "returns (deref e p) P = (\<exists>x. p = Some x \<and> P x)"
  by (cases p) auto

lemma returns_iff: "returns r P \<longleftrightarrow> (\<exists>x. r = Inr x \<and> P x)"
  by (cases r) auto

lemma returns_mono: "returns r P \<Longrightarrow> (\<And>x. P x \<Longrightarrow> Q x) \<Longrightarrow> returns r Q"
  by (cases r) auto

lemma safely_simps [simp]:
  "safely (Inl e) P = True"
  "safely (Inr x) P = P x"
  "safely (bind_res r f) P = safely r (\<lambda>x. safely (f x) P)"
  by (simp_all add: safely_def bind_res_def split: sum.splits)

lemma safely_deref [simp]: "safely (deref e p) P = (\<forall>x. p = Some x \<longrightarrow> P x)"
  by (cases p) auto

lemma safely_mono: "safely r P \<Longrightarrow> (\<And>x. P x \<Longrightarrow> Q x) \<Longrightarrow> safely r Q"
  by (cases r) auto

lemma safelyD: "safely r P \<Longrightarrow> r = Inr x \<Longrightarrow> P x"
  by simp

lemma returns_safely: "returns r P \<Longrightarrow> safely r P"
  by (cases r) auto

lemma ends_simps [simp]:
  "ends E (Inl e) P = (e \<in> E)"
  "ends E (Inr x) P = P x"
  "ends E (bind_res r f) P = ends E r (\<lambda>x. ends E (f x) P)"
  by (simp_all add: ends_def bind_res_def split: sum.splits)

lemma ends_deref: "ends E (deref e p) P = (case p of None \<Rightarrow> e \<in> E | Some x \<Rightarrow> P x)"
  by (cases p) auto

lemma ends_mono: "ends E r P \<Longrightarrow> (\<And>x. P x \<Longrightarrow> Q x) \<Longrightarrow> ends E r Q"
  by (cases r) auto

lemma ends_returns: "returns r P \<Longrightarrow> ends E r P"
  by (cases r) auto

lemma ends_empty [simp]: "ends {} r P = returns r P"
  by (cases r) auto

lemma ends_safely: "ends E r P \<Longrightarrow> safely r P"
  by (cases r) auto

lemma ends_fold_res:
  assumes "I s" and "\<And>x s. x \<in> set xs \<Longrightarrow> I s \<Longrightarrow> ends E (f x s) I"
  shows "ends E (fold_res f xs s) I"
  using assms
proof (induction xs arbitrary: s)
  case Nil
  then show ?case by simp
next
  case (Cons x xs)
  have "ends E (f x s) I" using Cons.prems by simp
  then have "ends E (f x s) (\<lambda>t. ends E (fold_res f xs t) I)"
    by (rule ends_mono) (rule Cons.IH, use Cons.prems(2) in auto)
  then show ?case by simp
qed

lemma returns_fold_res:
  assumes "I s" and "\<And>x s. x \<in> set xs \<Longrightarrow> I s \<Longrightarrow> returns (f x s) I"
  shows "returns (fold_res f xs s) I"
  using assms
proof (induction xs arbitrary: s)
  case Nil
  then show ?case by simp
next
  case (Cons x xs)
  from Cons.prems have "returns (f x s) I" by simp
  then obtain t where t: "f x s = Inr t" "I t" by (auto simp: returns_iff)
  moreover have "returns (fold_res f xs t) I"
    using Cons.prems(2) t(2) by (intro Cons.IH) auto
  ultimately show ?case by simp
qed

lemma safely_fold_res:
  assumes "I s" and "\<And>x s. x \<in> set xs \<Longrightarrow> I s \<Longrightarrow> safely (f x s) I"
  shows "safely (fold_res f xs s) I"
  using assms
proof (induction xs arbitrary: s)
  case Nil
  then show ?case by simp
next
  case (Cons x xs)
  show ?case
  proof (cases "f x s")
    case (Inl e)
    then show ?thesis by simp
  next
    case (Inr t)
    with Cons.prems have "I t" by (metis list.set_intros(1) safely_simps(2))
    with Cons.prems(2) have "safely (fold_res f xs t) I" by (intro Cons.IH) auto
    with Inr show ?thesis by simp
  qed
qed

lemma fold_res_append: "fold_res f (xs @ ys) s = bind_res (fold_res f xs s) (fold_res f ys)"
  by (induction xs arbitrary: s) (simp_all add: bind_res_assoc bind_res_def split: sum.splits)

section \<open>Arrays\<close>

text \<open>\<open>std::copy\<close> of \<open>xs\<close> to position \<open>i\<close> of an array that is long enough.\<close>

definition write_at :: "nat \<Rightarrow> 'a list \<Rightarrow> 'a list \<Rightarrow> 'a list" where
  "write_at i xs buf = take i buf @ xs @ drop (i + length xs) buf"

text \<open>\<open>std::vector::resize\<close>: cut off, or pad with value-initialised elements.\<close>

definition resize :: "'a \<Rightarrow> nat \<Rightarrow> 'a list \<Rightarrow> 'a list" where
  "resize z n xs = take n xs @ replicate (n - length xs) z"

text \<open>The elements at positions \<open>i\<close> to \<open>j - 1\<close>.\<close>

definition segment :: "nat \<Rightarrow> nat \<Rightarrow> 'a list \<Rightarrow> 'a list" where
  "segment i j xs = take (j - i) (drop i xs)"

lemma length_write_at [simp]:
  "i + length xs \<le> length buf \<Longrightarrow> length (write_at i xs buf) = length buf"
  by (simp add: write_at_def)

lemma length_resize [simp]: "length (resize z n xs) = n"
  by (simp add: resize_def)

lemma length_segment [simp]: "j \<le> length xs \<Longrightarrow> length (segment i j xs) = j - i"
  by (simp add: segment_def)

lemma segment_write_at_end:
  "i \<le> j \<Longrightarrow> j + length xs \<le> length buf \<Longrightarrow>
   segment i (j + length xs) (write_at j xs buf) = segment i j buf @ xs"
  by (simp add: segment_def write_at_def drop_take)

lemma segment_resize:
  "j \<le> length xs \<Longrightarrow> j \<le> n \<Longrightarrow> segment i j (resize z n xs) = segment i j xs"
  by (simp add: segment_def resize_def drop_take [symmetric])

lemma segment_write_at_here:
  "i + length xs \<le> length buf \<Longrightarrow> segment i (i + length xs) (write_at i xs buf) = xs"
  by (simp add: segment_def write_at_def)

lemma segment_drop: "segment (i + n) j xs = drop n (segment i j xs)"
  by (simp add: segment_def drop_take add.commute)

lemma segment_take: "n \<le> j - i \<Longrightarrow> segment i (i + n) xs = take n (segment i j xs)"
  by (simp add: segment_def min_def)

lemma segment_append:
  assumes "i \<le> j" "j \<le> k"
  shows "segment i j xs @ segment j k xs = segment i k xs"
proof -
  from assms obtain a b where "j = i + a" "k = i + a + b" by (metis le_Suc_ex)
  then show ?thesis by (simp add: segment_def take_add add.commute)
qed

lemma segment_refl [simp]: "segment i i xs = []"
  by (simp add: segment_def)

section \<open>Words\<close>

lemma unat_plus_bounded:
  fixes a b :: "'n::len word"
  shows "unat a + unat b < 2 ^ LENGTH('n) \<Longrightarrow> unat (a + b) = unat a + unat b"
  by (simp add: unat_word_ariths)

lemma unat_minus_le:
  fixes a b :: "'n::len word"
  shows "unat b \<le> unat a \<Longrightarrow> unat (a - b) = unat a - unat b"
  by (simp add: unat_sub word_le_nat_alt)

lemma unat_of_nat_size: "n < 2 ^ 64 \<Longrightarrow> unat (of_nat n :: size_t) = n"
  by (simp add: unat_of_nat)

end
