(* ===== verification/Buffer.thy ===== *)
theory Buffer
  imports Muduo_Prelude
begin

text \<open>
  Buffer.h and Buffer.cc: the byte buffer of a connection, a vector with a read index and a
  write index over \<open>size_t\<close>. The first part is the interface the connections rely on (a byte
  queue, as a locale), the second the record and the operations of the class, the third the
  invariant \<open>wf_buffer\<close> and the refinement of every operation to the queue \<open>content\<close>.
\<close>

section \<open>The interface: a byte queue\<close>

text \<open>
  \<open>content\<close> is what a reader may still take out, \<open>room n q\<close> that \<open>n\<close> more bytes can be stored.
  The client's fact: over any sequence of puts and takes the bytes leave in the order they
  entered and none is lost.
\<close>

datatype 'n queue_op = Put "byte list" | Take 'n

text \<open>
  A run of puts and takes over any queue: the bytes taken so far and the queue. A take hands
  the front bytes to the reader and discards them.
\<close>

fun run_queue :: "(byte list \<Rightarrow> 'q \<Rightarrow> 'q res) \<Rightarrow> ('n \<Rightarrow> 'q \<Rightarrow> 'q) \<Rightarrow> ('q \<Rightarrow> byte list) \<Rightarrow>
    ('n \<Rightarrow> nat) \<Rightarrow> 'n queue_op list \<Rightarrow> byte list \<times> 'q \<Rightarrow> (byte list \<times> 'q) res" where
  "run_queue put discard cont amount [] s = Inr s"
| "run_queue put discard cont amount (Put xs # ops) (out, q) =
     bind_res (put xs q) (\<lambda>q'. run_queue put discard cont amount ops (out, q'))"
| "run_queue put discard cont amount (Take n # ops) (out, q) =
     run_queue put discard cont amount ops (out @ take (amount n) (cont q), discard n q)"

fun bytes_put :: "'n queue_op list \<Rightarrow> byte list" where
  "bytes_put [] = []"
| "bytes_put (Put xs # ops) = xs @ bytes_put ops"
| "bytes_put (Take n # ops) = bytes_put ops"

locale byte_queue =
  fixes inv :: "'q \<Rightarrow> bool"
    and cont :: "'q \<Rightarrow> byte list"
    and room :: "nat \<Rightarrow> 'q \<Rightarrow> bool"
    and put :: "byte list \<Rightarrow> 'q \<Rightarrow> 'q res"
    and discard :: "'n \<Rightarrow> 'q \<Rightarrow> 'q"
    and amount :: "'n \<Rightarrow> nat"
  assumes put_ok: "inv q \<Longrightarrow> room (length xs) q \<Longrightarrow>
      returns (put xs q) (\<lambda>q'. inv q' \<and> cont q' = cont q @ xs)"
    and put_room: "inv q \<Longrightarrow> room (m + length xs) q \<Longrightarrow> put xs q = Inr q' \<Longrightarrow> room m q'"
    and room_mono: "room n q \<Longrightarrow> m \<le> n \<Longrightarrow> room m q"
    and discard_inv: "inv q \<Longrightarrow> inv (discard k q)"
    and discard_room: "room m q \<Longrightarrow> room m (discard k q)"
    and discard_cont: "inv q \<Longrightarrow> cont (discard k q) = drop (amount k) (cont q)"
begin

lemma putE:
  assumes "inv q" "room (m + length xs) q"
  obtains q' where "put xs q = Inr q'" "inv q'" "cont q' = cont q @ xs" "room m q'"
proof -
  have "room (length xs) q" by (rule room_mono [OF assms(2)]) simp
  then obtain q' where "put xs q = Inr q'" "inv q'" "cont q' = cont q @ xs"
    using put_ok [OF assms(1)] by (auto simp: returns_iff)
  then show ?thesis using that put_room [OF assms] by blast
qed

lemma run_queue_fifo:
  assumes "inv q" "room (length (bytes_put ops)) q"
  shows "returns (run_queue put discard cont amount ops (out, q))
           (\<lambda>(out', q'). inv q' \<and> out' @ cont q' = out @ cont q @ bytes_put ops)"
  using assms
proof (induction ops arbitrary: out q)
  case Nil
  then show ?case by simp
next
  case (Cons opn ops)
  show ?case
  proof (cases opn)
    case (Put xs)
    with Cons.prems have "room (length (bytes_put ops) + length xs) q" by (simp add: add.commute)
    with Cons.prems(1) obtain q' where
      q': "put xs q = Inr q'" "inv q'" "cont q' = cont q @ xs" "room (length (bytes_put ops)) q'"
      by (rule putE)
    show ?thesis using Cons.IH [OF q'(2,4), of out] Put q' by simp
  next
    case (Take n)
    have split: "take (amount n) (cont q) @ cont (discard n q) = cont q"
      using Cons.prems(1) by (simp add: discard_cont)
    have "inv (discard n q)" "room (length (bytes_put ops)) (discard n q)"
      using Cons.prems Take by (auto intro: discard_inv discard_room)
    then have "returns (run_queue put discard cont amount ops
        (out @ take (amount n) (cont q), discard n q))
      (\<lambda>(out', q'). inv q' \<and> out' @ cont q' =
         (out @ take (amount n) (cont q)) @ cont (discard n q) @ bytes_put ops)"
      by (rule Cons.IH)
    moreover have "(out @ take (amount n) (cont q)) @ cont (discard n q) @ bytes_put ops
        = out @ cont q @ bytes_put ops"
      using split by (metis append_assoc)
    ultimately show ?thesis using Take by (simp del: append_assoc)
  qed
qed

end

section \<open>The class\<close>

record buffer =
  vec :: "byte list"
  readerIndex :: size_t
  writerIndex :: size_t

definition kCheapPrepend :: size_t where "kCheapPrepend = 8"

definition kInitialSize :: size_t where "kInitialSize = 1024"

text \<open>\<open>buffer_.size()\<close>\<close>

definition vsize :: "buffer \<Rightarrow> size_t" where
  "vsize b = of_nat (length (vec b))"

definition mk_buffer :: "size_t \<Rightarrow> buffer" where
  "mk_buffer initialSize =
     \<lparr>vec = replicate (unat (kCheapPrepend + initialSize)) 0,
      readerIndex = kCheapPrepend, writerIndex = kCheapPrepend\<rparr>"

definition readableBytes :: "buffer \<Rightarrow> size_t" where
  "readableBytes b = writerIndex b - readerIndex b"

definition writableBytes :: "buffer \<Rightarrow> size_t" where
  "writableBytes b = vsize b - writerIndex b"

definition prependableBytes :: "buffer \<Rightarrow> size_t" where
  "prependableBytes b = readerIndex b"

definition retrieveAll :: "buffer \<Rightarrow> buffer" where
  "retrieveAll b = b\<lparr>readerIndex := kCheapPrepend, writerIndex := kCheapPrepend\<rparr>"

definition retrieve :: "size_t \<Rightarrow> buffer \<Rightarrow> buffer" where
  "retrieve len b =
     (if len < readableBytes b then b\<lparr>readerIndex := readerIndex b + len\<rparr>
      else retrieveAll b)"

text \<open>
  \<open>std::string result(peek(), len)\<close> reads \<open>len\<close> bytes from the read index on; past the end of
  the vector that is an out-of-range read. The code does not compare \<open>len\<close> with
  \<open>readableBytes()\<close>.
\<close>

definition reteieveAsString :: "size_t \<Rightarrow> buffer \<Rightarrow> (byte list \<times> buffer) res" where
  "reteieveAsString len b =
     (if unat (readerIndex b) + unat len \<le> length (vec b)
      then Inr (take (unat len) (drop (unat (readerIndex b)) (vec b)), retrieve len b)
      else Inl OutOfRange)"

definition retrieveAllAsString :: "buffer \<Rightarrow> (byte list \<times> buffer) res" where
  "retrieveAllAsString b = reteieveAsString (readableBytes b) b"

definition makeSpace :: "size_t \<Rightarrow> buffer \<Rightarrow> buffer" where
  "makeSpace len b =
     (if writableBytes b + prependableBytes b < len + kCheapPrepend
      then b\<lparr>vec := resize 0 (unat (len + writerIndex b)) (vec b)\<rparr>
      else let readable = readableBytes b in
        b\<lparr>vec := write_at (unat kCheapPrepend)
             (segment (unat (readerIndex b)) (unat (writerIndex b)) (vec b)) (vec b),
          readerIndex := kCheapPrepend,
          writerIndex := kCheapPrepend + readable\<rparr>)"

definition ensureWriteableBytes :: "size_t \<Rightarrow> buffer \<Rightarrow> buffer" where
  "ensureWriteableBytes len b = (if writableBytes b < len then makeSpace len b else b)"

text \<open>\<open>append(data, len)\<close> with \<open>data\<close> the \<open>len\<close> bytes behind the pointer.\<close>

definition append_buf :: "byte list \<Rightarrow> buffer \<Rightarrow> buffer res" where
  "append_buf data b =
     (let len = of_nat (length data); b = ensureWriteableBytes len b in
      if unat (writerIndex b) + length data \<le> length (vec b)
      then Inr (b\<lparr>vec := write_at (unat (writerIndex b)) data (vec b),
                  writerIndex := writerIndex b + len\<rparr>)
      else Inl OutOfRange)"

text \<open>
  The environment of one \<open>::readv\<close>: the bytes the peer has sent so far (none is end of
  stream) or an errno; of one \<open>::write\<close>: how many bytes the socket has room for, or an errno.
\<close>

datatype read_env = ReadData "byte list" | ReadErr int

datatype write_env = WriteRoom nat | WriteErr int

definition extrabuf_size :: size_t where "extrabuf_size = 65536"

text \<open>
  \<open>readFd\<close>: the result, \<open>*saveErrno\<close> (\<open>old\<close> where the code does not set it) and the buffer.
\<close>

definition readFd :: "read_env \<Rightarrow> int \<Rightarrow> buffer \<Rightarrow> (int \<times> int \<times> buffer) res" where
  "readFd env old b =
     (let writable = writableBytes b;
          capacity = unat writable + (if writable < extrabuf_size then unat extrabuf_size else 0)
      in case env of
        ReadErr e \<Rightarrow> Inr (-1, e, b)
      | ReadData bytes \<Rightarrow>
          let got = take capacity bytes; n = length got;
              vec0 = take (unat writable) got; extrabuf = drop (unat writable) got;
              b = b\<lparr>vec := write_at (unat (writerIndex b)) vec0 (vec b)\<rparr>
          in if n \<le> unat writable
             then Inr (int n, old, b\<lparr>writerIndex := writerIndex b + of_nat n\<rparr>)
             else bind_res (append_buf extrabuf (b\<lparr>writerIndex := vsize b\<rparr>))
                    (\<lambda>b. Inr (int n, old, b)))"

text \<open>\<open>writeFd\<close>: the result, \<open>*saveErrno\<close> and the bytes handed to the kernel.\<close>

definition writeFd :: "write_env \<Rightarrow> int \<Rightarrow> buffer \<Rightarrow> int \<times> int \<times> byte list" where
  "writeFd env old b =
     (case env of
        WriteErr e \<Rightarrow> (-1, e, [])
      | WriteRoom k \<Rightarrow>
          let n = min k (unat (readableBytes b)) in
          (int n, old, take n (drop (unat (readerIndex b)) (vec b))))"

section \<open>Invariant and abstraction\<close>

definition wf_buffer :: "buffer \<Rightarrow> bool" where
  "wf_buffer b \<longleftrightarrow> unat kCheapPrepend \<le> unat (readerIndex b)
     \<and> unat (readerIndex b) \<le> unat (writerIndex b)
     \<and> unat (writerIndex b) \<le> length (vec b) \<and> length (vec b) < 2 ^ 64"

definition content :: "buffer \<Rightarrow> byte list" where
  "content b = segment (unat (readerIndex b)) (unat (writerIndex b)) (vec b)"

text \<open>The vector can grow by \<open>n\<close> without passing the range of \<open>size_t\<close>.\<close>

definition room :: "nat \<Rightarrow> buffer \<Rightarrow> bool" where
  "room n b \<longleftrightarrow> length (vec b) + n + 8 < 2 ^ 64"

lemma kCheapPrepend_nat [simp]: "unat kCheapPrepend = 8"
  by (simp add: kCheapPrepend_def)

lemma extrabuf_size_nat [simp]: "unat extrabuf_size = 65536"
  by (simp add: extrabuf_size_def)

lemma wf_bufferD:
  assumes "wf_buffer b"
  shows "8 \<le> unat (readerIndex b)" "unat (readerIndex b) \<le> unat (writerIndex b)"
    "unat (writerIndex b) \<le> length (vec b)" "length (vec b) < 2 ^ 64"
  using assms by (simp_all add: wf_buffer_def)

lemma vsize_nat: "wf_buffer b \<Longrightarrow> unat (vsize b) = length (vec b)"
  unfolding vsize_def by (rule unat_of_nat_size) (rule wf_bufferD(4))

lemma readableBytes_nat:
  "wf_buffer b \<Longrightarrow> unat (readableBytes b) = length (content b)"
  by (simp add: readableBytes_def content_def unat_minus_le wf_bufferD)

lemma writableBytes_nat:
  "wf_buffer b \<Longrightarrow> unat (writableBytes b) = length (vec b) - unat (writerIndex b)"
  by (simp add: writableBytes_def unat_minus_le vsize_nat wf_bufferD)

lemma length_content:
  "wf_buffer b \<Longrightarrow> length (content b) = unat (writerIndex b) - unat (readerIndex b)"
  by (simp add: content_def wf_bufferD)

lemma readableBytes_eq_0: "wf_buffer b \<Longrightarrow> readableBytes b = 0 \<longleftrightarrow> content b = []"
  using readableBytes_nat [of b] by (auto simp: unat_eq_zero simp flip: length_0_conv)

lemma wf_mk_buffer: "unat n + 8 < 2 ^ 64 \<Longrightarrow> wf_buffer (mk_buffer n)"
proof -
  assume n: "unat n + 8 < 2 ^ 64"
  then have "unat (kCheapPrepend + n) = 8 + unat n"
    by (subst unat_plus_bounded) simp_all
  with n show ?thesis by (simp add: wf_buffer_def mk_buffer_def)
qed

lemma content_mk_buffer [simp]: "content (mk_buffer n) = []"
  by (simp add: content_def mk_buffer_def)

lemma wf_retrieveAll: "wf_buffer b \<Longrightarrow> wf_buffer (retrieveAll b)"
  unfolding wf_buffer_def retrieveAll_def by simp

lemma content_retrieveAll [simp]: "content (retrieveAll b) = []"
  by (simp add: content_def retrieveAll_def)


subsection \<open>Taking bytes out\<close>

lemma wf_retrieve: "wf_buffer b \<Longrightarrow> wf_buffer (retrieve len b)"
proof (cases "len < readableBytes b")
  case True
  assume wf: "wf_buffer b"
  have len: "unat len < unat (writerIndex b) - unat (readerIndex b)"
    using True wf by (simp add: word_less_nat_alt readableBytes_nat length_content)
  moreover have "unat (readerIndex b + len) = unat (readerIndex b) + unat len"
    using len wf_bufferD [OF wf] by (intro unat_plus_bounded) simp
  ultimately show ?thesis
    using True wf_bufferD [OF wf] by (simp add: wf_buffer_def retrieve_def)
next
  case False
  assume "wf_buffer b"
  with False show ?thesis by (simp add: retrieve_def wf_retrieveAll)
qed

lemma content_retrieve:
  assumes wf: "wf_buffer b"
  shows "content (retrieve len b) = drop (unat len) (content b)"
proof (cases "len < readableBytes b")
  case True
  then have "unat len < unat (writerIndex b) - unat (readerIndex b)"
    using wf by (simp add: word_less_nat_alt readableBytes_nat length_content)
  then have "unat (readerIndex b + len) = unat (readerIndex b) + unat len"
    using wf_bufferD [OF wf] by (intro unat_plus_bounded) simp
  with True show ?thesis by (simp add: content_def retrieve_def segment_drop)
next
  case False
  with wf show ?thesis
    by (simp add: retrieve_def word_less_nat_alt readableBytes_nat not_less)
qed

lemma room_mono: "room n b \<Longrightarrow> m \<le> n \<Longrightarrow> room m b"
  by (simp add: room_def)

lemma room_retrieve: "room m b \<Longrightarrow> room m (retrieve n b)"
  by (simp add: room_def retrieve_def retrieveAll_def)

lemma reteieveAsString_readable:
  assumes wf: "wf_buffer b" and len: "unat len \<le> length (content b)"
  shows "reteieveAsString len b = Inr (take (unat len) (content b), retrieve len b)"
proof -
  have "segment (unat (readerIndex b)) (unat (readerIndex b) + unat len) (vec b)
      = take (unat len) (content b)"
    using len unfolding content_def length_content [OF wf, unfolded content_def]
    by (rule segment_take)
  moreover have "unat (readerIndex b) + unat len \<le> length (vec b)"
    using len wf_bufferD [OF wf] by (simp add: length_content [OF wf])
  ultimately show ?thesis by (simp add: reteieveAsString_def segment_def)
qed

subsection \<open>Making room and appending\<close>

lemma ensureWriteableBytes_id:
  "\<not> writableBytes b < len \<Longrightarrow> ensureWriteableBytes len b = b"
  by (simp add: ensureWriteableBytes_def)

lemma makeSpace_grow:
  assumes wf: "wf_buffer b" and room: "room (unat len) b"
    and grow: "writableBytes b + prependableBytes b < len + kCheapPrepend"
    and need: "writableBytes b < len"
  shows "wf_buffer (makeSpace len b) \<and> content (makeSpace len b) = content b
    \<and> unat (writerIndex (makeSpace len b)) + unat len \<le> length (vec (makeSpace len b))
    \<and> length (vec (makeSpace len b)) \<le> length (vec b) + unat len"
proof -
  note D = wf_bufferD [OF wf]
  have new: "unat (len + writerIndex b) = unat len + unat (writerIndex b)"
    using D room by (intro unat_plus_bounded) (simp add: room_def)
  then show ?thesis using D room grow
    by (auto simp: makeSpace_def wf_buffer_def content_def segment_resize room_def)
qed

text \<open>
  In the other case the readable bytes move to the front. The caller has seen that the
  writable part is too small, so the read index is past the reserved prefix and the regions of
  \<open>std::copy\<close> satisfy its condition (the destination starts before the source).
\<close>

lemma makeSpace_move_forward:
  assumes wf: "wf_buffer b" and room: "room (unat len) b"
    and stay: "\<not> writableBytes b + prependableBytes b < len + kCheapPrepend"
    and need: "writableBytes b < len"
  shows "8 < unat (readerIndex b)
    \<and> unat len + 8 \<le> length (vec b) - unat (writerIndex b) + unat (readerIndex b)"
proof -
  note D = wf_bufferD [OF wf]
  have "unat (writableBytes b + prependableBytes b)
      = length (vec b) - unat (writerIndex b) + unat (readerIndex b)"
    using D by (subst unat_plus_bounded) (auto simp: writableBytes_nat [OF wf] prependableBytes_def)
  moreover have "unat (len + kCheapPrepend) = unat len + 8"
    using room by (subst unat_plus_bounded) (simp_all add: room_def)
  ultimately have "unat len + 8 \<le> length (vec b) - unat (writerIndex b) + unat (readerIndex b)"
    using stay by (simp add: word_less_nat_alt not_less)
  moreover have "length (vec b) - unat (writerIndex b) < unat len"
    using need by (simp add: word_less_nat_alt writableBytes_nat [OF wf])
  ultimately show ?thesis by linarith
qed

lemma makeSpace_move:
  assumes wf: "wf_buffer b" and room: "room (unat len) b"
    and stay: "\<not> writableBytes b + prependableBytes b < len + kCheapPrepend"
    and need: "writableBytes b < len"
  shows "wf_buffer (makeSpace len b) \<and> content (makeSpace len b) = content b
    \<and> unat (writerIndex (makeSpace len b)) + unat len \<le> length (vec (makeSpace len b))
    \<and> length (vec (makeSpace len b)) \<le> length (vec b) + unat len"
proof -
  note D = wf_bufferD [OF wf]
  note F = makeSpace_move_forward [OF assms]
  have w: "unat (kCheapPrepend + readableBytes b) = 8 + length (content b)"
    using D F by (subst unat_plus_bounded) (auto simp: readableBytes_nat [OF wf] length_content [OF wf])
  have len: "8 + length (content b) \<le> length (vec b)"
    using D F unfolding length_content [OF wf] by linarith
  have b': "makeSpace len b = b\<lparr>vec := write_at 8 (content b) (vec b),
      readerIndex := kCheapPrepend, writerIndex := kCheapPrepend + readableBytes b\<rparr>"
    using stay by (simp add: makeSpace_def Let_def content_def)
  have "8 + length (content b) + unat len \<le> length (vec b)"
    using D F unfolding length_content [OF wf] by linarith
  then show ?thesis unfolding b' using w len D
    by (simp add: wf_buffer_def content_def [of "vec_update _ _"] content_def [of "readerIndex_update _ _"]
        content_def [of "writerIndex_update _ _"] segment_write_at_here)
qed

lemma ensureWriteableBytes_ok:
  assumes wf: "wf_buffer b" and room: "room (unat len) b"
  defines "b' \<equiv> ensureWriteableBytes len b"
  shows "wf_buffer b'" "content b' = content b"
    "unat (writerIndex b') + unat len \<le> length (vec b')"
    "length (vec b') \<le> length (vec b) + unat len"
proof -
  have "wf_buffer b' \<and> content b' = content b
    \<and> unat (writerIndex b') + unat len \<le> length (vec b')
    \<and> length (vec b') \<le> length (vec b) + unat len"
  proof (cases "writableBytes b < len")
    case True
    then show ?thesis
      using makeSpace_grow [OF wf room _ True] makeSpace_move [OF wf room _ True]
      by (cases "writableBytes b + prependableBytes b < len + kCheapPrepend")
        (simp_all add: b'_def ensureWriteableBytes_def)
  next
    case False
    then have "unat len \<le> length (vec b) - unat (writerIndex b)"
      using wf by (simp add: word_less_nat_alt writableBytes_nat not_less)
    with False show ?thesis using wf wf_bufferD [OF wf]
      by (auto simp: b'_def ensureWriteableBytes_id)
  qed
  then show "wf_buffer b'" "content b' = content b"
    "unat (writerIndex b') + unat len \<le> length (vec b')"
    "length (vec b') \<le> length (vec b) + unat len" by auto
qed

lemma append_buf_ok:
  assumes wf: "wf_buffer b" and room: "room (length data) b"
  shows "returns (append_buf data b) (\<lambda>b'. wf_buffer b' \<and> content b' = content b @ data
           \<and> length (vec b') \<le> length (vec b) + length data)"
proof -
  define len :: size_t where "len = of_nat (length data)"
  define e where "e = ensureWriteableBytes len b"
  have len: "unat len = length data"
    using room by (simp add: len_def unat_of_nat_size room_def)
  have room': "room (unat len) b" using room len by simp
  note E = ensureWriteableBytes_ok [OF wf room', folded e_def]
  note D = wf_bufferD [OF E(1)]
  have w: "unat (writerIndex e + len) = unat (writerIndex e) + length data"
    using E(3) D len by (subst unat_plus_bounded) auto
  show ?thesis
    using E D w len
    by (auto simp: append_buf_def Let_def wf_buffer_def content_def segment_write_at_end
        simp flip: len_def e_def)
qed

lemma append_buf_room:
  assumes "wf_buffer b" "room (m + length data) b" "append_buf data b = Inr b'"
  shows "room m b'"
proof -
  have "room (length data) b" using assms(2) by (simp add: room_def)
  from append_buf_ok [OF assms(1) this] assms(3)
  have "length (vec b') \<le> length (vec b) + length data" by simp
  with assms(2) show ?thesis by (simp add: room_def)
qed

interpretation bq: byte_queue wf_buffer content room append_buf retrieve unat
proof unfold_locales
  show "returns (append_buf xs q) (\<lambda>q'. wf_buffer q' \<and> content q' = content q @ xs)"
    if "wf_buffer q" "room (length xs) q" for q xs
    using append_buf_ok [OF that] by (rule returns_mono) blast
next
  show "room m q'" if "wf_buffer q" "room (m + length xs) q" "append_buf xs q = Inr q'"
    for q m xs q' using that by (rule append_buf_room)
qed (auto intro: wf_retrieve room_retrieve room_mono simp: content_retrieve)


subsection \<open>Reading from and writing to the socket\<close>

text \<open>How many bytes one \<open>readv\<close> can take: the writable part, and 64 KiB of stack when that is small.\<close>

definition read_capacity :: "buffer \<Rightarrow> nat" where
  "read_capacity b = unat (writableBytes b)
     + (if writableBytes b < extrabuf_size then unat extrabuf_size else 0)"

lemma read_capacity_min: "65536 \<le> read_capacity b"
  by (simp add: read_capacity_def word_less_nat_alt)

lemma wf_write_writable:
  assumes wf: "wf_buffer b" and xs: "unat (writerIndex b) + length xs \<le> length (vec b)"
  defines "b' \<equiv> b\<lparr>vec := write_at (unat (writerIndex b)) xs (vec b),
                 writerIndex := writerIndex b + of_nat (length xs)\<rparr>"
  shows "wf_buffer b' \<and> content b' = content b @ xs"
proof -
  note D = wf_bufferD [OF wf]
  have len: "unat (of_nat (length xs) :: size_t) = length xs"
    using D xs by (intro unat_of_nat_size) simp
  have "unat (writerIndex b + of_nat (length xs)) = unat (writerIndex b) + length xs"
    using D xs len by (subst unat_plus_bounded) simp_all
  then show ?thesis
    using D xs by (simp add: b'_def wf_buffer_def content_def segment_write_at_end)
qed

lemma readFd_fits:
  assumes wf: "wf_buffer b" and n: "length bytes \<le> unat (writableBytes b)"
  shows "returns (readFd (ReadData bytes) old b)
    (\<lambda>(n, e, b'). n = int (length bytes) \<and> e = old \<and> wf_buffer b' \<and> content b' = content b @ bytes
       \<and> vec b' = write_at (unat (writerIndex b)) bytes (vec b))"
proof -
  have "unat (writerIndex b) + length bytes \<le> length (vec b)"
    using n wf_bufferD [OF wf] by (simp add: writableBytes_nat [OF wf])
  from wf_write_writable [OF wf this] show ?thesis
    using n by (simp add: readFd_def Let_def)
qed

lemma readFd_spills:
  assumes wf: "wf_buffer b" and room: "room (length bytes) b"
    and n: "unat (writableBytes b) < length bytes" "length bytes \<le> read_capacity b"
  shows "returns (readFd (ReadData bytes) old b)
    (\<lambda>(n, e, b'). n = int (length bytes) \<and> e = old \<and> wf_buffer b' \<and> content b' = content b @ bytes)"
proof -
  note D = wf_bufferD [OF wf]
  let ?w = "unat (writableBytes b)"
  let ?xs = "take ?w bytes" and ?ys = "drop ?w bytes"
  define b1 where "b1 = b\<lparr>vec := write_at (unat (writerIndex b)) ?xs (vec b), writerIndex := vsize b\<rparr>"
  have w: "?w = length (vec b) - unat (writerIndex b)" by (rule writableBytes_nat [OF wf])
  have len: "length ?xs = ?w" using n by simp
  then have fit: "unat (writerIndex b) + length ?xs \<le> length (vec b)" using w D by simp
  have "writerIndex b + of_nat (length ?xs) = vsize b"
    unfolding len by (simp add: writableBytes_def)
  then have b1: "wf_buffer b1" "content b1 = content b @ ?xs"
    using wf_write_writable [OF wf fit] unfolding b1_def by auto
  have "length (vec b1) = length (vec b)" using fit by (simp add: b1_def)
  then have "room (length ?ys) b1" using room by (simp add: room_def)
  from append_buf_ok [OF b1(1) this] obtain b2 where
    b2: "append_buf ?ys b1 = Inr b2" "wf_buffer b2" "content b2 = content b1 @ ?ys"
    by (auto simp: returns_iff)
  have got: "take (read_capacity b) bytes = bytes" using n by simp
  have "vsize (b\<lparr>vec := write_at (unat (writerIndex b)) ?xs (vec b)\<rparr>) = vsize b"
    using fit by (simp add: vsize_def)
  then have "readFd (ReadData bytes) old b = Inr (int (length bytes), old, b2)"
    using n b2(1) got
    by (simp add: readFd_def Let_def read_capacity_def [symmetric] b1_def)
  then show ?thesis using b1 b2 by simp
qed

lemma readFd_take_capacity:
  "readFd (ReadData bytes) old b = readFd (ReadData (take (read_capacity b) bytes)) old b"
  by (simp add: readFd_def Let_def read_capacity_def)

lemma readFd_ok:
  assumes wf: "wf_buffer b" and room: "room (length bytes) b"
  shows "returns (readFd (ReadData bytes) old b)
    (\<lambda>(n, e, b'). n = int (length (take (read_capacity b) bytes)) \<and> e = old \<and> wf_buffer b'
       \<and> content b' = content b @ take (read_capacity b) bytes)"
proof -
  let ?got = "take (read_capacity b) bytes"
  have room': "room (length ?got) b" using room by (rule room_mono) simp
  show ?thesis
  proof (cases "length ?got \<le> unat (writableBytes b)")
    case True
    from readFd_fits [OF wf this] show ?thesis
      unfolding readFd_take_capacity [of bytes] by (rule returns_mono) auto
  next
    case False
    then have "returns (readFd (ReadData ?got) old b)
      (\<lambda>(n, e, b'). n = int (length ?got) \<and> e = old \<and> wf_buffer b' \<and> content b' = content b @ ?got)"
      by (intro readFd_spills [OF wf room']) (auto simp: min_def split: if_splits)
    then show ?thesis unfolding readFd_take_capacity [of bytes] .
  qed
qed

text \<open>The vector grows by at most what has been read.\<close>

lemma readFd_room:
  assumes wf: "wf_buffer b" and room: "room (m + length bytes) b"
    and got: "length bytes \<le> read_capacity b" "readFd (ReadData bytes) old b = Inr (n, e, b')"
  shows "room m b'"
proof -
  let ?w = "unat (writableBytes b)"
  let ?b = "b\<lparr>vec := write_at (unat (writerIndex b)) (take ?w bytes) (vec b)\<rparr>"
  have fit: "unat (writerIndex b) + length (take ?w bytes) \<le> length (vec b)"
    using wf_bufferD [OF wf] by (simp add: writableBytes_nat [OF wf])
  have all: "take (read_capacity b) bytes = bytes" using got(1) by simp
  show ?thesis
  proof (cases "length bytes \<le> ?w")
    case True
    then have "b' = ?b\<lparr>writerIndex := writerIndex b + of_nat (length bytes)\<rparr>"
      using got(2) all by (auto simp: readFd_def Let_def read_capacity_def)
    then show ?thesis using room fit by (simp add: room_def)
  next
    case False
    have 1: "wf_buffer (?b\<lparr>writerIndex := vsize ?b\<rparr>)"
    proof -
      have "writerIndex b + of_nat (length (take ?w bytes)) = vsize ?b"
        using False fit by (simp add: vsize_def writableBytes_def)
      then show ?thesis using wf_write_writable [OF wf fit] by simp
    qed
    have "append_buf (drop ?w bytes) (?b\<lparr>writerIndex := vsize ?b\<rparr>) = Inr b'"
      using got(2) all False by (auto simp: readFd_def Let_def read_capacity_def [symmetric] bind_res_Inr_iff)
    then show ?thesis
      by (rule append_buf_room [OF 1, rotated]) (use room fit in \<open>simp add: room_def\<close>)
  qed
qed

text \<open>
  Without a bound on the sizes: an \<open>append\<close> that completes has appended. When \<open>len\<close> and the
  indices pass the range of \<open>size_t\<close>, the vector comes out too short for the copy.
\<close>

lemma ensureWriteableBytes_safe:
  assumes wf: "wf_buffer b"
    and fits: "unat (writerIndex (ensureWriteableBytes len b)) + unat len
      \<le> length (vec (ensureWriteableBytes len b))"
  shows "wf_buffer (ensureWriteableBytes len b) \<and> content (ensureWriteableBytes len b) = content b"
proof -
  note D = wf_bufferD [OF wf]
  consider "\<not> writableBytes b < len"
    | "writableBytes b < len" "writableBytes b + prependableBytes b < len + kCheapPrepend"
    | "writableBytes b < len" "\<not> writableBytes b + prependableBytes b < len + kCheapPrepend" by blast
  then show ?thesis
  proof cases
    case 1
    with wf show ?thesis by (simp add: ensureWriteableBytes_id)
  next
    case 2
    then have b': "ensureWriteableBytes len b = b\<lparr>vec := resize 0 (unat (len + writerIndex b)) (vec b)\<rparr>"
      by (simp add: ensureWriteableBytes_def makeSpace_def)
    with fits have "unat (writerIndex b) \<le> unat (len + writerIndex b)" by simp
    moreover have "unat (len + writerIndex b) < 2 ^ 64" using unsigned_less [of "len + writerIndex b"] by simp
    ultimately show ?thesis using D b' by (simp add: wf_buffer_def content_def segment_resize)
  next
    case 3
    then have b': "ensureWriteableBytes len b = b\<lparr>vec := write_at 8 (content b) (vec b),
      readerIndex := kCheapPrepend, writerIndex := kCheapPrepend + readableBytes b\<rparr>"
      by (simp add: ensureWriteableBytes_def makeSpace_def Let_def content_def)
    have w: "unat (kCheapPrepend + readableBytes b) = 8 + length (content b)"
      using D by (subst unat_plus_bounded) (auto simp: readableBytes_nat [OF wf] length_content [OF wf])
    have "8 + length (content b) \<le> length (vec b)" using D unfolding length_content [OF wf] by linarith
    then show ?thesis unfolding b' using w D
      by (simp add: wf_buffer_def content_def [of "vec_update _ _"] content_def [of "readerIndex_update _ _"]
          content_def [of "writerIndex_update _ _"] segment_write_at_here)
  qed
qed

lemma append_buf_safe:
  assumes wf: "wf_buffer b" and data: "length data < 2 ^ 64"
  shows "ends {OutOfRange} (append_buf data b) (\<lambda>b'. wf_buffer b' \<and> content b' = content b @ data)"
proof -
  define len :: size_t where "len = of_nat (length data)"
  define e where "e = ensureWriteableBytes len b"
  have len: "unat len = length data" using data by (simp add: len_def unat_of_nat_size)
  show ?thesis
  proof (cases "unat (writerIndex e) + length data \<le> length (vec e)")
    case True
    with len have E: "wf_buffer e" "content e = content b"
      using ensureWriteableBytes_safe [OF wf, of len] by (simp_all add: e_def)
    from wf_write_writable [OF E(1) True] E(2) True show ?thesis
      by (simp add: append_buf_def Let_def len_def e_def)
  next
    case False
    then show ?thesis by (simp add: append_buf_def Let_def len_def e_def)
  qed
qed

lemma writeFd_room:
  assumes "wf_buffer b"
  shows "writeFd (WriteRoom k) old b
    = (int (min k (length (content b))), old, take k (content b))"
proof -
  have "take (min k (length (content b))) (drop (unat (readerIndex b)) (vec b)) = take k (content b)"
    using assms by (auto simp: content_def segment_def length_content min_def)
  then show ?thesis using assms by (simp add: writeFd_def Let_def readableBytes_nat)
qed

lemma writeFd_err [simp]: "writeFd (WriteErr e) old b = (-1, e, [])"
  by (simp add: writeFd_def)

lemma readFd_safe:
  assumes wf: "wf_buffer b"
  shows "ends {OutOfRange} (readFd env old b)
    (\<lambda>(n, e, b'). wf_buffer b' \<and> (\<exists>bytes. content b' = content b @ bytes \<and> n = (case env of
        ReadErr _ \<Rightarrow> -1 | ReadData _ \<Rightarrow> int (length bytes))))"
proof (cases env)
  case (ReadErr e)
  with wf show ?thesis by (simp add: readFd_def Let_def)
next
  case (ReadData bytes)
  define got where "got = take (read_capacity b) bytes"
  have r: "readFd env old b = readFd (ReadData got) old b"
    by (simp add: ReadData got_def readFd_take_capacity [of bytes])
  show ?thesis
  proof (cases "length got \<le> unat (writableBytes b)")
    case True
    from readFd_fits [OF wf this, of old] show ?thesis
      unfolding r by (rule ends_mono [OF ends_returns]) (auto simp: ReadData)
  next
    case False
    let ?w = "unat (writableBytes b)"
    let ?xs = "take ?w got" and ?ys = "drop ?w got"
    define b1 where "b1 = b\<lparr>vec := write_at (unat (writerIndex b)) ?xs (vec b), writerIndex := vsize b\<rparr>"
    have w: "?w = length (vec b) - unat (writerIndex b)" by (rule writableBytes_nat [OF wf])
    have len: "length ?xs = ?w" using False by simp
    then have fit: "unat (writerIndex b) + length ?xs \<le> length (vec b)" using w wf_bufferD [OF wf] by simp
    have "writerIndex b + of_nat (length ?xs) = vsize b"
      unfolding len by (simp add: writableBytes_def)
    then have b1: "wf_buffer b1" "content b1 = content b @ ?xs"
      using wf_write_writable [OF wf fit] unfolding b1_def by auto
    have cap: "length got \<le> ?w + 65536" by (auto simp: got_def read_capacity_def min_def)
    have "length ?ys < 2 ^ 64" using cap by simp
    from append_buf_safe [OF b1(1) this] have a: "ends {OutOfRange} (append_buf ?ys b1)
      (\<lambda>b'. wf_buffer b' \<and> content b' = content b @ got)" using b1(2) by simp
    have "take (read_capacity b) got = got" by (simp add: got_def)
    then have "readFd (ReadData got) old b = bind_res (append_buf ?ys b1) (\<lambda>b. Inr (int (length got), old, b))"
      using False fit by (simp add: readFd_def Let_def read_capacity_def [symmetric] b1_def vsize_def)
    with a show ?thesis unfolding r
      by (auto simp: ReadData elim: ends_mono)
  qed
qed

section \<open>Properties\<close>

text \<open>
  C10. The buffer is a queue of bytes. Over any sequence of \<open>append\<close> and \<open>retrieve\<close> calls on a
  well-formed buffer, with the total size inside the range of \<open>size_t\<close>, no call goes out of
  the vector's range, and the bytes taken out followed by the bytes still readable are exactly
  the bytes readable at the start followed by the bytes appended, in order: growing the vector
  and moving the readable bytes to its front lose, duplicate and reorder nothing.
\<close>

theorem buffer_is_fifo:
  assumes "wf_buffer b" "room (length (bytes_put ops)) b"
  shows "returns (run_queue append_buf retrieve content unat ops ([], b))
           (\<lambda>(out, b'). wf_buffer b' \<and> out @ content b' = content b @ bytes_put ops)"
  using bq.run_queue_fifo [OF assms, of "[]"] by simp

theorem buffer_is_fifo_witness:
  "returns (run_queue append_buf retrieve content unat
      [Put [1, 2, 3], Take 2, Put [4, 5, 6], Take 100] ([], mk_buffer 4))
    (\<lambda>(out, b'). wf_buffer b' \<and>
       out @ content b' = content (mk_buffer 4) @ [1, 2, 3, 4, 5, 6])"
proof -
  let ?ops = "[Put [1, 2, 3], Take 2, Put [4, 5, 6], Take 100] :: size_t queue_op list"
  have "wf_buffer (mk_buffer 4)" by (rule wf_mk_buffer) simp
  moreover have "room (length (bytes_put ?ops)) (mk_buffer 4)"
    by (simp add: room_def mk_buffer_def kCheapPrepend_def)
  ultimately show ?thesis using buffer_is_fifo [of "mk_buffer 4" ?ops] by simp
qed

text \<open>
  C30. \<open>readFd\<close> on a well-formed buffer: with data waiting, it takes as many bytes as the
  writable part and (when that is below 64 KiB) the stack buffer hold, at least 64 KiB, returns
  their number and appends exactly these bytes to the readable part, also when they spill from
  the vector into the stack buffer; on an error it returns -1, stores the errno and leaves the
  buffer as it was.
\<close>

theorem readFd_appends:
  assumes "wf_buffer b" "room (length bytes) b"
  shows "returns (readFd (ReadData bytes) old b)
      (\<lambda>(n, e, b'). n = int (min (length bytes) (read_capacity b)) \<and> e = old \<and> wf_buffer b'
         \<and> content b' = content b @ take (nat n) bytes)
    \<and> 65536 \<le> read_capacity b
    \<and> readFd (ReadErr err) old b = Inr (-1, err, b)"
proof -
  have "returns (readFd (ReadData bytes) old b)
      (\<lambda>(n, e, b'). n = int (min (length bytes) (read_capacity b)) \<and> e = old \<and> wf_buffer b'
         \<and> content b' = content b @ take (nat n) bytes)"
    using readFd_ok [OF assms] by (rule returns_mono) (auto simp: min_def)
  then show ?thesis by (simp add: read_capacity_min) (simp add: readFd_def)
qed

theorem readFd_appends_witness:
  "returns (readFd (ReadData [7, 8, 9]) 0 (mk_buffer 2))
      (\<lambda>(n, e, b'). n = 3 \<and> e = 0 \<and> wf_buffer b' \<and> content b' = [7, 8, 9])
    \<and> readFd (ReadErr 104) 0 (mk_buffer 2) = Inr (-1, 104, mk_buffer 2)"
proof -
  have "wf_buffer (mk_buffer 2)" by (rule wf_mk_buffer) simp
  moreover have "room (length [7, 8, 9 :: byte]) (mk_buffer 2)"
    by (simp add: room_def mk_buffer_def kCheapPrepend_def)
  ultimately show ?thesis
    using readFd_appends [of "mk_buffer 2" "[7, 8, 9]" 0 104] read_capacity_min [of "mk_buffer 2"]
    by (auto simp: returns_iff min_def)
qed

lemma append_buf_capacity:
  assumes wf: "wf_buffer b" and room: "room (length data) b"
  shows "returns (append_buf data b) (\<lambda>b'. length (vec b') =
     (if unat (writableBytes b) < length data \<and>
         unat (writableBytes b) + unat (prependableBytes b) < length data + 8
      then unat (writerIndex b) + length data else length (vec b)))"
proof -
  note D = wf_bufferD [OF wf]
  define len :: size_t where "len = of_nat (length data)"
  define e where "e = ensureWriteableBytes len b"
  have len: "unat len = length data"
    using room by (simp add: len_def unat_of_nat_size room_def)
  have room': "room (unat len) b" using room len by simp
  have wp: "unat (writableBytes b + prependableBytes b)
      = unat (writableBytes b) + unat (prependableBytes b)"
    using D by (intro unat_plus_bounded) (auto simp: writableBytes_nat [OF wf] prependableBytes_def)
  have l8: "unat (len + kCheapPrepend) = length data + 8"
    using room len by (subst unat_plus_bounded) (simp_all add: room_def)
  have lw: "unat (len + writerIndex b) = unat (writerIndex b) + length data"
    using D room len by (subst unat_plus_bounded) (simp_all add: room_def)
  have "length (vec e) = (if unat (writableBytes b) < length data \<and>
         unat (writableBytes b) + unat (prependableBytes b) < length data + 8
      then unat (writerIndex b) + length data else length (vec b))"
  proof (cases "writableBytes b < len")
    case True
    show ?thesis
    proof (cases "writableBytes b + prependableBytes b < len + kCheapPrepend")
      case grow: True
      with True show ?thesis
        by (simp add: e_def ensureWriteableBytes_def makeSpace_def word_less_nat_alt wp l8 lw len)
    next
      case False
      have "8 + (unat (writerIndex b) - unat (readerIndex b)) \<le> length (vec b)"
        using makeSpace_move_forward [OF wf room' False True] D by linarith
      with True False show ?thesis using D
        by (simp add: e_def ensureWriteableBytes_def makeSpace_def word_less_nat_alt wp l8 len Let_def)
    qed
  next
    case False
    then show ?thesis by (simp add: e_def ensureWriteableBytes_def word_less_nat_alt len)
  qed
  moreover have "unat (writerIndex e) + length data \<le> length (vec e)"
    using ensureWriteableBytes_ok(3) [OF wf room'] len by (simp add: e_def)
  ultimately show ?thesis by (simp add: append_buf_def Let_def flip: len_def e_def)
qed

text \<open>
  \<open>append\<close> grows the vector only when it must: when the writable part, or the writable part
  together with the space already read in front of it (less the 8 reserved bytes), holds the
  new bytes, the vector keeps its size; otherwise it becomes exactly as long as needed.
\<close>

lemma append_grows_only_when_needed:
  assumes "wf_buffer b" "room (length data) b"
  shows "returns (append_buf data b) (\<lambda>b'. content b' = content b @ data \<and> length (vec b') =
     (if length data \<le> unat (writableBytes b)
         \<or> length data + 8 \<le> unat (writableBytes b) + unat (prependableBytes b)
      then length (vec b) else unat (writerIndex b) + length data))"
  using append_buf_capacity [OF assms] append_buf_ok [OF assms]
  by (auto simp: returns_iff not_le)

text \<open>
  \<open>reteieveAsString(len)\<close> trusts its argument. For \<open>len\<close> up to the readable bytes it returns
  the first \<open>len\<close> of them and removes them; for a larger \<open>len\<close> inside the vector it returns the
  readable bytes followed by bytes that were never written by an append and empties the
  buffer; past the vector it reads out of range. \<open>retrieveAllAsString\<close> is always the first case.
\<close>

lemma reteieveAsString_all_branches:
  assumes wf: "wf_buffer b"
  shows "reteieveAsString len b =
      (if unat len \<le> length (content b)
       then Inr (take (unat len) (content b), retrieve len b)
       else if unat (readerIndex b) + unat len \<le> length (vec b)
       then Inr (content b @ segment (unat (writerIndex b)) (unat (readerIndex b) + unat len) (vec b),
                 retrieveAll b)
       else Inl OutOfRange)
    \<and> returns (retrieveAllAsString b) (\<lambda>(s, b'). s = content b \<and> content b' = [])"
proof -
  note D = wf_bufferD [OF wf]
  have beyond: "take (unat len) (drop (unat (readerIndex b)) (vec b)) =
      content b @ segment (unat (writerIndex b)) (unat (readerIndex b) + unat len) (vec b)"
    if "\<not> unat len \<le> length (content b)"
    using segment_append [of "unat (readerIndex b)" "unat (writerIndex b)"
        "unat (readerIndex b) + unat len" "vec b"] D that
    by (simp add: content_def length_content [OF wf, unfolded content_def])
      (simp add: segment_def)
  have all: "retrieve len b = retrieveAll b" if "\<not> unat len \<le> length (content b)"
    using that by (simp add: retrieve_def word_less_nat_alt readableBytes_nat [OF wf])
  have "reteieveAsString len b =
      (if unat len \<le> length (content b)
       then Inr (take (unat len) (content b), retrieve len b)
       else if unat (readerIndex b) + unat len \<le> length (vec b)
       then Inr (content b @ segment (unat (writerIndex b)) (unat (readerIndex b) + unat len) (vec b),
                 retrieveAll b)
       else Inl OutOfRange)"
    using reteieveAsString_readable [OF wf, of len] beyond all
    by (auto simp: reteieveAsString_def)
  moreover have "retrieveAllAsString b = Inr (content b, retrieve (readableBytes b) b)"
    using reteieveAsString_readable [OF wf, of "readableBytes b"]
    by (simp add: retrieveAllAsString_def readableBytes_nat [OF wf])
  ultimately show ?thesis by (simp add: content_retrieve [OF wf] readableBytes_nat [OF wf])
qed

end
