(* ===== verification/Callbacks.thy ===== *)
theory Callbacks
  imports Muduo_Prelude
begin

text \<open>
  The closures of the program. A \<open>std::bind\<close> object is written as the method and the bound
  arguments: \<open>handler\<close> for the ones stored in channels, \<open>Functor\<close> for the ones queued in event
  loops and timers, \<open>close_target\<close> for the ones stored as a connection's close callback.
  Objects are named by natural numbers, their addresses.
\<close>

text \<open>
  Channel callbacks, bound by the constructors of EventLoop, TimerQueue, Acceptor and
  TcpConnection (the number is the connection) and by \<open>Connector::connecting\<close>.
\<close>

datatype handler =
    LoopHandleRead nat
  | TimerHandleRead nat
  | AcceptorHandleRead
  | ConnHandleRead nat
  | ConnHandleWrite nat
  | ConnHandleClose nat
  | ConnHandleError nat
  | ConnectorHandleWrite
  | ConnectorHandleError

text \<open>
  \<open>TcpServer::removeConnection\<close>, \<open>TcpClient::removeConnection\<close> and the function
  \<open>detail::removeConnection\<close> of TcpClient.cc.
\<close>

datatype close_target = ServerRemove | ClientRemove | DetailRemove

text \<open>
  Queued functors. \<open>FSendInLoop\<close> holds what the code binds: the connection, the pointer
  \<open>buf.c_str()\<close> into the caller's string, and the length. \<open>FUser\<close> is a functor of the
  application.
\<close>

datatype Functor =
    FConnectEstablished nat
  | FConnectDestroyed nat
  | FForceCloseInLoop nat
  | FSendInLoop nat nat size_t
  | FShutdownInLoop nat
  | FWriteComplete nat
  | FHighWaterMark nat size_t
  | FSetCloseCallback nat close_target
  | FRemoveConnectionInLoop nat
  | FListen
  | FStartInLoop
  | FStopInLoop
  | FResetChannel
  | FRemoveConnector
  | FAddTimerInLoop nat
  | FCancelInLoop nat int
  | FUser nat

end
