(* ===== verification/Channel.thy ===== *)
theory Channel
  imports Callbacks
begin

unbundle bit_operations_syntax

text \<open>
  Channel.h and Channel.cc: the record of a channel, its event mask, and the decision which
  callbacks an event report makes it call. A \<open>std::function\<close> member is an \<open>option\<close> of the
  method bound into it (\<open>handler\<close>). The
  calls that reach the event loop (\<open>update\<close>, \<open>remove\<close>) are in the theory Reactor, where the
  loop is.
\<close>

section \<open>The class\<close>

definition EPOLLIN :: mask where "EPOLLIN = 1"
definition EPOLLPRI :: mask where "EPOLLPRI = 2"
definition EPOLLOUT :: mask where "EPOLLOUT = 4"
definition EPOLLERR :: mask where "EPOLLERR = 8"
definition EPOLLHUP :: mask where "EPOLLHUP = 16"

definition kNoneEvent :: mask where "kNoneEvent = 0"
definition kReadEvent :: mask where "kReadEvent = EPOLLIN OR EPOLLPRI"
definition kWriteEvent :: mask where "kWriteEvent = EPOLLOUT"

record channel =
  ch_loop :: nat
  ch_fd :: int
  ch_events :: mask
  ch_revents :: mask
  ch_index :: int
  ch_tie :: "nat option"
  ch_tied :: bool
  readCallback :: "handler option"
  writeCallback :: "handler option"
  closeCallback :: "handler option"
  errorCallback :: "handler option"

definition mk_channel :: "nat \<Rightarrow> int \<Rightarrow> channel" where
  "mk_channel loop fd =
     \<lparr>ch_loop = loop, ch_fd = fd, ch_events = 0, ch_revents = 0, ch_index = -1,
      ch_tie = None, ch_tied = False,
      readCallback = None, writeCallback = None, closeCallback = None, errorCallback = None\<rparr>"

text \<open>The setters of the callbacks; a bound function is never empty.\<close>

definition setReadCallback :: "handler \<Rightarrow> channel \<Rightarrow> channel" where
  [simp]: "setReadCallback cb ch = ch\<lparr>readCallback := Some cb\<rparr>"

definition setWriteCallback :: "handler \<Rightarrow> channel \<Rightarrow> channel" where
  [simp]: "setWriteCallback cb ch = ch\<lparr>writeCallback := Some cb\<rparr>"

definition setCloseCallback :: "handler \<Rightarrow> channel \<Rightarrow> channel" where
  [simp]: "setCloseCallback cb ch = ch\<lparr>closeCallback := Some cb\<rparr>"

definition setErrorCallback :: "handler \<Rightarrow> channel \<Rightarrow> channel" where
  [simp]: "setErrorCallback cb ch = ch\<lparr>errorCallback := Some cb\<rparr>"

definition tie_channel :: "nat \<Rightarrow> channel \<Rightarrow> channel" where
  "tie_channel obj ch = ch\<lparr>ch_tie := Some obj, ch_tied := True\<rparr>"

definition set_revents :: "mask \<Rightarrow> channel \<Rightarrow> channel" where
  "set_revents revt ch = ch\<lparr>ch_revents := revt\<rparr>"

text \<open>The five changes of the interest mask, before the call of \<open>update()\<close>.\<close>

datatype mask_change = EnableReading | DisableReading | EnableWriting | DisableWriting | DisableAll

fun change_events :: "mask_change \<Rightarrow> mask \<Rightarrow> mask" where
  "change_events EnableReading ev = ev OR kReadEvent"
| "change_events DisableReading ev = ev AND NOT kReadEvent"
| "change_events EnableWriting ev = ev OR kWriteEvent"
| "change_events DisableWriting ev = ev AND NOT kWriteEvent"
| "change_events DisableAll ev = kNoneEvent"

definition isNoneEvent :: "channel \<Rightarrow> bool" where
  "isNoneEvent ch \<longleftrightarrow> ch_events ch = kNoneEvent"

definition isWriting :: "channel \<Rightarrow> bool" where
  "isWriting ch \<longleftrightarrow> ch_events ch AND kWriteEvent \<noteq> 0"

definition isReading :: "channel \<Rightarrow> bool" where
  "isReading ch \<longleftrightarrow> ch_events ch AND kReadEvent \<noteq> 0"

section \<open>Which callbacks an event calls\<close>

text \<open>
  \<open>handleEventWithGuard\<close>: four tests in a row, each of the mask \<open>revents_\<close> and of the member,
  read at the time of the test. \<open>get\<close> finds the channel in the state, \<open>call\<close> runs a bound
  method; a callback may change the state in any way.
\<close>

definition call_if ::
    "('s \<Rightarrow> channel res) \<Rightarrow> (handler \<Rightarrow> 's \<Rightarrow> 's res) \<Rightarrow> (mask \<Rightarrow> bool) \<Rightarrow>
     (channel \<Rightarrow> handler option) \<Rightarrow> 's \<Rightarrow> 's res" where
  "call_if get call test member s =
     bind_res (get s) (\<lambda>ch.
       if test (ch_revents ch)
       then (case member ch of None \<Rightarrow> Inr s | Some h \<Rightarrow> call h s)
       else Inr s)"

definition handleEventWithGuard ::
    "('s \<Rightarrow> channel res) \<Rightarrow> (handler \<Rightarrow> 's \<Rightarrow> 's res) \<Rightarrow> 's \<Rightarrow> 's res" where
  "handleEventWithGuard get call s =
     bind_res (call_if get call (\<lambda>r. r AND EPOLLHUP \<noteq> 0 \<and> \<not> (r AND EPOLLIN \<noteq> 0)) closeCallback s) (\<lambda>s.
     bind_res (call_if get call (\<lambda>r. r AND EPOLLERR \<noteq> 0) errorCallback s) (\<lambda>s.
     bind_res (call_if get call (\<lambda>r. r AND EPOLLIN \<noteq> 0) readCallback s) (\<lambda>s.
     call_if get call (\<lambda>r. r AND EPOLLOUT \<noteq> 0) writeCallback s)))"

text \<open>
  \<open>handleEvent\<close>: a tied channel runs the guarded part only while the object it is tied to is
  alive (\<open>alive\<close> is the success of \<open>tie_.lock()\<close>).
\<close>

definition handleEvent ::
    "('s \<Rightarrow> channel res) \<Rightarrow> (handler \<Rightarrow> 's \<Rightarrow> 's res) \<Rightarrow> (nat \<Rightarrow> 's \<Rightarrow> bool) \<Rightarrow> 's \<Rightarrow> 's res" where
  "handleEvent get call alive s =
     bind_res (get s) (\<lambda>ch.
       if ch_tied ch
       then (case ch_tie ch of
               Some obj \<Rightarrow> if alive obj s then handleEventWithGuard get call s else Inr s
             | None \<Rightarrow> Inr s)
       else handleEventWithGuard get call s)"

section \<open>The mask\<close>

lemmas event_defs = EPOLLIN_def EPOLLPRI_def EPOLLOUT_def EPOLLERR_def EPOLLHUP_def
  kNoneEvent_def kReadEvent_def kWriteEvent_def

lemma kReadEvent_eq: "kReadEvent = 3"
  by (simp add: event_defs)

text \<open>Each event test of the code reads one bit of the mask.\<close>

lemma event_bits:
  "(m :: mask) AND EPOLLIN \<noteq> 0 \<longleftrightarrow> bit m 0"
  "m AND EPOLLPRI \<noteq> 0 \<longleftrightarrow> bit m 1"
  "m AND EPOLLOUT \<noteq> 0 \<longleftrightarrow> bit m 2"
  "m AND EPOLLERR \<noteq> 0 \<longleftrightarrow> bit m 3"
  "m AND EPOLLHUP \<noteq> 0 \<longleftrightarrow> bit m 4"
  by (simp_all add: bit_iff_and_push_bit_not_eq_0 event_defs)

lemma isWriting_bit: "isWriting ch \<longleftrightarrow> bit (ch_events ch) 2"
  by (simp add: isWriting_def kWriteEvent_def event_bits)

lemma isReading_bits: "isReading ch \<longleftrightarrow> bit (ch_events ch) 0 \<or> bit (ch_events ch) 1"
proof -
  have "m AND kReadEvent = 0 \<longleftrightarrow> m AND EPOLLIN = 0 \<and> m AND EPOLLPRI = 0" for m :: mask
    by (simp add: kReadEvent_def bit.conj_disj_distrib or_eq_0_iff)
  then show ?thesis using event_bits(1,2) [of "ch_events ch"] by (auto simp: isReading_def)
qed

lemma bit_kReadEvent [simp]:
  "bit kReadEvent n \<longleftrightarrow> n = 0 \<or> n = 1"
  by (cases n) (auto simp: kReadEvent_eq bit_simps bit_numeral_rec split: nat.splits)

lemma bit_kWriteEvent [simp]: "bit kWriteEvent n \<longleftrightarrow> n = 2"
  by (auto simp: kWriteEvent_def EPOLLOUT_def bit_simps bit_numeral_rec split: nat.splits)

declare change_events.simps [simp del]

lemma bit_EPOLLERR [simp]: "bit EPOLLERR n \<longleftrightarrow> n = 3"
  and bit_EPOLLHUP [simp]: "bit EPOLLHUP n \<longleftrightarrow> n = 4"
  by (auto simp: EPOLLERR_def EPOLLHUP_def bit_simps bit_numeral_rec split: nat.splits)

lemma bit_change_events [simp]:
  "bit (change_events EnableReading ev) n \<longleftrightarrow> bit ev n \<or> n = 0 \<or> n = 1"
  "bit (change_events DisableReading ev) n \<longleftrightarrow> bit ev n \<and> n \<noteq> 0 \<and> n \<noteq> 1"
  "bit (change_events EnableWriting ev) n \<longleftrightarrow> bit ev n \<or> n = 2"
  "bit (change_events DisableWriting ev) n \<longleftrightarrow> bit ev n \<and> n \<noteq> 2"
  "bit (change_events DisableAll ev) n \<longleftrightarrow> False"
  by (auto simp: change_events.simps bit_simps kNoneEvent_def dest: bit_imp_le_length)

lemma isNoneEvent_bits: "isNoneEvent ch \<longleftrightarrow> (\<forall>n. \<not> bit (ch_events ch) n)"
  by (auto simp: isNoneEvent_def kNoneEvent_def intro: bit_eqI)

lemma isNoneEvent_change [simp]:
  "isNoneEvent (ch\<lparr>ch_events := change_events DisableAll ev\<rparr>)"
  "\<not> isNoneEvent (ch\<lparr>ch_events := change_events EnableReading ev\<rparr>)"
  "\<not> isNoneEvent (ch\<lparr>ch_events := change_events EnableWriting ev\<rparr>)"
  by (auto simp: isNoneEvent_bits)

section \<open>The interface of a channel to its callbacks\<close>

text \<open>
  A report is read off the channel before the first callback runs: \<open>fired\<close> lists the bound
  methods in the order of the four tests. That the code, which tests again after each callback,
  calls exactly these, needs that a callback leaves the channel alive, with its \<open>revents_\<close> and
  its four members; this is what \<open>dispatcher\<close> asks of the owner.
\<close>

definition fired :: "channel \<Rightarrow> handler list" where
  "fired ch =
     (if bit (ch_revents ch) 4 \<and> \<not> bit (ch_revents ch) 0 then opt_list (closeCallback ch) else [])
     @ (if bit (ch_revents ch) 3 then opt_list (errorCallback ch) else [])
     @ (if bit (ch_revents ch) 0 then opt_list (readCallback ch) else [])
     @ (if bit (ch_revents ch) 2 then opt_list (writeCallback ch) else [])"

definition same_dispatch :: "channel \<Rightarrow> channel \<Rightarrow> bool" where
  "same_dispatch ch ch' \<longleftrightarrow> ch_revents ch' = ch_revents ch
     \<and> readCallback ch' = readCallback ch \<and> writeCallback ch' = writeCallback ch
     \<and> closeCallback ch' = closeCallback ch \<and> errorCallback ch' = errorCallback ch"

locale dispatcher =
  fixes get :: "'s \<Rightarrow> channel res"
    and call :: "handler \<Rightarrow> 's \<Rightarrow> 's res"
  assumes stable: "get s = Inr ch \<Longrightarrow> call h s = Inr s' \<Longrightarrow>
      \<exists>ch'. get s' = Inr ch' \<and> same_dispatch ch ch'"
begin

lemma fold_stable:
  "get s = Inr ch \<Longrightarrow> fold_res call hs s = Inr s' \<Longrightarrow>
   \<exists>ch'. get s' = Inr ch' \<and> same_dispatch ch ch'"
proof (induction hs arbitrary: s ch)
  case Nil
  then show ?case by (simp add: same_dispatch_def)
next
  case (Cons h hs)
  then obtain t ch1 where "call h s = Inr t" "get t = Inr ch1" "same_dispatch ch ch1"
    "fold_res call hs t = Inr s'"
    using stable by (auto simp: bind_res_Inr_iff) blast
  then show ?case using Cons.IH by (fastforce simp: same_dispatch_def)
qed

definition fires :: "(mask \<Rightarrow> bool) \<Rightarrow> (channel \<Rightarrow> handler option) \<Rightarrow> channel \<Rightarrow> handler list" where
  "fires test member ch = (if test (ch_revents ch) then opt_list (member ch) else [])"

lemma call_if_fold:
  "get s = Inr ch \<Longrightarrow> call_if get call test member s = fold_res call (fires test member ch) s"
  by (auto simp: call_if_def fires_def bind_res_def split: option.splits sum.splits)

lemma stage:
  assumes "get s = Inr ch"
    and "\<And>s' ch'. get s' = Inr ch' \<Longrightarrow> same_dispatch ch ch' \<Longrightarrow> rest s' = fold_res call (later ch') s'"
    and "\<And>ch'. same_dispatch ch ch' \<Longrightarrow> later ch' = later ch"
  shows "bind_res (call_if get call test member s) rest
       = fold_res call (fires test member ch @ later ch) s"
  unfolding call_if_fold [OF assms(1)]
  using fold_stable [OF assms(1), of "fires test member ch"] assms(2,3)
  by (cases "fold_res call (fires test member ch) s") (force simp: fold_res_append)+

theorem handleEventWithGuard_fired:
  assumes ch: "get s = Inr ch"
  shows "handleEventWithGuard get call s = fold_res call (fired ch) s"
  unfolding handleEventWithGuard_def
  by (subst stage [OF ch, where later = "\<lambda>ch. fires (\<lambda>r. r AND EPOLLERR \<noteq> 0) errorCallback ch
        @ fires (\<lambda>r. r AND EPOLLIN \<noteq> 0) readCallback ch
        @ fires (\<lambda>r. r AND EPOLLOUT \<noteq> 0) writeCallback ch"],
      subst stage, assumption, subst stage, assumption)
    (auto simp: fired_def fires_def same_dispatch_def event_bits call_if_fold)

end

end
