(* ===== verification/Poller.thy ===== *)
theory Poller
  imports Channel
begin

unbundle bit_operations_syntax

text \<open>
  Poller.h, Poller.cc, DefaultPoller.cc, EPollPoller.h and EPollPoller.cc: the map from file
  descriptors to channels, its synchronisation with the kernel's interest list, and the reading
  of event reports. The kernel's side is modelled as far as epoll_ctl(2) and epoll_wait(2)
  document it: an interest list with one entry per descriptor, ADD failing on a present and
  MOD/DEL on an absent descriptor, reports only for entries, with the requested events and
  EPOLLERR and EPOLLHUP. Any further failure (no memory, a bad descriptor) is \<open>refuse\<close>, an
  arbitrary parameter.
\<close>

section \<open>The kernel's interest list\<close>

datatype ctl_op = EPOLL_CTL_ADD | EPOLL_CTL_MOD | EPOLL_CTL_DEL

record epoll =
  interest :: "int \<Rightarrow> (mask \<times> nat) option"
  refuse :: "ctl_op \<Rightarrow> int \<Rightarrow> bool"

text \<open>The result is whether the call succeeds; \<open>c\<close> is the user data, the channel's address.\<close>

definition epoll_ctl :: "ctl_op \<Rightarrow> int \<Rightarrow> mask \<Rightarrow> nat \<Rightarrow> epoll \<Rightarrow> bool \<times> epoll" where
  "epoll_ctl opn fd ev c k =
     (if refuse k opn fd then (False, k)
      else case opn of
        EPOLL_CTL_ADD \<Rightarrow>
          (if interest k fd = None then (True, k\<lparr>interest := (interest k)(fd \<mapsto> (ev, c))\<rparr>)
           else (False, k))
      | EPOLL_CTL_MOD \<Rightarrow>
          (if interest k fd = None then (False, k)
           else (True, k\<lparr>interest := (interest k)(fd \<mapsto> (ev, c))\<rparr>))
      | EPOLL_CTL_DEL \<Rightarrow>
          (if interest k fd = None then (False, k)
           else (True, k\<lparr>interest := (interest k)(fd := None)\<rparr>)))"

text \<open>What one entry reports when the descriptor's state is \<open>m\<close>; nothing is no report.\<close>

definition report :: "epoll \<Rightarrow> int \<times> mask \<Rightarrow> (mask \<times> nat) option" where
  "report k = (\<lambda>(fd, m). case interest k fd of
       None \<Rightarrow> None
     | Some (ev, c) \<Rightarrow>
         let r = m AND (ev OR EPOLLERR OR EPOLLHUP) in if r = 0 then None else Some (r, c))"

definition epoll_wait :: "nat \<Rightarrow> (int \<times> mask) list \<Rightarrow> epoll \<Rightarrow> (mask \<times> nat) list" where
  "epoll_wait maxevents states k = take maxevents (List.map_filter (report k) states)"

section \<open>The class\<close>

record poller =
  channels_map :: "int \<Rightarrow> nat option"
  events_size :: nat
  kernel :: epoll

definition kInitEventListSize :: nat where "kInitEventListSize = 16"

definition KNew :: int where "KNew = -1"
definition KAdded :: int where "KAdded = 1"
definition KDelete :: int where "KDelete = 2"

definition mk_poller :: "(ctl_op \<Rightarrow> int \<Rightarrow> bool) \<Rightarrow> poller" where
  "mk_poller ref = \<lparr>channels_map = Map.empty, events_size = kInitEventListSize,
     kernel = \<lparr>interest = Map.empty, refuse = ref\<rparr>\<rparr>"

text \<open>The constructor with what \<open>epoll_create1\<close> returns; a failure ends the process.\<close>

definition new_EPollPoller :: "int \<Rightarrow> (ctl_op \<Rightarrow> int \<Rightarrow> bool) \<Rightarrow> poller res" where
  "new_EPollPoller epollfd ref =
     (if epollfd < 0 then Inl (LogFatal ''epoll_create error'') else Inr (mk_poller ref))"

text \<open>
  \<open>newDefaultPoller\<close>: no poller (a null pointer) when the variable MUDUO_USE_POLL is set.
\<close>

definition newDefaultPoller :: "bool \<Rightarrow> int \<Rightarrow> (ctl_op \<Rightarrow> int \<Rightarrow> bool) \<Rightarrow> poller option res" where
  "newDefaultPoller use_poll epollfd ref =
     (if use_poll then Inr None else bind_res (new_EPollPoller epollfd ref) (\<lambda>p. Inr (Some p)))"

text \<open>\<open>update\<close>: a failing DEL is only logged, a failing ADD or MOD ends the process.\<close>

definition poller_update :: "ctl_op \<Rightarrow> nat \<Rightarrow> channel \<Rightarrow> poller \<Rightarrow> poller res" where
  "poller_update opn c ch p =
     (let (ok, k) = epoll_ctl opn (ch_fd ch) (ch_events ch) c (kernel p) in
      if \<not> ok \<and> opn \<noteq> EPOLL_CTL_DEL then Inl (LogFatal ''epoll_ctl add/mod error'')
      else Inr (p\<lparr>kernel := k\<rparr>))"

text \<open>\<open>updateChannel\<close> and \<open>removeChannel\<close> change the poller and the channel's index.\<close>

definition updateChannel :: "nat \<Rightarrow> channel \<Rightarrow> poller \<Rightarrow> (channel \<times> poller) res" where
  "updateChannel c ch p =
     (let index = ch_index ch in
      if index = KDelete \<or> index = KNew
      then let p = (if index = KNew
                    then p\<lparr>channels_map := (channels_map p)(ch_fd ch \<mapsto> c)\<rparr> else p);
               ch = ch\<lparr>ch_index := KAdded\<rparr>
           in bind_res (poller_update EPOLL_CTL_ADD c ch p) (\<lambda>p. Inr (ch, p))
      else if isNoneEvent ch
      then bind_res (poller_update EPOLL_CTL_DEL c ch p) (\<lambda>p. Inr (ch\<lparr>ch_index := KDelete\<rparr>, p))
      else bind_res (poller_update EPOLL_CTL_MOD c ch p) (\<lambda>p. Inr (ch, p)))"

definition removeChannel :: "nat \<Rightarrow> channel \<Rightarrow> poller \<Rightarrow> (channel \<times> poller) res" where
  "removeChannel c ch p =
     (let p = p\<lparr>channels_map := (channels_map p)(ch_fd ch := None)\<rparr> in
      bind_res (if ch_index ch = KAdded then poller_update EPOLL_CTL_DEL c ch p else Inr p)
        (\<lambda>p. Inr (ch\<lparr>ch_index := KNew\<rparr>, p)))"

definition hasChannel :: "nat \<Rightarrow> channel \<Rightarrow> poller \<Rightarrow> bool" where
  "hasChannel c ch p \<longleftrightarrow> channels_map p (ch_fd ch) = Some c"

text \<open>
  \<open>fillActiveChannels\<close>: writes \<open>revents_\<close> through the stored pointer, so a report for a
  destroyed channel is a use after free.
\<close>

fun fillActiveChannels :: "(mask \<times> nat) list \<Rightarrow> (nat \<Rightarrow> channel option) \<times> nat list \<Rightarrow>
    ((nat \<Rightarrow> channel option) \<times> nat list) res" where
  "fillActiveChannels [] (cs, active) = Inr (cs, active)"
| "fillActiveChannels ((r, c) # es) (cs, active) =
     bind_res (deref UseAfterFree (cs c)) (\<lambda>ch.
       fillActiveChannels es (cs(c \<mapsto> set_revents r ch), active @ [c]))"

text \<open>
  The environment of one \<open>epoll_wait\<close>: the states of the descriptors in the order the kernel
  looks at them, or an errno (EINTR and the other errors end in the same state, one is logged).
\<close>

datatype poll_env = Ready "(int \<times> mask) list" | PollErr int

definition poll :: "poll_env \<Rightarrow> poller \<Rightarrow> (nat \<Rightarrow> channel option) \<Rightarrow>
    (poller \<times> (nat \<Rightarrow> channel option) \<times> nat list) res" where
  "poll env p cs =
     (case env of
        PollErr e \<Rightarrow> Inr (p, cs, [])
      | Ready states \<Rightarrow>
          let events = epoll_wait (events_size p) states (kernel p); numEvents = length events in
          if 0 < numEvents
          then bind_res (fillActiveChannels events (cs, [])) (\<lambda>(cs, active).
            Inr (if numEvents = events_size p then p\<lparr>events_size := events_size p * 2\<rparr> else p,
                 cs, active))
          else Inr (p, cs, []))"

section \<open>The interface of a poller to the channels\<close>

text \<open>
  The abstract class Poller: what \<open>updateChannel\<close> and \<open>removeChannel\<close> promise whoever changes a
  channel's mask. \<open>agree p cs\<close> is the poller's invariant with the channels \<open>cs\<close> of its loop,
  \<open>watched\<close> the events the system watches for a channel, \<open>may_add\<close> that the channel's
  descriptor is not taken by another channel.
\<close>

text \<open>Several changes of one channel's mask through a poller's \<open>updateChannel\<close>.\<close>

fun change_all :: "(nat \<Rightarrow> channel \<Rightarrow> 'p \<Rightarrow> (channel \<times> 'p) res) \<Rightarrow> nat \<Rightarrow> mask_change list \<Rightarrow>
    channel \<times> 'p \<Rightarrow> (channel \<times> 'p) res" where
  "change_all update c [] s = Inr s"
| "change_all update c (m # ms) (ch, p) =
     bind_res (update c (ch\<lparr>ch_events := change_events m (ch_events ch)\<rparr>) p)
       (change_all update c ms)"

locale demultiplexer =
  fixes agree :: "'p \<Rightarrow> (nat \<Rightarrow> channel option) \<Rightarrow> bool"
    and mine :: "channel \<Rightarrow> bool"
    and may_add :: "'p \<Rightarrow> channel \<Rightarrow> bool"
    and watched :: "'p \<Rightarrow> nat \<Rightarrow> channel \<Rightarrow> mask"
    and update :: "nat \<Rightarrow> channel \<Rightarrow> 'p \<Rightarrow> (channel \<times> 'p) res"
    and remove :: "nat \<Rightarrow> channel \<Rightarrow> 'p \<Rightarrow> (channel \<times> 'p) res"
  assumes update_ok: "agree p cs \<Longrightarrow> cs c = Some ch \<Longrightarrow> mine ch \<Longrightarrow> may_add p ch \<Longrightarrow>
      returns (update c (ch\<lparr>ch_events := ev\<rparr>) p) (\<lambda>(ch', p'). agree p' (cs(c \<mapsto> ch')) \<and> mine ch'
        \<and> ch_events ch' = ev \<and> watched p' c ch' = ev \<and> may_add p' ch')"
    and remove_ok: "agree p cs \<Longrightarrow> cs c = Some ch \<Longrightarrow> mine ch \<Longrightarrow> may_add p ch \<Longrightarrow>
      returns (remove c ch p) (\<lambda>(ch', p'). agree p' (cs(c \<mapsto> ch')) \<and> mine ch'
        \<and> watched p' c ch' = 0 \<and> may_add p' ch')"
begin

text \<open>
  A channel's owner may change the mask any number of times: no change fails, and in the end
  the system watches exactly the mask that the changes compute.
\<close>

lemma change_all_ok:
  assumes "agree p cs" "cs c = Some ch" "mine ch" "may_add p ch" "ms \<noteq> []"
  shows "returns (change_all update c ms (ch, p)) (\<lambda>(ch', p'). agree p' (cs(c \<mapsto> ch')) \<and> mine ch'
      \<and> may_add p' ch' \<and> ch_events ch' = fold change_events ms (ch_events ch)
      \<and> watched p' c ch' = fold change_events ms (ch_events ch))"
  using assms
proof (induction ms arbitrary: p cs ch)
  case Nil
  then show ?case by simp
next
  case (Cons m ms)
  let ?ev = "change_events m (ch_events ch)"
  obtain ch1 p1 where u: "update c (ch\<lparr>ch_events := ?ev\<rparr>) p = Inr (ch1, p1)"
    "agree p1 (cs(c \<mapsto> ch1))" "mine ch1" "ch_events ch1 = ?ev" "watched p1 c ch1 = ?ev" "may_add p1 ch1"
    using update_ok [OF Cons.prems(1-4), of ?ev] by (auto simp: returns_iff)
  show ?case
  proof (cases "ms = []")
    case True
    with u show ?thesis by (simp del: fun_upd_apply)
  next
    case False
    have "(cs(c \<mapsto> ch1)) c = Some ch1" by simp
    from Cons.IH [OF u(2) this u(3,6) False, unfolded fun_upd_upd] u(1,4) show ?thesis by simp
  qed
qed

end

section \<open>The invariant of EPollPoller\<close>

text \<open>
  Poller, channels and kernel agree: the map holds exactly the channels of the loop that are
  not KNew, under their descriptors, the interest list exactly those that are KAdded, with
  their own masks; a KDelete channel has the empty mask. The kernel refuses no request.
\<close>

definition registered :: "nat \<Rightarrow> (nat \<Rightarrow> channel option) \<Rightarrow> int \<Rightarrow> nat \<Rightarrow> bool" where
  "registered l cs fd c \<longleftrightarrow>
     (\<exists>ch. cs c = Some ch \<and> ch_loop ch = l \<and> ch_fd ch = fd \<and> ch_index ch \<noteq> KNew)"

definition armed :: "nat \<Rightarrow> (nat \<Rightarrow> channel option) \<Rightarrow> int \<Rightarrow> mask \<Rightarrow> nat \<Rightarrow> bool" where
  "armed l cs fd ev c \<longleftrightarrow>
     (\<exists>ch. cs c = Some ch \<and> ch_loop ch = l \<and> ch_fd ch = fd \<and> ch_index ch = KAdded
       \<and> ch_events ch = ev)"

definition index_ok :: "channel \<Rightarrow> bool" where
  "index_ok ch \<longleftrightarrow> ch_index ch \<in> {KNew, KAdded, KDelete} \<and> (ch_index ch = KDelete \<longrightarrow> isNoneEvent ch)"

definition poller_inv :: "nat \<Rightarrow> poller \<Rightarrow> (nat \<Rightarrow> channel option) \<Rightarrow> bool" where
  "poller_inv l p cs \<longleftrightarrow>
     (\<forall>fd c. channels_map p fd = Some c \<longleftrightarrow> registered l cs fd c)
     \<and> (\<forall>fd ev c. interest (kernel p) fd = Some (ev, c) \<longleftrightarrow> armed l cs fd ev c)
     \<and> (\<forall>c ch. cs c = Some ch \<and> ch_loop ch = l \<longrightarrow> index_ok ch)
     \<and> (\<forall>opn fd. \<not> refuse (kernel p) opn fd)"

definition may_add :: "poller \<Rightarrow> channel \<Rightarrow> bool" where
  "may_add p ch \<longleftrightarrow> (ch_index ch = KNew \<longrightarrow> channels_map p (ch_fd ch) = None)"

text \<open>The events the kernel watches for a channel; no entry is the empty mask.\<close>

definition watched :: "poller \<Rightarrow> nat \<Rightarrow> channel \<Rightarrow> mask" where
  "watched p c ch = (case interest (kernel p) (ch_fd ch) of
       Some (ev, c') \<Rightarrow> if c' = c then ev else 0 | None \<Rightarrow> 0)"

lemma index_neq [simp]:
  "KNew \<noteq> KAdded" "KAdded \<noteq> KNew" "KNew \<noteq> KDelete" "KDelete \<noteq> KNew"
  "KAdded \<noteq> KDelete" "KDelete \<noteq> KAdded"
  by (simp_all add: KNew_def KAdded_def KDelete_def)

lemma poller_inv_map: "poller_inv l p cs \<Longrightarrow> channels_map p fd = Some c \<longleftrightarrow> registered l cs fd c"
  and poller_inv_interest:
    "poller_inv l p cs \<Longrightarrow> interest (kernel p) fd = Some (ev, c) \<longleftrightarrow> armed l cs fd ev c"
  and poller_inv_index: "poller_inv l p cs \<Longrightarrow> cs c = Some ch \<Longrightarrow> ch_loop ch = l \<Longrightarrow> index_ok ch"
  and poller_inv_refuse: "poller_inv l p cs \<Longrightarrow> refuse (kernel p) opn fd = False"
  by (simp_all add: poller_inv_def)

lemma poller_inv_fields:
  "poller_inv l p cs \<Longrightarrow> kernel p' = kernel p \<Longrightarrow> channels_map p' = channels_map p \<Longrightarrow>
   poller_inv l p' cs"
  unfolding poller_inv_def by metis

lemma armed_registered: "armed l cs fd ev c \<Longrightarrow> registered l cs fd c"
  by (auto simp: armed_def registered_def)

lemma poller_inv_armed:
  assumes "poller_inv l p cs" "cs c = Some ch" "ch_loop ch = l" "ch_index ch = KAdded"
  shows "interest (kernel p) (ch_fd ch) = Some (ch_events ch, c)"
  using assms by (simp add: poller_inv_interest armed_def)

lemma poller_inv_unarmed:
  assumes inv: "poller_inv l p cs" and ch: "cs c = Some ch" "ch_loop ch = l"
    and idx: "ch_index ch \<noteq> KAdded" and add: "may_add p ch"
  shows "interest (kernel p) (ch_fd ch) = None"
proof (rule ccontr)
  assume "interest (kernel p) (ch_fd ch) \<noteq> None"
  then obtain ev d where a: "armed l cs (ch_fd ch) ev d"
    using poller_inv_interest [OF inv] by (metis not_Some_eq surj_pair)
  then have "registered l cs (ch_fd ch) d" by (rule armed_registered)
  then have d: "channels_map p (ch_fd ch) = Some d" by (simp add: poller_inv_map [OF inv])
  with add have "ch_index ch \<noteq> KNew" by (auto simp: may_add_def)
  with ch have "registered l cs (ch_fd ch) c" by (simp add: registered_def)
  then have "d = c" using d by (simp flip: poller_inv_map [OF inv])
  with a ch idx show False by (simp add: armed_def)
qed

text \<open>
  The effect of a change of one channel: the map and the list at its descriptor are set to what
  its new index and mask say, and nothing else moves.
\<close>

definition sync_kernel :: "nat \<Rightarrow> channel \<Rightarrow> epoll \<Rightarrow> epoll" where
  "sync_kernel c ch k = k\<lparr>interest := (interest k)
     (ch_fd ch := if ch_index ch = KAdded then Some (ch_events ch, c) else None)\<rparr>"

definition sync :: "nat \<Rightarrow> channel \<Rightarrow> poller \<Rightarrow> poller" where
  "sync c ch p = p\<lparr>channels_map := (channels_map p)
       (ch_fd ch := if ch_index ch = KNew then None else Some c),
     kernel := sync_kernel c ch (kernel p)\<rparr>"

lemma registered_at:
  assumes "poller_inv l p cs" "cs c = Some ch" "ch_loop ch = l" "may_add p ch"
  shows "registered l cs (ch_fd ch) d \<Longrightarrow> d = c"
proof -
  assume r: "registered l cs (ch_fd ch) d"
  then have d: "channels_map p (ch_fd ch) = Some d" by (simp add: poller_inv_map [OF assms(1)])
  with assms have "registered l cs (ch_fd ch) c" by (auto simp: registered_def may_add_def)
  with d show "d = c" by (simp flip: poller_inv_map [OF assms(1)])
qed

lemma poller_inv_sync:
  assumes inv: "poller_inv l p cs" and ch: "cs c = Some ch" "ch_loop ch = l" "may_add p ch"
    and ch': "ch_loop ch' = l" "ch_fd ch' = ch_fd ch" "index_ok ch'"
  shows "poller_inv l (sync c ch' p) (cs(c \<mapsto> ch'))"
proof -
  let ?cs = "cs(c \<mapsto> ch')"
  have reg: "registered l ?cs fd d \<longleftrightarrow>
      (if fd = ch_fd ch then d = c \<and> ch_index ch' \<noteq> KNew else registered l cs fd d)" for fd d
    using registered_at [OF inv ch] ch ch' by (auto simp: registered_def)
  have arm: "armed l ?cs fd ev d \<longleftrightarrow>
      (if fd = ch_fd ch then d = c \<and> ch_index ch' = KAdded \<and> ch_events ch' = ev
       else armed l cs fd ev d)" for fd ev d
    using registered_at [OF inv ch] armed_registered [of l cs fd ev d] ch ch'
    by (auto simp: armed_def)
  show ?thesis using inv ch'
    unfolding poller_inv_def [of l "sync c ch' p"] reg arm
    by (auto simp: sync_def sync_kernel_def poller_inv_map poller_inv_interest poller_inv_refuse
        dest: poller_inv_index)
qed

definition next_index :: "channel \<Rightarrow> int" where
  "next_index ch = (if ch_index ch = KAdded \<and> isNoneEvent ch then KDelete else KAdded)"

lemma updateChannel_sync:
  assumes inv: "poller_inv l p cs" and ch: "cs c = Some ch" "ch_loop ch = l" "may_add p ch"
    and ch': "ch' = ch\<lparr>ch_events := ev, ch_index := next_index (ch\<lparr>ch_events := ev\<rparr>)\<rparr>"
  shows "updateChannel c (ch\<lparr>ch_events := ev\<rparr>) p = Inr (ch', sync c ch' p)"
proof -
  have idx: "ch_index ch \<in> {KNew, KAdded, KDelete}"
    using poller_inv_index [OF inv ch(1,2)] by (simp add: index_ok_def)
  have map: "channels_map p (ch_fd ch) = Some c" if "ch_index ch \<noteq> KNew"
    using that ch by (simp add: poller_inv_map [OF inv] registered_def)
  show ?thesis
  proof (cases "ch_index ch = KAdded")
    case True
    then show ?thesis
      using poller_inv_armed [OF inv ch(1,2) True] map
      by (auto simp: updateChannel_def ch' next_index_def poller_update_def epoll_ctl_def
          poller_inv_refuse [OF inv] Let_def sync_def sync_kernel_def fun_upd_idem isNoneEvent_def)
  next
    case False
    then show ?thesis
      using poller_inv_unarmed [OF inv ch(1,2) False ch(3)] map idx
      by (auto simp: updateChannel_def ch' next_index_def poller_update_def epoll_ctl_def
          poller_inv_refuse [OF inv] Let_def sync_def sync_kernel_def fun_upd_idem)
  qed
qed

lemma removeChannel_sync:
  assumes inv: "poller_inv l p cs" and ch: "cs c = Some ch" "ch_loop ch = l" "may_add p ch"
    and ch': "ch' = ch\<lparr>ch_index := KNew\<rparr>"
  shows "removeChannel c ch p = Inr (ch', sync c ch' p)"
  using poller_inv_armed [OF inv ch(1,2)] poller_inv_unarmed [OF inv ch(1,2) _ ch(3)]
  by (auto simp: removeChannel_def ch' poller_update_def epoll_ctl_def
      poller_inv_refuse [OF inv] Let_def sync_def sync_kernel_def fun_upd_idem)

lemma next_index_ok: "index_ok (ch\<lparr>ch_index := next_index ch\<rparr>)"
  by (simp add: index_ok_def next_index_def isNoneEvent_def)

lemma watched_sync:
  "watched (sync c ch p) c ch = (if ch_index ch = KAdded then ch_events ch else 0)"
  by (simp add: watched_def sync_def sync_kernel_def)

lemma may_add_sync [simp]: "ch_fd ch' = ch_fd ch \<Longrightarrow> ch_index ch' = ch_index ch \<Longrightarrow> may_add (sync c ch p) ch'"
  by (simp add: may_add_def sync_def)

lemma updateChannel_ok:
  assumes "poller_inv l p cs" "cs c = Some ch" "ch_loop ch = l" "may_add p ch"
  shows "returns (updateChannel c (ch\<lparr>ch_events := ev\<rparr>) p) (\<lambda>(ch', p').
      poller_inv l p' (cs(c \<mapsto> ch')) \<and> ch_loop ch' = l
      \<and> ch_events ch' = ev \<and> watched p' c ch' = ev \<and> may_add p' ch')"
proof -
  let ?ch = "ch\<lparr>ch_events := ev, ch_index := next_index (ch\<lparr>ch_events := ev\<rparr>)\<rparr>"
  have "index_ok ?ch" using next_index_ok [of "ch\<lparr>ch_events := ev\<rparr>"] by simp
  then have "poller_inv l (sync c ?ch p) (cs(c \<mapsto> ?ch))"
    using assms by (intro poller_inv_sync) simp_all
  moreover have "ev = 0" if "next_index (ch\<lparr>ch_events := ev\<rparr>) \<noteq> KAdded"
    using that by (simp add: next_index_def isNoneEvent_def kNoneEvent_def split: if_splits)
  ultimately show ?thesis
    using assms by (simp add: updateChannel_sync [OF assms] watched_sync)
qed

lemma removeChannel_ok:
  assumes "poller_inv l p cs" "cs c = Some ch" "ch_loop ch = l" "may_add p ch"
  shows "returns (removeChannel c ch p) (\<lambda>(ch', p').
      poller_inv l p' (cs(c \<mapsto> ch')) \<and> ch_loop ch' = l \<and> watched p' c ch' = 0 \<and> may_add p' ch')"
proof -
  let ?ch = "ch\<lparr>ch_index := KNew\<rparr>"
  have "poller_inv l (sync c ?ch p) (cs(c \<mapsto> ?ch))"
    using assms by (intro poller_inv_sync) (simp_all add: index_ok_def)
  then show ?thesis using assms by (simp add: removeChannel_sync [OF assms] watched_sync)
qed

interpretation epoller: demultiplexer "poller_inv l" "\<lambda>ch. ch_loop ch = l" may_add watched
    updateChannel removeChannel for l
proof unfold_locales
  show "returns (updateChannel c (ch\<lparr>ch_events := ev\<rparr>) p) (\<lambda>(ch', p').
      poller_inv l p' (cs(c \<mapsto> ch')) \<and> ch_loop ch' = l
      \<and> ch_events ch' = ev \<and> watched p' c ch' = ev \<and> may_add p' ch')"
    if "poller_inv l p cs" "cs c = Some ch" "ch_loop ch = l" "may_add p ch" for p cs c ch ev
    using that by (rule updateChannel_ok)
  show "returns (removeChannel c ch p) (\<lambda>(ch', p').
      poller_inv l p' (cs(c \<mapsto> ch')) \<and> ch_loop ch' = l \<and> watched p' c ch' = 0 \<and> may_add p' ch')"
    if "poller_inv l p cs" "cs c = Some ch" "ch_loop ch = l" "may_add p ch" for p cs c ch
    using that by (rule removeChannel_ok)
qed

section \<open>What the invariant reads of a channel\<close>

definition pview :: "nat \<Rightarrow> channel option \<Rightarrow> (int \<times> mask \<times> int) option" where
  "pview l co = (case co of None \<Rightarrow> None | Some ch \<Rightarrow>
     if ch_loop ch = l \<and> ch_index ch \<noteq> KNew then Some (ch_fd ch, ch_events ch, ch_index ch)
     else None)"

lemma registered_pview:
  "registered l cs fd c \<longleftrightarrow> (\<exists>ev i. pview l (cs c) = Some (fd, ev, i))"
  by (auto simp: registered_def pview_def split: option.splits if_splits)

lemma armed_pview: "armed l cs fd ev c \<longleftrightarrow> pview l (cs c) = Some (fd, ev, KAdded)"
  by (auto simp: armed_def pview_def split: option.splits if_splits)

lemma index_ok_pview:
  "(\<forall>ch. cs c = Some ch \<and> ch_loop ch = l \<longrightarrow> index_ok ch) \<longleftrightarrow>
   (\<forall>fd ev i. pview l (cs c) = Some (fd, ev, i) \<longrightarrow>
      i \<in> {KAdded, KDelete} \<and> (i = KDelete \<longrightarrow> ev = kNoneEvent))"
  by (auto simp: pview_def index_ok_def isNoneEvent_def split: option.splits if_splits)

lemma poller_inv_pview:
  "poller_inv l p cs \<longleftrightarrow>
     (\<forall>fd c. channels_map p fd = Some c \<longleftrightarrow> (\<exists>ev i. pview l (cs c) = Some (fd, ev, i)))
     \<and> (\<forall>fd ev c. interest (kernel p) fd = Some (ev, c) \<longleftrightarrow> pview l (cs c) = Some (fd, ev, KAdded))
     \<and> (\<forall>c fd ev i. pview l (cs c) = Some (fd, ev, i) \<longrightarrow>
          i \<in> {KAdded, KDelete} \<and> (i = KDelete \<longrightarrow> ev = kNoneEvent))
     \<and> (\<forall>opn fd. \<not> refuse (kernel p) opn fd)"
proof -
  have "(\<forall>c ch. cs c = Some ch \<and> ch_loop ch = l \<longrightarrow> index_ok ch) \<longleftrightarrow>
    (\<forall>c fd ev i. pview l (cs c) = Some (fd, ev, i) \<longrightarrow>
          i \<in> {KAdded, KDelete} \<and> (i = KDelete \<longrightarrow> ev = kNoneEvent))"
    by (intro iff_allI index_ok_pview)
  then show ?thesis unfolding poller_inv_def registered_pview armed_pview by simp
qed

lemma poller_inv_cong:
  "poller_inv l p cs \<Longrightarrow> (\<And>c. pview l (cs' c) = pview l (cs c)) \<Longrightarrow> poller_inv l p cs'"
  unfolding poller_inv_pview by simp

lemma pview_simps [simp]:
  "pview l (Some (ch\<lparr>ch_revents := r\<rparr>)) = pview l (Some ch)"
  "pview l (Some (set_revents r ch)) = pview l (Some ch)"
  "pview l (Some (tie_channel n ch)) = pview l (Some ch)"
  "pview l None = None"
  "ch_loop ch \<noteq> l \<Longrightarrow> pview l (Some ch) = None"
  "ch_index ch = KNew \<Longrightarrow> pview l (Some ch) = None"
  by (simp_all add: pview_def set_revents_def tie_channel_def)

section \<open>Reports\<close>

text \<open>A report holds requested events, EPOLLERR (bit 3) and EPOLLHUP (bit 4) only.\<close>

definition wanted :: "mask \<Rightarrow> mask \<Rightarrow> bool" where
  "wanted ev r \<longleftrightarrow> (\<forall>n. bit r n \<longrightarrow> bit ev n \<or> n = 3 \<or> n = 4)"

lemma report_armed:
  assumes "poller_inv l p cs" "report (kernel p) s = Some (r, c)"
  shows "\<exists>ch. cs c = Some ch \<and> ch_loop ch = l \<and> ch_index ch = KAdded \<and> r \<noteq> 0
     \<and> wanted (ch_events ch) r"
proof -
  obtain fd m where s: "s = (fd, m)" by force
  with assms(2) obtain ev where k: "interest (kernel p) fd = Some (ev, c)"
    and r: "r = m AND (ev OR EPOLLERR OR EPOLLHUP)" "r \<noteq> 0"
    by (auto simp: report_def Let_def split: option.splits if_splits)
  from k have "armed l cs fd ev c" by (simp add: poller_inv_interest [OF assms(1)])
  then obtain ch where "cs c = Some ch" "ch_loop ch = l" "ch_index ch = KAdded" "ch_events ch = ev"
    by (auto simp: armed_def)
  with r show ?thesis
    by (auto simp: wanted_def bit_simps)
qed

lemma set_epoll_wait:
  "x \<in> set (epoll_wait n states k) \<Longrightarrow> \<exists>s. s \<in> set states \<and> report k s = Some x"
  unfolding epoll_wait_def
  by (drule in_set_takeD) (force simp: List.map_filter_def)

text \<open>Every pointer reported is a live channel, so filling in the reports succeeds.\<close>

definition revents_only :: "(nat \<Rightarrow> channel option) \<Rightarrow> (nat \<Rightarrow> channel option) \<Rightarrow> bool" where
  "revents_only cs cs' \<longleftrightarrow> (\<forall>c. case cs c of None \<Rightarrow> cs' c = None
     | Some ch \<Rightarrow> \<exists>r. cs' c = Some (ch\<lparr>ch_revents := r\<rparr>))"

lemma revents_onlyE:
  assumes "revents_only cs cs'" "cs c = Some ch"
  obtains r where "cs' c = Some (ch\<lparr>ch_revents := r\<rparr>)"
  using assms by (force simp: revents_only_def split: option.splits)

lemma revents_only_refl [simp]: "revents_only cs cs"
  unfolding revents_only_def
proof
  fix c
  show "case cs c of None \<Rightarrow> cs c = None | Some ch \<Rightarrow> \<exists>r. cs c = Some (ch\<lparr>ch_revents := r\<rparr>)"
    by (cases "cs c") (auto intro: exI [of _ "ch_revents (the (cs c))"])
qed

lemma revents_only_upd:
  assumes "cs c = Some ch" "revents_only (cs(c \<mapsto> set_revents r ch)) cs'"
  shows "revents_only cs cs'"
  unfolding revents_only_def
proof
  fix d
  show "case cs d of None \<Rightarrow> cs' d = None | Some ch \<Rightarrow> \<exists>r. cs' d = Some (ch\<lparr>ch_revents := r\<rparr>)"
    using assms by (cases "d = c") (auto simp: revents_only_def set_revents_def
        split: option.splits elim!: allE [of _ d])
qed

lemma pview_revents_only: "revents_only cs cs' \<Longrightarrow> pview l (cs' c) = pview l (cs c)"
  by (cases "cs c") (auto simp: revents_only_def elim!: allE [of _ c])

lemma fillActiveChannels_ok:
  assumes "\<And>r c. (r, c) \<in> set es \<Longrightarrow> cs c \<noteq> None"
  shows "returns (fillActiveChannels es (cs, active)) (\<lambda>(cs', active').
      revents_only cs cs' \<and> active' = active @ map snd es
      \<and> (\<forall>c \<in> snd ` set es. \<exists>r ch. (r, c) \<in> set es \<and> cs' c = Some ch \<and> ch_revents ch = r)
      \<and> (\<forall>c. c \<notin> snd ` set es \<longrightarrow> cs' c = cs c))"
  using assms
proof (induction es arbitrary: cs active)
  case Nil
  then show ?case by simp
next
  case (Cons e es)
  obtain r c where e: "e = (r, c)" by force
  with Cons.prems obtain ch where ch: "cs c = Some ch" by fastforce
  let ?cs = "cs(c \<mapsto> set_revents r ch)"
  have "returns (fillActiveChannels es (?cs, active @ [c])) (\<lambda>(cs', active').
      revents_only ?cs cs' \<and> active' = (active @ [c]) @ map snd es
      \<and> (\<forall>c \<in> snd ` set es. \<exists>r ch. (r, c) \<in> set es \<and> cs' c = Some ch \<and> ch_revents ch = r)
      \<and> (\<forall>c. c \<notin> snd ` set es \<longrightarrow> cs' c = ?cs c))"
    using Cons.prems e by (intro Cons.IH) (auto split: if_splits)
  then obtain cs' where cs': "fillActiveChannels es (?cs, active @ [c]) = Inr (cs', (active @ [c]) @ map snd es)"
    "revents_only ?cs cs'"
    "\<forall>c \<in> snd ` set es. \<exists>r ch. (r, c) \<in> set es \<and> cs' c = Some ch \<and> ch_revents ch = r"
    "\<forall>c. c \<notin> snd ` set es \<longrightarrow> cs' c = ?cs c"
    by (auto simp: returns_iff)
  have "\<exists>r' ch. (r', c) \<in> set (e # es) \<and> cs' c = Some ch \<and> ch_revents ch = r'"
  proof (cases "c \<in> snd ` set es")
    case True
    with cs'(3) show ?thesis by fastforce
  next
    case False
    with cs'(4) e show ?thesis by (auto simp: set_revents_def)
  qed
  then show ?case using cs' e ch revents_only_upd [OF ch cs'(2)] by fastforce
qed

lemma poll_ok:
  assumes inv: "poller_inv l p cs"
  shows "returns (poll env p cs) (\<lambda>(p', cs', active). poller_inv l p' cs' \<and> revents_only cs cs'
      \<and> kernel p' = kernel p \<and> channels_map p' = channels_map p \<and> length active \<le> events_size p
      \<and> events_size p' = (if length active = events_size p \<and> active \<noteq> [] then 2 * events_size p
                         else events_size p)
      \<and> (\<forall>c \<in> set active. \<exists>ch. cs' c = Some ch \<and> ch_loop ch = l \<and> ch_index ch = KAdded
           \<and> ch_revents ch \<noteq> 0
           \<and> wanted (ch_events ch) (ch_revents ch)))"
proof (cases env)
  case (PollErr e)
  then show ?thesis using inv by (simp add: poll_def)
next
  case (Ready states)
  let ?es = "epoll_wait (events_size p) states (kernel p)"
  have rep: "\<exists>ch. cs c = Some ch \<and> ch_loop ch = l \<and> ch_index ch = KAdded \<and> r \<noteq> 0
     \<and> wanted (ch_events ch) r" if "(r, c) \<in> set ?es" for r c
    using report_armed [OF inv] set_epoll_wait [OF that] by blast
  have "returns (fillActiveChannels ?es (cs, [])) (\<lambda>(cs', active').
      revents_only cs cs' \<and> active' = [] @ map snd ?es
      \<and> (\<forall>c \<in> snd ` set ?es. \<exists>r ch. (r, c) \<in> set ?es \<and> cs' c = Some ch \<and> ch_revents ch = r)
      \<and> (\<forall>c. c \<notin> snd ` set ?es \<longrightarrow> cs' c = cs c))"
    by (rule fillActiveChannels_ok) (use rep in blast)
  then obtain cs' where cs': "fillActiveChannels ?es (cs, []) = Inr (cs', map snd ?es)"
    "revents_only cs cs'"
    "\<forall>c \<in> snd ` set ?es. \<exists>r ch. (r, c) \<in> set ?es \<and> cs' c = Some ch \<and> ch_revents ch = r"
    by (auto simp: returns_iff)
  have inv': "poller_inv l p cs'"
    using inv by (rule poller_inv_cong) (rule pview_revents_only [OF cs'(2)])
  have act: "\<exists>ch. cs' c = Some ch \<and> ch_loop ch = l \<and> ch_index ch = KAdded \<and> ch_revents ch \<noteq> 0
      \<and> wanted (ch_events ch) (ch_revents ch)"
    if c: "c \<in> snd ` set ?es" for c
  proof -
    obtain r ch where r: "(r, c) \<in> set ?es" "cs' c = Some ch" "ch_revents ch = r"
      using bspec [OF cs'(3) c] by blast
    obtain ch0 where "cs c = Some ch0" "ch_loop ch0 = l" "ch_index ch0 = KAdded" "r \<noteq> 0"
      "wanted (ch_events ch0) r" using rep [OF r(1)] by blast
    moreover obtain r' where "cs' c = Some (ch0\<lparr>ch_revents := r'\<rparr>)"
      using revents_onlyE [OF cs'(2) \<open>cs c = Some ch0\<close>] .
    ultimately show ?thesis using r by auto
  qed
  have "poller_inv l (p\<lparr>events_size := n\<rparr>) cs'" for n
    using inv' by (rule poller_inv_fields) simp_all
  moreover have "length ?es \<le> events_size p" by (simp add: epoll_wait_def)
  ultimately show ?thesis using Ready inv inv' cs' act
    by (auto simp: poll_def Let_def)
qed

section \<open>Properties\<close>

text \<open>
  C11. A channel's owner may enable and disable reading and writing in any order, also after
  everything was disabled and the kernel entry deleted: no \<open>epoll_ctl\<close> fails, poller, kernel and
  channels stay in agreement, and in the end the kernel watches for the channel exactly the mask
  that the changes compute.
\<close>

theorem kernel_watches_the_mask:
  assumes "poller_inv l p cs" and "cs c = Some ch" and "ch_loop ch = l" and "may_add p ch"
    and "ms \<noteq> []"
  shows "returns (change_all updateChannel c ms (ch, p)) (\<lambda>(ch', p').
      poller_inv l p' (cs(c \<mapsto> ch')) \<and> ch_events ch' = fold change_events ms (ch_events ch)
      \<and> watched p' c ch' = fold change_events ms (ch_events ch))"
  using epoller.change_all_ok [OF assms] by (rule returns_mono) auto

definition sample_channels :: "nat \<Rightarrow> channel option" where
  "sample_channels = [5 \<mapsto> mk_channel 1 7]"

lemma poller_inv_mk_poller:
  assumes "\<And>c ch. cs c = Some ch \<Longrightarrow> ch_loop ch = l \<Longrightarrow> ch_index ch = KNew"
  shows "poller_inv l (mk_poller (\<lambda>_ _. False)) cs"
  unfolding poller_inv_def using assms
  by (fastforce simp: mk_poller_def registered_def armed_def index_ok_def)

lemma sample_channels_inv: "poller_inv 1 (mk_poller (\<lambda>_ _. False)) sample_channels"
  by (rule poller_inv_mk_poller)
    (auto simp: sample_channels_def mk_channel_def KNew_def split: if_splits)

lemma sample_channel:
  "sample_channels 5 = Some (mk_channel 1 7)" "ch_loop (mk_channel 1 7) = 1"
  "may_add (mk_poller (\<lambda>_ _. False)) (mk_channel 1 7)"
  by (simp_all add: sample_channels_def mk_channel_def may_add_def mk_poller_def)

theorem kernel_watches_the_mask_witness:
  "returns (change_all updateChannel 5 [EnableReading, EnableWriting, DisableAll, EnableWriting]
       (mk_channel 1 7, mk_poller (\<lambda>_ _. False)))
     (\<lambda>(ch', p'). watched p' 5 ch' = kWriteEvent)"
proof -
  have "fold change_events [EnableReading, EnableWriting, DisableAll, EnableWriting] 0 = kWriteEvent"
    by (simp add: change_events.simps event_defs)
  then show ?thesis
    using kernel_watches_the_mask [OF sample_channels_inv sample_channel,
        of "[EnableReading, EnableWriting, DisableAll, EnableWriting]"]
    by (auto simp: returns_iff mk_channel_def)
qed

text \<open>
  C14. Polling is safe and exact: whatever the kernel answers, every pointer it reports is a live
  channel of this loop that is registered with the kernel, the events put into it are among
  those it asked for or an error or hang-up, no other field of any channel changes, and the
  event array doubles exactly when it was filled.
\<close>

theorem poll_reports_live_channels:
  assumes "poller_inv l p cs"
  shows "returns (poll env p cs) (\<lambda>(p', cs', active). poller_inv l p' cs' \<and> revents_only cs cs'
      \<and> length active \<le> events_size p
      \<and> events_size p' = (if length active = events_size p \<and> active \<noteq> [] then 2 * events_size p
                         else events_size p)
      \<and> (\<forall>c \<in> set active. \<exists>ch. cs' c = Some ch \<and> ch_loop ch = l \<and> hasChannel c ch p
           \<and> ch_revents ch \<noteq> 0 \<and> wanted (ch_events ch) (ch_revents ch)))"
proof -
  have has: "hasChannel c ch p"
    if "poller_inv l p' cs'" "channels_map p' = channels_map p" "cs' c = Some ch" "ch_loop ch = l"
      "ch_index ch = KAdded" for p' cs' c ch
  proof -
    have "registered l cs' (ch_fd ch) c" using that by (simp add: registered_def)
    then show ?thesis by (simp add: hasChannel_def poller_inv_map [OF that(1)] flip: that(2))
  qed
  show ?thesis
    using poll_ok [OF assms, of env]
    by (rule returns_mono) (clarsimp simp del: not_None_eq, metis has)
qed

definition sample_watched :: channel where
  "sample_watched = (mk_channel 1 7)\<lparr>ch_events := kReadEvent, ch_index := KAdded\<rparr>"

definition sample_poller :: poller where
  "sample_poller = sync 5 sample_watched (mk_poller (\<lambda>_ _. False))"

lemma sample_poller_inv: "poller_inv 1 sample_poller [5 \<mapsto> sample_watched]"
proof -
  have "poller_inv 1 sample_poller (sample_channels(5 \<mapsto> sample_watched))"
    unfolding sample_poller_def
    by (rule poller_inv_sync [OF sample_channels_inv sample_channel])
      (simp_all add: sample_watched_def mk_channel_def index_ok_def)
  then show ?thesis by (simp add: sample_channels_def)
qed

theorem poll_reports_live_channels_witness:
  "returns (poll (Ready [(7, EPOLLIN OR EPOLLOUT), (9, EPOLLIN)]) sample_poller [5 \<mapsto> sample_watched])
     (\<lambda>(p', cs', active). active = [5]
       \<and> (\<exists>ch. cs' 5 = Some ch \<and> ch_revents ch = EPOLLIN \<and> wanted (ch_events ch) (ch_revents ch)))"
proof -
  have "poll (Ready [(7, EPOLLIN OR EPOLLOUT), (9, EPOLLIN)]) sample_poller [5 \<mapsto> sample_watched] =
    Inr (sample_poller, [5 \<mapsto> set_revents EPOLLIN sample_watched], [5])"
    by (simp add: poll_def epoll_wait_def report_def List.map_filter_def sample_poller_def sync_def
        sync_kernel_def sample_watched_def mk_channel_def mk_poller_def event_defs Let_def
        kInitEventListSize_def)
  then show ?thesis
    using poll_reports_live_channels [OF sample_poller_inv, of "Ready [(7, EPOLLIN OR EPOLLOUT), (9, EPOLLIN)]"]
    by (auto simp: set_revents_def)
qed

text \<open>
  Removing a channel is final: it succeeds from every state of the channel (never added,
  added, or with its kernel entry deleted), the poller forgets the descriptor, and no later poll
  reports the channel, whatever the kernel answers.
\<close>

lemma removed_channel_is_silent:
  assumes "poller_inv l p cs" and "cs c = Some ch" and "ch_loop ch = l" and "may_add p ch"
  shows "returns (removeChannel c ch p) (\<lambda>(ch', p').
      poller_inv l p' (cs(c \<mapsto> ch')) \<and> channels_map p' (ch_fd ch) = None
      \<and> returns (poll env p' (cs(c \<mapsto> ch'))) (\<lambda>(p'', cs'', active). c \<notin> set active))"
proof -
  let ?ch = "ch\<lparr>ch_index := KNew\<rparr>"
  have inv: "poller_inv l (sync c ?ch p) (cs(c \<mapsto> ?ch))"
    using assms by (intro poller_inv_sync) (simp_all add: index_ok_def)
  have "returns (poll env (sync c ?ch p) (cs(c \<mapsto> ?ch))) (\<lambda>(p'', cs'', active). c \<notin> set active)"
    using poll_ok [OF inv, of env]
  proof (rule returns_mono, clarsimp)
    fix cs' active
    assume ro: "revents_only (cs(c \<mapsto> ?ch)) cs'" and c: "c \<in> set active"
      and act: "\<forall>c \<in> set active. \<exists>ch. cs' c = Some ch \<and> ch_loop ch = l \<and> ch_index ch = KAdded
        \<and> ch_revents ch \<noteq> 0 \<and> wanted (ch_events ch) (ch_revents ch)"
    have "(cs(c \<mapsto> ?ch)) c = Some ?ch" by simp
    from revents_onlyE [OF ro this] obtain r where "cs' c = Some (?ch\<lparr>ch_revents := r\<rparr>)" .
    with bspec [OF act c] show False by auto
  qed
  with inv show ?thesis by (simp add: removeChannel_sync [OF assms refl] sync_def)
qed

end
