(* ===== verification/Timestamp.thy ===== *)
theory Timestamp
  imports Complex_Main Muduo_Prelude
begin

text \<open>
  Timestamp.h and Timestamp.cc. The count is an \<open>int64_t\<close>, written as an unbounded integer:
  the code's additions stay far inside its range for real dates. A \<open>double\<close> number of seconds
  is a rational; the values the library itself passes (0.5, 1, 2, ..., 30, 0.0) are exact.
\<close>

datatype timestamp = Timestamp (microSecondsSinceEpoch: int)

text \<open>\<open>operator<\<close>, and the order it makes.\<close>

definition timestamp_lt :: "timestamp \<Rightarrow> timestamp \<Rightarrow> bool" where
  "timestamp_lt lhs rhs \<longleftrightarrow> microSecondsSinceEpoch lhs < microSecondsSinceEpoch rhs"

instantiation timestamp :: linorder
begin

definition less_timestamp :: "timestamp \<Rightarrow> timestamp \<Rightarrow> bool" where
  "less_timestamp = timestamp_lt"

definition less_eq_timestamp :: "timestamp \<Rightarrow> timestamp \<Rightarrow> bool" where
  "less_eq_timestamp lhs rhs \<longleftrightarrow> microSecondsSinceEpoch lhs \<le> microSecondsSinceEpoch rhs"

instance
  by standard (auto simp: less_timestamp_def timestamp_lt_def less_eq_timestamp_def timestamp.expand)

end

lemma timestamp_less [simp]: "Timestamp a < Timestamp b \<longleftrightarrow> a < b"
  by (simp add: less_timestamp_def timestamp_lt_def)

lemma timestamp_less_eq [simp]: "Timestamp a \<le> Timestamp b \<longleftrightarrow> a \<le> b"
  by (simp add: less_eq_timestamp_def)

definition kMicroSecondsPerSecond :: int where
  "kMicroSecondsPerSecond = 1000 * 1000"

text \<open>\<open>Timestamp::now()\<close> when \<open>time(NULL)\<close> returns \<open>t\<close>: the seconds become the count as they are.\<close>

definition now_timestamp :: "int \<Rightarrow> timestamp" where
  "now_timestamp t = Timestamp t"

definition invalid :: timestamp where
  "invalid = Timestamp 0"

definition valid :: "timestamp \<Rightarrow> bool" where
  "valid t \<longleftrightarrow> microSecondsSinceEpoch t > 0"

text \<open>\<open>static_cast<int64_t>\<close> of a \<open>double\<close> rounds towards zero.\<close>

definition trunc_rat :: "rat \<Rightarrow> int" where
  "trunc_rat r = (if r < 0 then \<lceil>r\<rceil> else \<lfloor>r\<rfloor>)"

definition addTime :: "timestamp \<Rightarrow> rat \<Rightarrow> timestamp" where
  "addTime timestamp seconds =
     (let delta = trunc_rat (seconds * of_int kMicroSecondsPerSecond)
      in Timestamp (microSecondsSinceEpoch timestamp + delta))"

lemma addTime_nonneg: "0 \<le> s \<Longrightarrow> t \<le> addTime t s"
  by (simp add: addTime_def trunc_rat_def kMicroSecondsPerSecond_def less_eq_timestamp_def)

lemma trunc_rat_of_int [simp]: "trunc_rat (of_int n) = n"
  by (simp add: trunc_rat_def)

lemma addTime_of_int:
  "addTime t (of_int n) = Timestamp (microSecondsSinceEpoch t + n * kMicroSecondsPerSecond)"
  by (simp add: addTime_def flip: of_int_mult)

end
