(* ===== verification/TimerQueue.thy ===== *)
theory TimerQueue
  imports Timestamp Callbacks "HOL-Library.Product_Lexorder"
begin

text \<open>
  Timer.h, Timer.cc, TimerId.h, TimerQueue.h and TimerQueue.cc. A \<open>std::set\<close> is the strictly
  sorted list of its elements; the pairs in it are ordered lexicographically, as
  \<open>std::pair\<close> orders them. Timer objects live in the heap \<open>tq_heap\<close> of their queue, their
  addresses are numbers below \<open>uintptr_max\<close>. The queue's in-loop operations are here; the two
  that enter the loop (\<open>addTimer\<close>, \<open>cancel\<close>) are in the theory Reactor.
\<close>

section \<open>Ordered sets\<close>

fun set_insert :: "'a::linorder \<Rightarrow> 'a list \<Rightarrow> 'a list" where
  "set_insert x [] = [x]"
| "set_insert x (y # ys) =
     (if x < y then x # y # ys else if x = y then y # ys else y # set_insert x ys)"

definition set_erase :: "'a::linorder \<Rightarrow> 'a list \<Rightarrow> 'a list" where
  "set_erase x xs = filter (\<lambda>y. y \<noteq> x) xs"

text \<open>The elements before \<open>lower_bound(x)\<close>, and the ones from it on.\<close>

definition before_bound :: "'a::linorder \<Rightarrow> 'a list \<Rightarrow> 'a list" where
  "before_bound x xs = takeWhile (\<lambda>y. y < x) xs"

definition from_bound :: "'a::linorder \<Rightarrow> 'a list \<Rightarrow> 'a list" where
  "from_bound x xs = dropWhile (\<lambda>y. y < x) xs"

abbreviation oset :: "'a::linorder list \<Rightarrow> bool" where
  "oset xs \<equiv> sorted_wrt (<) xs"

lemma set_set_insert [simp]: "set (set_insert x xs) = insert x (set xs)"
  by (induction xs) auto

lemma oset_insert: "oset xs \<Longrightarrow> oset (set_insert x xs)"
  by (induction xs) auto

lemma set_set_erase [simp]: "set (set_erase x xs) = set xs - {x}"
  by (auto simp: set_erase_def)

lemma oset_erase: "oset xs \<Longrightarrow> oset (set_erase x xs)"
  by (simp add: set_erase_def sorted_wrt_filter)

lemma set_before_bound: "oset xs \<Longrightarrow> set (before_bound x xs) = {y \<in> set xs. y < x}"
proof (induction xs)
  case Nil
  then show ?case by (simp add: before_bound_def)
next
  case (Cons a xs)
  have "\<not> y < x" if "\<not> a < x" "y \<in> set xs" for y
    using Cons.prems that by (meson less_trans sorted_wrt.simps(2))
  with Cons show ?case by (cases "a < x") (auto simp: before_bound_def)
qed

lemma set_from_bound: "oset xs \<Longrightarrow> set (from_bound x xs) = {y \<in> set xs. \<not> y < x}"
proof (induction xs)
  case Nil
  then show ?case by (simp add: from_bound_def)
next
  case (Cons a xs)
  have "\<not> y < x" if "\<not> a < x" "y \<in> set xs" for y
    using Cons.prems that by (meson less_trans sorted_wrt.simps(2))
  with Cons show ?case by (cases "a < x") (auto simp: from_bound_def)
qed

lemma oset_before_bound: "oset xs \<Longrightarrow> oset (before_bound x xs)"
  by (metis append_take_drop_id before_bound_def sorted_wrt_append takeWhile_eq_take)

lemma oset_from_bound: "oset xs \<Longrightarrow> oset (from_bound x xs)"
  by (metis dropWhile_eq_drop from_bound_def sorted_wrt_drop)

lemma oset_hd_least: "oset xs \<Longrightarrow> y \<in> set xs \<Longrightarrow> hd xs \<le> y"
  by (cases xs) auto

section \<open>Timers\<close>

record timer =
  tm_callback :: Functor
  tm_expiration :: timestamp
  tm_interval :: rat
  tm_repeat :: bool
  tm_sequence :: int

text \<open>The constructor: \<open>seq\<close> is the value of \<open>++s_numCreated_\<close>.\<close>

definition mk_timer :: "Functor \<Rightarrow> timestamp \<Rightarrow> rat \<Rightarrow> int \<Rightarrow> timer" where
  "mk_timer cb when interval seq =
     \<lparr>tm_callback = cb, tm_expiration = when, tm_interval = interval,
      tm_repeat = (interval > 0), tm_sequence = seq\<rparr>"

definition restart_timer :: "timestamp \<Rightarrow> timer \<Rightarrow> timer" where
  "restart_timer now tm =
     (if tm_repeat tm then tm\<lparr>tm_expiration := addTime now (tm_interval tm)\<rparr>
      else tm\<lparr>tm_expiration := invalid\<rparr>)"

section \<open>The queue\<close>

definition uintptr_max :: nat where "uintptr_max = 2 ^ 64 - 1"

text \<open>
  \<open>tq_timerfd\<close> is the last relative time set on the timer descriptor (seconds, nanoseconds),
  \<open>tq_numCreated\<close> the static counter of the class Timer.
\<close>

record timer_queue =
  tq_timers :: "(timestamp \<times> nat) list"
  tq_active :: "(nat \<times> int) list"
  tq_calling :: bool
  tq_canceling :: "(nat \<times> int) list"
  tq_heap :: "nat \<Rightarrow> timer option"
  tq_timerfd :: "(int \<times> int) option"
  tq_numCreated :: int

definition mk_timer_queue :: "int \<Rightarrow> timer_queue" where
  "mk_timer_queue created =
     \<lparr>tq_timers = [], tq_active = [], tq_calling = False, tq_canceling = [],
      tq_heap = Map.empty, tq_timerfd = None, tq_numCreated = created\<rparr>"

text \<open>\<open>timerfd_create\<close> gives \<open>fd\<close>; a failure ends the process.\<close>

definition createTimerfd :: "int \<Rightarrow> 'a \<Rightarrow> 'a res" where
  "createTimerfd fd w = (if fd < 0 then Inl (LogFatal ''Failed in timerfd_create'') else Inr w)"

definition howMuchTimeFromNow :: "timestamp \<Rightarrow> timestamp \<Rightarrow> int \<times> int" where
  "howMuchTimeFromNow clock when =
     (let microseconds = microSecondsSinceEpoch when - microSecondsSinceEpoch clock;
          microseconds = (if microseconds < 100 then 100 else microseconds)
      in (microseconds div kMicroSecondsPerSecond,
          (microseconds mod kMicroSecondsPerSecond) * 1000))"

definition resetTimerfd :: "timestamp \<Rightarrow> timestamp \<Rightarrow> timer_queue \<Rightarrow> timer_queue" where
  "resetTimerfd clock expiration q =
     q\<lparr>tq_timerfd := Some (howMuchTimeFromNow clock expiration)\<rparr>"

definition get_timer :: "nat \<Rightarrow> timer_queue \<Rightarrow> timer res" where
  "get_timer p q = deref UseAfterFree (tq_heap q p)"

text \<open>\<open>insert\<close>: whether the new timer is the earliest, and the queue.\<close>

definition insert_timer :: "nat \<Rightarrow> timer_queue \<Rightarrow> (bool \<times> timer_queue) res" where
  "insert_timer p q =
     bind_res (get_timer p q) (\<lambda>tm.
       let when = tm_expiration tm;
           earliestChanged = (tq_timers q = [] \<or> when < fst (hd (tq_timers q)))
       in Inr (earliestChanged,
            q\<lparr>tq_timers := set_insert (when, p) (tq_timers q),
              tq_active := set_insert (p, tm_sequence tm) (tq_active q)\<rparr>))"

definition addTimerInLoop :: "timestamp \<Rightarrow> nat \<Rightarrow> timer_queue \<Rightarrow> timer_queue res" where
  "addTimerInLoop clock p q =
     bind_res (insert_timer p q) (\<lambda>(earliestChanged, q).
       if earliestChanged
       then bind_res (get_timer p q) (\<lambda>tm. Inr (resetTimerfd clock (tm_expiration tm) q))
       else Inr q)"

definition cancelInLoop :: "nat \<times> int \<Rightarrow> timer_queue \<Rightarrow> timer_queue res" where
  "cancelInLoop tid q =
     (if tid \<in> set (tq_active q)
      then bind_res (get_timer (fst tid) q) (\<lambda>tm.
        Inr (q\<lparr>tq_timers := set_erase (tm_expiration tm, fst tid) (tq_timers q),
               tq_heap := (tq_heap q)(fst tid := None),
               tq_active := set_erase tid (tq_active q)\<rparr>))
      else if tq_calling q
      then Inr (q\<lparr>tq_canceling := set_insert tid (tq_canceling q)\<rparr>)
      else Inr q)"

fun erase_active :: "(timestamp \<times> nat) list \<Rightarrow> timer_queue \<Rightarrow> timer_queue res" where
  "erase_active [] q = Inr q"
| "erase_active ((t, p) # es) q =
     bind_res (get_timer p q) (\<lambda>tm.
       erase_active es (q\<lparr>tq_active := set_erase (p, tm_sequence tm) (tq_active q)\<rparr>))"

definition getExpired :: "timestamp \<Rightarrow> timer_queue \<Rightarrow> ((timestamp \<times> nat) list \<times> timer_queue) res" where
  "getExpired now q =
     (let sentry = (now, uintptr_max);
          expired = before_bound sentry (tq_timers q);
          q = q\<lparr>tq_timers := from_bound sentry (tq_timers q)\<rparr>
      in bind_res (erase_active expired q) (\<lambda>q. Inr (expired, q)))"

fun rearm :: "timestamp \<Rightarrow> (timestamp \<times> nat) list \<Rightarrow> timer_queue \<Rightarrow> timer_queue res" where
  "rearm now [] q = Inr q"
| "rearm now ((t, p) # es) q =
     bind_res (get_timer p q) (\<lambda>tm.
       if tm_repeat tm \<and> (p, tm_sequence tm) \<notin> set (tq_canceling q)
       then bind_res (insert_timer p (q\<lparr>tq_heap := (tq_heap q)(p \<mapsto> restart_timer now tm)\<rparr>))
              (\<lambda>(_, q). rearm now es q)
       else rearm now es (q\<lparr>tq_heap := (tq_heap q)(p := None)\<rparr>))"

definition reset_queue :: "timestamp \<Rightarrow> timestamp \<Rightarrow> (timestamp \<times> nat) list \<Rightarrow> timer_queue \<Rightarrow>
    timer_queue res" where
  "reset_queue clock now expired q =
     bind_res (rearm now expired q) (\<lambda>q.
       bind_res (case tq_timers q of
                   [] \<Rightarrow> Inr invalid
                 | e # _ \<Rightarrow> bind_res (get_timer (snd e) q) (\<lambda>tm. Inr (tm_expiration tm)))
         (\<lambda>nextExpire. if valid nextExpire then Inr (resetTimerfd clock nextExpire q) else Inr q))"

text \<open>
  \<open>new Timer(cb, when, interval)\<close>: the address is the allocator's choice; one that is in use or
  out of the address space is no possible answer.
\<close>

definition new_timer :: "nat \<Rightarrow> Functor \<Rightarrow> timestamp \<Rightarrow> rat \<Rightarrow> timer_queue \<Rightarrow> timer_queue res" where
  "new_timer p cb when interval q =
     (if tq_heap q p = None \<and> p < uintptr_max
      then let seq = tq_numCreated q + 1 in
        Inr (q\<lparr>tq_numCreated := seq, tq_heap := (tq_heap q)(p \<mapsto> mk_timer cb when interval seq)\<rparr>)
      else Inl BadAlloc)"

text \<open>The end of the destructor: every timer of the set is deleted.\<close>

definition delete_timers :: "(timestamp \<times> nat) list \<Rightarrow> timer_queue \<Rightarrow> timer_queue res" where
  "delete_timers es q = fold_res (\<lambda>e q. bind_res (get_timer (snd e) q)
     (\<lambda>_. Inr (q\<lparr>tq_heap := (tq_heap q)(snd e := None)\<rparr>))) es q"

text \<open>What a timer callback may do to its queue, in the loop's thread: \<open>addTimer\<close> and \<open>cancel\<close>.\<close>

datatype timer_call =
    AddTimer nat Functor timestamp rat
  | CancelTimer "nat \<times> int"

fun run_timer_call :: "timestamp \<Rightarrow> timer_call \<Rightarrow> timer_queue \<Rightarrow> timer_queue res" where
  "run_timer_call clock (AddTimer p cb when interval) q =
     bind_res (new_timer p cb when interval q) (addTimerInLoop clock p)"
| "run_timer_call clock (CancelTimer tid) q = cancelInLoop tid q"

text \<open>
  \<open>handleRead\<close>: \<open>now\<close> is the time read at its start, \<open>clock\<close> the time read when the descriptor
  is set, \<open>run\<close> runs a timer's callback.
\<close>

definition run_timer :: "(Functor \<Rightarrow> timer_queue \<Rightarrow> timer_queue res) \<Rightarrow> timestamp \<times> nat \<Rightarrow>
    timer_queue \<Rightarrow> timer_queue res" where
  "run_timer run e q = bind_res (get_timer (snd e) q) (\<lambda>tm. run (tm_callback tm) q)"

definition timer_handleRead :: "(Functor \<Rightarrow> timer_queue \<Rightarrow> timer_queue res) \<Rightarrow> timestamp \<Rightarrow>
    timestamp \<Rightarrow> timer_queue \<Rightarrow> timer_queue res" where
  "timer_handleRead run clock now q =
     bind_res (getExpired now q) (\<lambda>(expired, q).
       bind_res (fold_res (run_timer run) expired (q\<lparr>tq_calling := True, tq_canceling := []\<rparr>))
         (\<lambda>q. reset_queue clock now expired (q\<lparr>tq_calling := False\<rparr>)))"

section \<open>The invariant\<close>

text \<open>
  \<open>timers_\<close> and \<open>activeTimers_\<close> hold the same timers, once by expiration and once by identity:
  exactly the live ones but for those in \<open>D\<close>, the expired timers while their callbacks run.
\<close>

definition live :: "timer_queue \<Rightarrow> nat set \<Rightarrow> nat \<Rightarrow> timer \<Rightarrow> bool" where
  "live q D p tm \<longleftrightarrow> p \<notin> D \<and> tq_heap q p = Some tm"

definition tq_inv :: "timer_queue \<Rightarrow> nat set \<Rightarrow> bool" where
  "tq_inv q D \<longleftrightarrow> oset (tq_timers q) \<and> oset (tq_active q)
     \<and> (\<forall>t p. (t, p) \<in> set (tq_timers q) \<longleftrightarrow> (\<exists>tm. live q D p tm \<and> tm_expiration tm = t))
     \<and> (\<forall>p s. (p, s) \<in> set (tq_active q) \<longleftrightarrow> (\<exists>tm. live q D p tm \<and> tm_sequence tm = s))
     \<and> D \<subseteq> dom (tq_heap q)
     \<and> (\<forall>p \<in> dom (tq_heap q). p < uintptr_max)
     \<and> (\<forall>p tm. tq_heap q p = Some tm \<longrightarrow> tm_sequence tm \<le> tq_numCreated q)"

lemma tq_invD:
  assumes "tq_inv q D"
  shows "oset (tq_timers q)" "oset (tq_active q)"
    "(t, p) \<in> set (tq_timers q) \<longleftrightarrow> (\<exists>tm. live q D p tm \<and> tm_expiration tm = t)"
    "(p, s) \<in> set (tq_active q) \<longleftrightarrow> (\<exists>tm. live q D p tm \<and> tm_sequence tm = s)"
    "D \<subseteq> dom (tq_heap q)"
    "tq_heap q p = Some tm \<Longrightarrow> p < uintptr_max"
    "tq_heap q p = Some tm \<Longrightarrow> tm_sequence tm \<le> tq_numCreated q"
  using assms unfolding tq_inv_def by blast+

lemma tq_invI:
  assumes "oset (tq_timers q)" "oset (tq_active q)"
    and "\<And>t p. (t, p) \<in> set (tq_timers q) \<longleftrightarrow> (\<exists>tm. live q D p tm \<and> tm_expiration tm = t)"
    and "\<And>p s. (p, s) \<in> set (tq_active q) \<longleftrightarrow> (\<exists>tm. live q D p tm \<and> tm_sequence tm = s)"
    and "D \<subseteq> dom (tq_heap q)"
    and "\<And>p tm. tq_heap q p = Some tm \<Longrightarrow> p < uintptr_max"
    and "\<And>p tm. tq_heap q p = Some tm \<Longrightarrow> tm_sequence tm \<le> tq_numCreated q"
  shows "tq_inv q D"
  using assms unfolding tq_inv_def by blast

lemma tq_inv_flags [simp]:
  "tq_inv (q\<lparr>tq_calling := b\<rparr>) D = tq_inv q D"
  "tq_inv (q\<lparr>tq_canceling := cs\<rparr>) D = tq_inv q D"
  "tq_inv (q\<lparr>tq_timerfd := fd\<rparr>) D = tq_inv q D"
  by (simp_all add: tq_inv_def live_def)

lemma tq_inv_mk_timer_queue: "tq_inv (mk_timer_queue n) {}"
  by (simp add: tq_inv_def mk_timer_queue_def live_def)

lemma tq_inv_new:
  assumes "tq_inv q D" "new_timer p cb when interval q = Inr q'"
  shows "tq_inv q' (insert p D) \<and> p \<notin> D \<and> (\<forall>d \<in> D. tq_heap q' d = tq_heap q d)
     \<and> tq_heap q' p = Some (mk_timer cb when interval (tq_numCreated q + 1))"
proof -
  have p: "tq_heap q p = None" "p < uintptr_max" and
    q': "q' = q\<lparr>tq_numCreated := tq_numCreated q + 1,
          tq_heap := (tq_heap q)(p \<mapsto> mk_timer cb when interval (tq_numCreated q + 1))\<rparr>"
    using assms(2) by (auto simp: new_timer_def Let_def split: if_splits)
  have D: "p \<notin> D" using p tq_invD(5) [OF assms(1)] by auto
  have live: "live q' (insert p D) d tm \<longleftrightarrow> live q D d tm" for d tm
    using p by (auto simp: q' live_def)
  have "tm_sequence tm \<le> tq_numCreated q'" if "tq_heap q' d = Some tm" for d tm
    using that tq_invD(7) [OF assms(1), of d tm]
    by (auto simp: q' mk_timer_def split: if_splits)
  then show ?thesis
    using assms(1) D p unfolding tq_inv_def [of q'] live
    by (auto simp: q' tq_inv_def)
qed

lemma insert_timer_ok:
  assumes inv: "tq_inv q D" and p: "p \<in> D"
  shows "\<exists>tm q'. tq_heap q p = Some tm \<and> insert_timer p q =
      Inr (\<forall>e \<in> set (tq_timers q). tm_expiration tm < fst e, q')
    \<and> q' = q\<lparr>tq_timers := set_insert (tm_expiration tm, p) (tq_timers q),
            tq_active := set_insert (p, tm_sequence tm) (tq_active q)\<rparr>
    \<and> tq_inv q' (D - {p})"
proof -
  note D = tq_invD [OF inv]
  obtain tm where tm: "tq_heap q p = Some tm" using p D(5) by blast
  let ?q = "q\<lparr>tq_timers := set_insert (tm_expiration tm, p) (tq_timers q),
            tq_active := set_insert (p, tm_sequence tm) (tq_active q)\<rparr>"
  have live: "live ?q (D - {p}) d x \<longleftrightarrow> live q D d x \<or> d = p \<and> x = tm" for d x
    using tm p by (auto simp: live_def)
  have "tq_inv ?q (D - {p})"
    using D(1,2,5) tm unfolding tq_inv_def live
    by (auto simp: oset_insert D(3,4) dest: D(6,7))
  moreover have "(tq_timers q = [] \<or> tm_expiration tm < fst (hd (tq_timers q)))
      \<longleftrightarrow> (\<forall>e \<in> set (tq_timers q). tm_expiration tm < fst e)"
  proof (cases "tq_timers q")
    case (Cons e es)
    have "fst e \<le> fst e'" if "e' \<in> set (tq_timers q)" for e'
      using oset_hd_least [OF D(1) that] Cons by (cases e; cases e') (auto simp: less_eq_prod_def)
    then show ?thesis using Cons by (auto intro: less_le_trans)
  qed simp
  ultimately show ?thesis using tm by (auto simp: insert_timer_def get_timer_def Let_def)
qed

lemma addTimerInLoop_ok:
  assumes inv: "tq_inv q D" and p: "p \<in> D" and tm: "tq_heap q p = Some tm"
  shows "returns (addTimerInLoop clock p q) (\<lambda>q'. tq_inv q' (D - {p}) \<and> tq_heap q' = tq_heap q
     \<and> tq_canceling q' = tq_canceling q \<and> tq_calling q' = tq_calling q
     \<and> set (tq_timers q') = insert (tm_expiration tm, p) (set (tq_timers q))
     \<and> tq_timerfd q' = (if \<forall>e \<in> set (tq_timers q). tm_expiration tm < fst e
          then Some (howMuchTimeFromNow clock (tm_expiration tm)) else tq_timerfd q))"
  using insert_timer_ok [OF inv p] tm
  by (auto simp: addTimerInLoop_def get_timer_def resetTimerfd_def returns_def)

lemma cancelInLoop_ok:
  assumes inv: "tq_inv q D"
  shows "returns (cancelInLoop tid q) (\<lambda>q'. tq_inv q' D \<and> tq_calling q' = tq_calling q
     \<and> set (tq_active q') = set (tq_active q) - {tid}
     \<and> (\<forall>d \<in> D. tq_heap q' d = tq_heap q d)
     \<and> set (tq_canceling q') = (if tid \<notin> set (tq_active q) \<and> tq_calling q
          then insert tid (set (tq_canceling q)) else set (tq_canceling q)))"
proof (cases "tid \<in> set (tq_active q)")
  case True
  note D = tq_invD [OF inv]
  obtain p s where tid: "tid = (p, s)" by force
  with True D(4) obtain tm where tm: "live q D p tm" "tm_sequence tm = s" by blast
  then have p: "tq_heap q p = Some tm" "p \<notin> D" by (simp_all add: live_def)
  let ?q = "q\<lparr>tq_timers := set_erase (tm_expiration tm, p) (tq_timers q),
       tq_heap := (tq_heap q)(p := None), tq_active := set_erase (p, s) (tq_active q)\<rparr>"
  have live: "live ?q D d x \<longleftrightarrow> live q D d x \<and> d \<noteq> p" for d x
    by (auto simp: live_def)
  have "tq_inv ?q D"
    using D(1,2,5) p tm unfolding tq_inv_def live
    by (auto simp: oset_erase D(3,4) live_def dest: D(6,7) split: if_splits)
  then show ?thesis using True p tid by (auto simp: cancelInLoop_def get_timer_def)
next
  case False
  with inv show ?thesis by (simp add: cancelInLoop_def)
qed

lemma run_timer_call_ok:
  assumes inv: "tq_inv q D"
  shows "ends {BadAlloc} (run_timer_call clock c q) (\<lambda>q'. tq_inv q' D \<and> tq_calling q' = tq_calling q
     \<and> (\<forall>d \<in> D. tq_heap q' d = tq_heap q d))"
proof (cases c)
  case (AddTimer p cb t i)
  show ?thesis
  proof (cases "new_timer p cb t i q")
    case (Inl e)
    with AddTimer show ?thesis by (simp add: new_timer_def Let_def split: if_splits)
  next
    case (Inr q1)
    note N = tq_inv_new [OF inv Inr]
    have c1: "tq_calling q1 = tq_calling q"
      using Inr by (auto simp: new_timer_def Let_def split: if_splits)
    obtain q2 where q2: "addTimerInLoop clock p q1 = Inr q2" "tq_inv q2 (insert p D - {p})"
      "tq_heap q2 = tq_heap q1" "tq_calling q2 = tq_calling q1"
      using addTimerInLoop_ok [of q1 "insert p D" p _ clock] N by (force simp: returns_iff)
    have "insert p D - {p} = D" using N by auto
    with q2 N c1 AddTimer Inr show ?thesis by simp
  qed
next
  case (CancelTimer tid)
  with cancelInLoop_ok [OF inv, of tid] show ?thesis by (auto simp: returns_iff)
qed

section \<open>Expiry\<close>

lemma erase_active_ok:
  assumes "\<forall>e \<in> set es. tq_heap q (snd e) \<noteq> None" and "oset (tq_active q)"
  shows "\<exists>as. erase_active es q = Inr (q\<lparr>tq_active := as\<rparr>) \<and> oset as
     \<and> set as = set (tq_active q)
         - {(p, tm_sequence tm) | p tm. p \<in> snd ` set es \<and> tq_heap q p = Some tm}"
  using assms
proof (induction es arbitrary: q)
  case Nil
  then show ?case by (auto intro!: exI [of _ "tq_active q"])
next
  case (Cons e es)
  obtain t p where e: "e = (t, p)" by force
  with Cons.prems obtain tm where tm: "tq_heap q p = Some tm" by auto
  let ?q = "q\<lparr>tq_active := set_erase (p, tm_sequence tm) (tq_active q)\<rparr>"
  have "\<exists>as. erase_active es ?q = Inr (?q\<lparr>tq_active := as\<rparr>) \<and> oset as
     \<and> set as = set (tq_active ?q)
         - {(p, tm_sequence tm) | p tm. p \<in> snd ` set es \<and> tq_heap ?q p = Some tm}"
    using Cons.prems by (intro Cons.IH) (auto simp: oset_erase)
  then obtain as where as: "erase_active es ?q = Inr (?q\<lparr>tq_active := as\<rparr>)" "oset as"
    "set as = set (tq_active ?q)
       - {(p, tm_sequence tm) | p tm. p \<in> snd ` set es \<and> tq_heap ?q p = Some tm}" by blast
  have "erase_active (e # es) q = Inr (q\<lparr>tq_active := as\<rparr>)"
    using as(1) e tm by (simp add: get_timer_def)
  moreover have "set as = set (tq_active q)
       - {(p, tm_sequence tm) | p tm. p \<in> snd ` set (e # es) \<and> tq_heap q p = Some tm}"
    using as(3) e tm by auto
  ultimately show ?case using as(2) by blast
qed

lemma getExpired_ok:
  assumes inv: "tq_inv q {}"
  shows "\<exists>es q'. getExpired now q = Inr (es, q') \<and> oset es
     \<and> set es = {(t, p) \<in> set (tq_timers q). t \<le> now}
     \<and> tq_inv q' (snd ` set es) \<and> tq_heap q' = tq_heap q
     \<and> set (tq_timers q') = {(t, p) \<in> set (tq_timers q). now < t}"
proof -
  note D = tq_invD [OF inv]
  let ?s = "(now, uintptr_max)"
  let ?es = "before_bound ?s (tq_timers q)"
  let ?q1 = "q\<lparr>tq_timers := from_bound ?s (tq_timers q)\<rparr>"
  have entry: "\<exists>tm. tq_heap q p = Some tm \<and> tm_expiration tm = t \<and> p < uintptr_max"
    if "(t, p) \<in> set (tq_timers q)" for t p
    using that D(3,6) by (auto simp: live_def)
  have bound: "p < uintptr_max" if "(t, p) \<in> set (tq_timers q)" for t p
    using entry [OF that] by blast
  have es: "set ?es = {(t, p) \<in> set (tq_timers q). t \<le> now}"
    unfolding set_before_bound [OF D(1), of ?s] by (auto dest: bound)
  have rest: "set (from_bound ?s (tq_timers q)) = {(t, p) \<in> set (tq_timers q). now < t}"
    unfolding set_from_bound [OF D(1), of ?s] by (auto simp: not_le dest: bound)
  have "\<forall>e \<in> set ?es. tq_heap ?q1 (snd e) \<noteq> None" using es by (auto dest: entry)
  then obtain as where as: "erase_active ?es ?q1 = Inr (?q1\<lparr>tq_active := as\<rparr>)" "oset as"
    "set as = set (tq_active q)
       - {(p, tm_sequence tm) | p tm. p \<in> snd ` set ?es \<and> tq_heap q p = Some tm}"
    using erase_active_ok [of ?es ?q1] D(2) by auto
  let ?q2 = "?q1\<lparr>tq_active := as\<rparr>"
  have mem: "p \<in> snd ` set ?es \<longleftrightarrow> (\<exists>tm. tq_heap q p = Some tm \<and> tm_expiration tm \<le> now)" for p
  proof
    assume "p \<in> snd ` set ?es"
    then obtain t where "(t, p) \<in> set (tq_timers q)" "t \<le> now" by (auto simp: es)
    with entry show "\<exists>tm. tq_heap q p = Some tm \<and> tm_expiration tm \<le> now" by blast
  next
    assume "\<exists>tm. tq_heap q p = Some tm \<and> tm_expiration tm \<le> now"
    then obtain tm where "tq_heap q p = Some tm" "tm_expiration tm \<le> now" by blast
    then have "(tm_expiration tm, p) \<in> set ?es" by (auto simp: es D(3) live_def)
    then show "p \<in> snd ` set ?es" by force
  qed
  have live: "live ?q2 (snd ` set ?es) p tm \<longleftrightarrow> live q {} p tm \<and> now < tm_expiration tm" for p tm
    unfolding live_def mem by (auto simp: not_le)
  have "tq_inv ?q2 (snd ` set ?es)"
  proof (rule tq_invI, unfold live)
    show "(t, p) \<in> set (tq_timers ?q2) \<longleftrightarrow>
        (\<exists>tm. (live q {} p tm \<and> now < tm_expiration tm) \<and> tm_expiration tm = t)" for t p
      by (auto simp: rest D(3))
    show "(p, s) \<in> set (tq_active ?q2) \<longleftrightarrow>
        (\<exists>tm. (live q {} p tm \<and> now < tm_expiration tm) \<and> tm_sequence tm = s)" for p s
    proof -
      have "(p, s) \<in> set as \<longleftrightarrow> (p, s) \<in> set (tq_active q)
          \<and> \<not> (\<exists>tm. p \<in> snd ` set ?es \<and> tq_heap q p = Some tm \<and> s = tm_sequence tm)"
        unfolding as(3) by auto
      then show ?thesis unfolding mem D(4) live_def by (cases "tq_heap q p") (auto simp: not_le)
    qed
    show "snd ` set ?es \<subseteq> dom (tq_heap ?q2)" unfolding subset_iff mem by auto
    show "oset (tq_timers ?q2)" using oset_from_bound [OF D(1), of ?s] by simp
    show "oset (tq_active ?q2)" using as(2) by simp
    show "p < uintptr_max" if "tq_heap ?q2 p = Some tm" for p tm
      using D(6) [of p tm] that by simp
    show "tm_sequence tm \<le> tq_numCreated ?q2" if "tq_heap ?q2 p = Some tm" for p tm
      using D(7) [of p tm] that by simp
  qed
  moreover have "getExpired now q = Inr (?es, ?q2)"
    using as(1) by (simp add: getExpired_def Let_def)
  moreover have "oset ?es" by (rule oset_before_bound [OF D(1)])
  ultimately show ?thesis using es rest by (intro exI [of _ ?es] exI [of _ ?q2]) simp
qed

lemma expired_distinct:
  assumes inv: "tq_inv q {}" and es: "oset es" "set es \<subseteq> set (tq_timers q)"
  shows "distinct (map snd es)"
proof -
  have "t = t'" if "(t, p) \<in> set (tq_timers q)" "(t', p) \<in> set (tq_timers q)" for t t' p
    using that by (auto simp: tq_invD(3) [OF inv] live_def)
  then have "inj_on snd (set es)" using es(2) unfolding inj_on_def by (metis prod.collapse subsetD)
  moreover have "distinct es" using es(1) by (simp add: sorted_wrt_iff_nth_less distinct_conv_nth) (metis less_irrefl linorder_neqE_nat)
  ultimately show ?thesis by (simp add: distinct_map)
qed

text \<open>What becomes of a timer that has expired.\<close>

definition after_expiry :: "timestamp \<Rightarrow> (nat \<times> int) list \<Rightarrow> nat \<Rightarrow> timer option \<Rightarrow> timer option" where
  "after_expiry now canceling p tmo = (case tmo of None \<Rightarrow> None | Some tm \<Rightarrow>
     if tm_repeat tm \<and> (p, tm_sequence tm) \<notin> set canceling
     then Some (tm\<lparr>tm_expiration := addTime now (tm_interval tm)\<rparr>) else None)"

lemma rearm_ok:
  assumes "tq_inv q (snd ` set es)" "distinct (map snd es)"
  shows "returns (rearm now es q) (\<lambda>q'. tq_inv q' {} \<and> tq_canceling q' = tq_canceling q
     \<and> tq_calling q' = tq_calling q \<and> tq_timerfd q' = tq_timerfd q
     \<and> (\<forall>p. tq_heap q' p = (if p \<in> snd ` set es
          then after_expiry now (tq_canceling q) p (tq_heap q p) else tq_heap q p)))"
  using assms
proof (induction es arbitrary: q)
  case Nil
  then show ?case by simp
next
  case (Cons e es)
  obtain t p where e: "e = (t, p)" by force
  let ?D = "snd ` set es"
  note D = tq_invD [OF Cons.prems(1)]
  have p: "p \<notin> ?D" "distinct (map snd es)" using Cons.prems(2) e by auto
  obtain tm where tm: "tq_heap q p = Some tm" using D(5) e by auto
  have Dp: "insert p ?D - {p} = ?D" using p by auto
  show ?case
  proof (cases "tm_repeat tm \<and> (p, tm_sequence tm) \<notin> set (tq_canceling q)")
    case True
    let ?q = "q\<lparr>tq_heap := (tq_heap q)(p \<mapsto> restart_timer now tm)\<rparr>"
    have live: "live ?q (insert p ?D) d x \<longleftrightarrow> live q (insert p ?D) d x" for d x
      by (auto simp: live_def)
    have "tq_inv ?q (insert p ?D)"
      using D tm e unfolding tq_inv_def live
      by (auto simp: restart_timer_def) 
    then obtain q1 where q1: "insert_timer p ?q = Inr (\<forall>e \<in> set (tq_timers ?q). tm_expiration (restart_timer now tm) < fst e, q1)"
      "q1 = ?q\<lparr>tq_timers := set_insert (tm_expiration (restart_timer now tm), p) (tq_timers ?q),
            tq_active := set_insert (p, tm_sequence (restart_timer now tm)) (tq_active ?q)\<rparr>"
      "tq_inv q1 ?D"
      using insert_timer_ok [of ?q "insert p ?D" p] Dp by auto
    have "returns (rearm now es q1) (\<lambda>q'. tq_inv q' {} \<and> tq_canceling q' = tq_canceling q1
     \<and> tq_calling q' = tq_calling q1 \<and> tq_timerfd q' = tq_timerfd q1
     \<and> (\<forall>p. tq_heap q' p = (if p \<in> snd ` set es
          then after_expiry now (tq_canceling q1) p (tq_heap q1 p) else tq_heap q1 p)))"
      by (rule Cons.IH [OF q1(3) p(2)])
    moreover have "rearm now (e # es) q = rearm now es q1"
      using e tm True q1(1) by (simp add: get_timer_def)
    ultimately show ?thesis
      using e tm True p
      by (auto simp: returns_iff q1(2) after_expiry_def restart_timer_def split: if_splits)
  next
    case False
    let ?q = "q\<lparr>tq_heap := (tq_heap q)(p := None)\<rparr>"
    have live: "live ?q ?D d x \<longleftrightarrow> live q (insert p ?D) d x" for d x
      by (auto simp: live_def)
    have "tq_inv ?q ?D"
      using D p e unfolding tq_inv_def live by auto
    then have "returns (rearm now es ?q) (\<lambda>q'. tq_inv q' {} \<and> tq_canceling q' = tq_canceling ?q
     \<and> tq_calling q' = tq_calling ?q \<and> tq_timerfd q' = tq_timerfd ?q
     \<and> (\<forall>p. tq_heap q' p = (if p \<in> snd ` set es
          then after_expiry now (tq_canceling ?q) p (tq_heap ?q p) else tq_heap ?q p)))"
      by (rule Cons.IH [OF _ p(2)])
    moreover have "rearm now (e # es) q = rearm now es ?q"
      using e tm False by (auto simp: get_timer_def)
    ultimately show ?thesis
      using e tm False p by (auto simp: returns_iff after_expiry_def split: if_splits)
  qed
qed

lemma reset_queue_ok:
  assumes "tq_inv q (snd ` set es)" "distinct (map snd es)"
  shows "returns (reset_queue clock now es q) (\<lambda>q'. tq_inv q' {} \<and> tq_canceling q' = tq_canceling q
     \<and> tq_calling q' = tq_calling q
     \<and> (\<forall>p. tq_heap q' p = (if p \<in> snd ` set es
          then after_expiry now (tq_canceling q) p (tq_heap q p) else tq_heap q p))
     \<and> tq_timerfd q' = (if tq_timers q' \<noteq> [] \<and> valid (fst (hd (tq_timers q')))
          then Some (howMuchTimeFromNow clock (fst (hd (tq_timers q')))) else tq_timerfd q))"
proof -
  obtain q1 where q1: "rearm now es q = Inr q1" "tq_inv q1 {}" "tq_canceling q1 = tq_canceling q"
    "tq_calling q1 = tq_calling q" "tq_timerfd q1 = tq_timerfd q"
    "\<forall>p. tq_heap q1 p = (if p \<in> snd ` set es
          then after_expiry now (tq_canceling q) p (tq_heap q p) else tq_heap q p)"
    using rearm_ok [OF assms, of now] by (auto simp: returns_iff)
  show ?thesis
  proof (cases "tq_timers q1")
    case Nil
    then show ?thesis using q1 by (simp add: reset_queue_def valid_def invalid_def)
  next
    case (Cons e ts)
    obtain t p where e: "e = (t, p)" by force
    have "(t, p) \<in> set (tq_timers q1)" using Cons e by simp
    then obtain tm where tm: "tq_heap q1 p = Some tm" "tm_expiration tm = t"
      by (auto simp: tq_invD(3) [OF q1(2)] live_def)
    show ?thesis
      using q1 Cons e tm by (simp add: reset_queue_def get_timer_def resetTimerfd_def)
  qed
qed

section \<open>The interface to the timer callbacks\<close>

text \<open>
  While the callbacks of expired timers run, these timers are still allocated but in neither
  set. A callback may add and cancel timers; it must keep the queue's invariant and may not
  destroy an expired timer. It may end the process only with a fault of \<open>E\<close>; then
  \<open>handleRead\<close> adds no other.
\<close>

locale timer_callbacks =
  fixes run :: "Functor \<Rightarrow> timer_queue \<Rightarrow> timer_queue res"
    and E :: "fault set"
  assumes run_ok: "tq_inv q D \<Longrightarrow> ends E (run cb q) (\<lambda>q'. tq_inv q' D
      \<and> tq_calling q' = tq_calling q \<and> (\<forall>d \<in> D. tq_heap q' d = tq_heap q d))"
begin

lemma run_expired_ok:
  assumes "tq_inv q D" "snd ` set es \<subseteq> D"
  shows "ends E (fold_res (run_timer run) es q) (\<lambda>q'. tq_inv q' D
      \<and> tq_calling q' = tq_calling q \<and> (\<forall>d \<in> D. tq_heap q' d = tq_heap q d))"
proof (rule ends_fold_res)
  show "tq_inv q D \<and> tq_calling q = tq_calling q \<and> (\<forall>d \<in> D. tq_heap q d = tq_heap q d)"
    using assms by simp
next
  fix e q1
  assume e: "e \<in> set es" and q1: "tq_inv q1 D \<and> tq_calling q1 = tq_calling q \<and> (\<forall>d \<in> D. tq_heap q1 d = tq_heap q d)"
  from e assms(2) q1 tq_invD(5) [of q1 D] obtain tm where "tq_heap q1 (snd e) = Some tm" by blast
  then show "ends E (run_timer run e q1) (\<lambda>q'. tq_inv q' D
      \<and> tq_calling q' = tq_calling q \<and> (\<forall>d \<in> D. tq_heap q' d = tq_heap q d))"
    using run_ok [of q1 D "tm_callback tm"] q1 by (simp add: run_timer_def get_timer_def ends_mono)
qed

theorem timer_handleRead_ok:
  assumes inv: "tq_inv q {}"
  shows "ends E (timer_handleRead run clock now q) (\<lambda>q'. tq_inv q' {} \<and> \<not> tq_calling q'
     \<and> (\<forall>t p. (t, p) \<in> set (tq_timers q) \<and> t \<le> now \<longrightarrow>
          tq_heap q' p = after_expiry now (tq_canceling q') p (tq_heap q p))
     \<and> (tq_timers q' \<noteq> [] \<and> valid (fst (hd (tq_timers q'))) \<longrightarrow>
          tq_timerfd q' = Some (howMuchTimeFromNow clock (fst (hd (tq_timers q'))))))"
proof -
  obtain es q1 where q1: "getExpired now q = Inr (es, q1)" "oset es"
    "set es = {(t, p) \<in> set (tq_timers q). t \<le> now}" "tq_inv q1 (snd ` set es)"
    "tq_heap q1 = tq_heap q"
    using getExpired_ok [OF inv, of now] by blast
  have dist: "distinct (map snd es)" using q1(2,3) by (intro expired_distinct [OF inv]) auto
  let ?q2 = "q1\<lparr>tq_calling := True, tq_canceling := []\<rparr>"
  have "tq_inv ?q2 (snd ` set es)" using q1(4) by simp
  from run_expired_ok [OF this, of es]
  have run: "ends E (fold_res (run_timer run) es ?q2) (\<lambda>q3. tq_inv q3 (snd ` set es)
      \<and> (\<forall>d \<in> snd ` set es. tq_heap q3 d = tq_heap q d))"
    using q1(5) by (auto intro: ends_mono)
  have "ends E (fold_res (run_timer run) es ?q2)
    (\<lambda>q3. ends E (reset_queue clock now es (q3\<lparr>tq_calling := False\<rparr>)) (\<lambda>q'. tq_inv q' {} \<and> \<not> tq_calling q'
     \<and> (\<forall>t p. (t, p) \<in> set (tq_timers q) \<and> t \<le> now \<longrightarrow>
          tq_heap q' p = after_expiry now (tq_canceling q') p (tq_heap q p))
     \<and> (tq_timers q' \<noteq> [] \<and> valid (fst (hd (tq_timers q'))) \<longrightarrow>
          tq_timerfd q' = Some (howMuchTimeFromNow clock (fst (hd (tq_timers q')))))))"
    using run
  proof (rule ends_mono)
    fix q3
    assume q3: "tq_inv q3 (snd ` set es) \<and> (\<forall>d \<in> snd ` set es. tq_heap q3 d = tq_heap q d)"
    then have "tq_inv (q3\<lparr>tq_calling := False\<rparr>) (snd ` set es)" by simp
    from reset_queue_ok [OF this dist, of clock now]
    show "ends E (reset_queue clock now es (q3\<lparr>tq_calling := False\<rparr>)) (\<lambda>q'. tq_inv q' {} \<and> \<not> tq_calling q'
     \<and> (\<forall>t p. (t, p) \<in> set (tq_timers q) \<and> t \<le> now \<longrightarrow>
          tq_heap q' p = after_expiry now (tq_canceling q') p (tq_heap q p))
     \<and> (tq_timers q' \<noteq> [] \<and> valid (fst (hd (tq_timers q'))) \<longrightarrow>
          tq_timerfd q' = Some (howMuchTimeFromNow clock (fst (hd (tq_timers q'))))))"
    proof (elim ends_mono [OF ends_returns [of _ _ E]], intro conjI allI impI)
      fix q' t p
      assume h: "tq_inv q' {} \<and> tq_canceling q' = tq_canceling (q3\<lparr>tq_calling := False\<rparr>)
         \<and> tq_calling q' = tq_calling (q3\<lparr>tq_calling := False\<rparr>)
         \<and> (\<forall>p. tq_heap q' p = (if p \<in> snd ` set es
              then after_expiry now (tq_canceling (q3\<lparr>tq_calling := False\<rparr>)) p
                     (tq_heap (q3\<lparr>tq_calling := False\<rparr>) p)
              else tq_heap (q3\<lparr>tq_calling := False\<rparr>) p))
         \<and> tq_timerfd q' = (if tq_timers q' \<noteq> [] \<and> valid (fst (hd (tq_timers q')))
              then Some (howMuchTimeFromNow clock (fst (hd (tq_timers q'))))
              else tq_timerfd (q3\<lparr>tq_calling := False\<rparr>))"
      show "tq_heap q' p = after_expiry now (tq_canceling q') p (tq_heap q p)"
        if "(t, p) \<in> set (tq_timers q) \<and> t \<le> now"
      proof -
        have "(t, p) \<in> set es" using that q1(3) by simp
        then have p: "p \<in> snd ` set es" by force
        with q3 have "tq_heap q3 p = tq_heap q p" by blast
        with h p show ?thesis by simp
      qed
    qed simp_all
  qed
  then show ?thesis by (simp add: timer_handleRead_def q1(1))
qed

end

text \<open>Callbacks that make any sequence of \<open>addTimer\<close> and \<open>cancel\<close> calls keep the promise.\<close>

definition run_calls :: "timestamp \<Rightarrow> (Functor \<Rightarrow> timer_queue \<Rightarrow> timer_call list) \<Rightarrow> Functor \<Rightarrow>
    timer_queue \<Rightarrow> timer_queue res" where
  "run_calls clock calls cb q = fold_res (run_timer_call clock) (calls cb q) q"

lemma run_calls_ok:
  assumes "tq_inv q D"
  shows "ends {BadAlloc} (run_calls clock calls cb q) (\<lambda>q'. tq_inv q' D
      \<and> tq_calling q' = tq_calling q \<and> (\<forall>d \<in> D. tq_heap q' d = tq_heap q d))"
  unfolding run_calls_def
proof (rule ends_fold_res)
  show "tq_inv q D \<and> tq_calling q = tq_calling q \<and> (\<forall>d \<in> D. tq_heap q d = tq_heap q d)"
    using assms by simp
next
  fix c q1
  assume "tq_inv q1 D \<and> tq_calling q1 = tq_calling q \<and> (\<forall>d \<in> D. tq_heap q1 d = tq_heap q d)"
  then show "ends {BadAlloc} (run_timer_call clock c q1) (\<lambda>q'. tq_inv q' D
      \<and> tq_calling q' = tq_calling q \<and> (\<forall>d \<in> D. tq_heap q' d = tq_heap q d))"
    using run_timer_call_ok [of q1 D clock c] by (auto intro: ends_mono)
qed

interpretation timer_calls: timer_callbacks "run_calls clock calls" "{BadAlloc}" for clock calls
  by unfold_locales (rule run_calls_ok)

section \<open>Reachable queues\<close>

text \<open>
  A queue as the loop's thread uses it: created empty, then any number of \<open>addTimer\<close> and
  \<open>cancel\<close> calls and expiries with callbacks that make such calls, at any clock readings.
\<close>

inductive timer_reachable :: "timer_queue \<Rightarrow> bool" where
  created: "timer_reachable (mk_timer_queue n)"
| called: "timer_reachable q \<Longrightarrow> run_timer_call clock c q = Inr q' \<Longrightarrow> timer_reachable q'"
| expired: "timer_reachable q \<Longrightarrow> timer_handleRead (run_calls clock calls) clock now q = Inr q' \<Longrightarrow>
     timer_reachable q'"

lemma timer_reachable_inv: "timer_reachable q \<Longrightarrow> tq_inv q {}"
proof (induction rule: timer_reachable.induct)
  case (created n)
  show ?case by (rule tq_inv_mk_timer_queue)
next
  case (called q clock c q')
  then show ?case using run_timer_call_ok [of q "{}" clock c] by simp
next
  case (expired q clock calls now q')
  then show ?case using timer_calls.timer_handleRead_ok [of q clock calls clock now] by simp
qed

lemma cancelInLoop_canceling:
  "cancelInLoop tid q = Inr q' \<Longrightarrow> set (tq_canceling q) \<subseteq> set (tq_canceling q')"
  by (auto simp: cancelInLoop_def bind_res_Inr_iff split: if_splits)

lemma run_timer_call_canceling:
  "run_timer_call clock c q = Inr q' \<Longrightarrow> set (tq_canceling q) \<subseteq> set (tq_canceling q')"
  by (cases c) (auto simp: bind_res_Inr_iff new_timer_def addTimerInLoop_def insert_timer_def
      resetTimerfd_def Let_def cancelInLoop_canceling [THEN subsetD] split: if_splits)

lemma run_calls_canceling:
  "fold_res (run_timer_call clock) cs q = Inr q' \<Longrightarrow> set (tq_canceling q) \<subseteq> set (tq_canceling q')"
  by (induction cs arbitrary: q) (auto simp: bind_res_Inr_iff dest!: run_timer_call_canceling)

text \<open>What the two sets of a consistent queue amount to.\<close>

definition same_timers :: "timer_queue \<Rightarrow> bool" where
  "same_timers q \<longleftrightarrow> snd ` set (tq_timers q) = dom (tq_heap q)
     \<and> fst ` set (tq_active q) = dom (tq_heap q)
     \<and> length (tq_timers q) = length (tq_active q)"

lemma image_snd_fst: "snd ` S = {p. \<exists>t. (t, p) \<in> S}" "fst ` S = {p. \<exists>t. (p, t) \<in> S}"
  by force+

lemma tq_inv_same_timers:
  assumes inv: "tq_inv q {}"
  shows "same_timers q"
proof -
  note D = tq_invD [OF inv]
  have dom: "snd ` set (tq_timers q) = dom (tq_heap q)" "fst ` set (tq_active q) = dom (tq_heap q)"
    unfolding image_snd_fst D(3,4) by (auto simp: live_def)
  have "distinct (map snd (tq_timers q))" by (rule expired_distinct [OF inv D(1)]) simp
  then have "length (tq_timers q) = card (snd ` set (tq_timers q))"
    by (metis distinct_card length_map set_map)
  moreover have "inj_on fst (set (tq_active q))"
    by (auto simp: inj_on_def D(4) live_def)
  then have "card (fst ` set (tq_active q)) = card (set (tq_active q))" by (rule card_image)
  moreover have "distinct (tq_active q)"
    using D(2) by (simp add: sorted_wrt_iff_nth_less distinct_conv_nth)
      (metis less_irrefl linorder_neqE_nat)
  ultimately show ?thesis using dom by (simp add: same_timers_def distinct_card)
qed

text \<open>A \<open>cancel\<close> of an expired timer while its batch runs is remembered to the end of the batch.\<close>

lemma fold_cancel_remembered:
  assumes "tq_inv q D" "tq_calling q" "p \<in> D" "CancelTimer (p, n) \<in> set cs"
    and "fold_res (run_timer_call clock) cs q = Inr q'"
  shows "(p, n) \<in> set (tq_canceling q')"
  using assms
proof (induction cs arbitrary: q)
  case (Cons c cs)
  then obtain q1 where q1: "run_timer_call clock c q = Inr q1"
    "fold_res (run_timer_call clock) cs q1 = Inr q'" by (auto simp: bind_res_Inr_iff)
  have inv1: "tq_inv q1 D" "tq_calling q1"
    using run_timer_call_ok [OF Cons.prems(1), of clock c] q1(1) Cons.prems(2) by auto
  show ?case
  proof (cases "c = CancelTimer (p, n)")
    case True
    have "(p, n) \<notin> set (tq_active q)"
      using Cons.prems(3) by (auto simp: tq_invD(4) [OF Cons.prems(1)] live_def)
    with True q1(1) Cons.prems(2) have "(p, n) \<in> set (tq_canceling q1)"
      by (auto simp: cancelInLoop_def)
    with run_calls_canceling [OF q1(2)] show ?thesis by blast
  next
    case False
    with Cons.prems(4) have "CancelTimer (p, n) \<in> set cs" by simp
    from Cons.IH [OF inv1 Cons.prems(3) this q1(2)] show ?thesis .
  qed
qed simp

lemma run_expired_cancel_remembered:
  assumes "tq_inv q D" "tq_calling q" "p \<in> D" "snd ` set es \<subseteq> D"
    and "(t, d) \<in> set es" "tq_heap q d = Some tm"
    and "\<forall>s. CancelTimer (p, n) \<in> set (calls (tm_callback tm) s)"
    and "fold_res (run_timer (run_calls clock calls)) es q = Inr q'"
  shows "(p, n) \<in> set (tq_canceling q')"
proof -
  have mono: "set (tq_canceling q) \<subseteq> set (tq_canceling q')"
    if "fold_res (run_timer (run_calls clock calls)) es q = Inr q'" for es q q'
    using that by (induction es arbitrary: q)
      (auto simp: bind_res_Inr_iff run_timer_def run_calls_def dest!: run_calls_canceling)
  show ?thesis using assms
  proof (induction es arbitrary: q)
    case (Cons e es)
    obtain tme where tme: "tq_heap q (snd e) = Some tme"
      using tq_invD(5) [OF Cons.prems(1)] Cons.prems(4) by auto
    with Cons.prems(8) obtain q1 where q1: "run_calls clock calls (tm_callback tme) q = Inr q1"
      "fold_res (run_timer (run_calls clock calls)) es q1 = Inr q'"
      by (force simp: bind_res_Inr_iff run_timer_def [of _ e] get_timer_def)
    have inv1: "tq_inv q1 D" "tq_calling q1" "\<forall>d \<in> D. tq_heap q1 d = tq_heap q d"
      using run_calls_ok [OF Cons.prems(1), of clock calls "tm_callback tme"] q1(1) Cons.prems(2)
      by auto
    show ?case
    proof (cases "e = (t, d)")
      case True
      with tme Cons.prems(6,7) have "CancelTimer (p, n) \<in> set (calls (tm_callback tme) q)" by simp
      from fold_cancel_remembered [OF Cons.prems(1-3) this] q1(1) mono [OF q1(2)]
      show ?thesis by (auto simp: run_calls_def)
    next
      case False
      with Cons.prems(5) have td: "(t, d) \<in> set es" by simp
      with Cons.prems(4) have "d \<in> D" by auto
      with inv1(3) Cons.prems(6) have d: "tq_heap q1 d = Some tm" by simp
      show ?thesis using Cons.prems(3,4,7) by (intro Cons.IH [OF inv1(1,2) _ _ td d _ q1(2)]) auto
    qed
  qed simp
qed

section \<open>Destruction\<close>

lemma delete_timers_ok:
  assumes "distinct (map snd es)" "\<forall>e \<in> set es. tq_heap q (snd e) \<noteq> None"
  shows "returns (delete_timers es q) (\<lambda>q'. dom (tq_heap q') = dom (tq_heap q) - snd ` set es)"
  using assms
proof (induction es arbitrary: q)
  case (Cons e es)
  let ?q = "q\<lparr>tq_heap := (tq_heap q)(snd e := None)\<rparr>"
  have "\<forall>x \<in> set es. tq_heap ?q (snd x) \<noteq> None"
  proof
    fix x assume x: "x \<in> set es"
    then have "snd x \<in> snd ` set es" by simp
    moreover have "snd e \<notin> snd ` set es" using Cons.prems(1) by simp
    ultimately have "snd x \<noteq> snd e" by metis
    then show "tq_heap ?q (snd x) \<noteq> None" using x Cons.prems(2) by simp
  qed
  then have "returns (delete_timers es ?q) (\<lambda>q'. dom (tq_heap q') = dom (tq_heap ?q) - snd ` set es)"
    using Cons.prems(1) by (intro Cons.IH) simp_all
  then show ?case using Cons.prems(2)
    by (auto simp: delete_timers_def get_timer_def elim!: returns_mono)
qed (simp add: delete_timers_def)

text \<open>
  The destructor deletes every timer of the queue, none twice; the ones in \<open>D\<close>, which no set holds,
  stay.
\<close>

lemma delete_timers_frees:
  assumes inv: "tq_inv q D"
  shows "returns (delete_timers (tq_timers q) q) (\<lambda>q'. dom (tq_heap q') = D)"
proof -
  note d = tq_invD [OF inv]
  have "inj_on snd (set (tq_timers q))" by (rule inj_onI) (auto simp: d(3) live_def)
  moreover have "distinct (tq_timers q)" using d(1) by (simp add: strict_sorted_iff)
  ultimately have "distinct (map snd (tq_timers q))" by (simp add: distinct_map)
  moreover have "\<forall>e \<in> set (tq_timers q). tq_heap q (snd e) \<noteq> None" using d(3) by (auto simp: live_def)
  moreover have "dom (tq_heap q) - snd ` set (tq_timers q) = D"
  proof -
    have "p \<in> snd ` set (tq_timers q)" if "tq_heap q p = Some tm" "p \<notin> D" for p tm
    proof -
      have "(tm_expiration tm, p) \<in> set (tq_timers q)" using that d(3) by (auto simp: live_def)
      then show ?thesis by force
    qed
    moreover have "p \<notin> D" if "(t, p) \<in> set (tq_timers q)" for t p using that d(3) by (auto simp: live_def)
    ultimately show ?thesis using d(5) by fastforce
  qed
  ultimately show ?thesis using delete_timers_ok [of "tq_timers q" q] by simp
qed

section \<open>Properties\<close>

text \<open>
  C31. \<open>getExpired(now)\<close> on a consistent queue returns exactly the timers whose expiration is not
  after \<open>now\<close>, also those at \<open>now\<close> itself, in the order of their expirations; it leaves exactly
  the later ones in \<open>timers_\<close>, keeps the two sets consistent and destroys no timer.
\<close>

theorem getExpired_exact:
  assumes "tq_inv q {}"
  shows "returns (getExpired now q) (\<lambda>(es, q'). sorted (map fst es)
     \<and> set es = {(t, p) \<in> set (tq_timers q). t \<le> now}
     \<and> set (tq_timers q') = {(t, p) \<in> set (tq_timers q). now < t}
     \<and> tq_inv q' (snd ` set es) \<and> tq_heap q' = tq_heap q)"
proof -
  obtain es q' where *: "getExpired now q = Inr (es, q')" "oset es"
     "set es = {(t, p) \<in> set (tq_timers q). t \<le> now}"
     "tq_inv q' (snd ` set es)" "tq_heap q' = tq_heap q"
     "set (tq_timers q') = {(t, p) \<in> set (tq_timers q). now < t}"
    using getExpired_ok [OF assms, of now] by blast
  have "sorted (map fst es)"
    unfolding sorted_wrt_map
    using *(2) by (rule sorted_wrt_mono_rel [rotated]) (auto intro: less_imp_le)
  with * show ?thesis by simp
qed

definition sample_queue :: timer_queue where
  "sample_queue = (case fold_res (run_timer_call (Timestamp 1000))
      [AddTimer 8 (FUser 0) (Timestamp 3000) 0, AddTimer 16 (FUser 1) (Timestamp 2000) 1,
       AddTimer 24 (FUser 2) (Timestamp 9000) 0] (mk_timer_queue 0) of
     Inr q \<Rightarrow> q | Inl e \<Rightarrow> mk_timer_queue 0)"

lemma uintptr_max_nat: "uintptr_max = 18446744073709551615"
  by (simp add: uintptr_max_def)

lemma sample_queue_eq:
  "sample_queue =
     \<lparr>tq_timers = [(Timestamp 2000, 16), (Timestamp 3000, 8), (Timestamp 9000, 24)],
      tq_active = [(8, 1), (16, 2), (24, 3)], tq_calling = False, tq_canceling = [],
      tq_heap = [8 \<mapsto> mk_timer (FUser 0) (Timestamp 3000) 0 1,
                 16 \<mapsto> mk_timer (FUser 1) (Timestamp 2000) 1 2,
                 24 \<mapsto> mk_timer (FUser 2) (Timestamp 9000) 0 3],
      tq_timerfd = Some (0, 1000000), tq_numCreated = 3\<rparr>"
  by (simp add: sample_queue_def mk_timer_queue_def new_timer_def addTimerInLoop_def
      insert_timer_def get_timer_def resetTimerfd_def howMuchTimeFromNow_def mk_timer_def
      kMicroSecondsPerSecond_def uintptr_max_nat Let_def)

lemma sample_queue_inv: "tq_inv sample_queue {}"
proof -
  have "ends {BadAlloc} (fold_res (run_timer_call (Timestamp 1000))
      [AddTimer 8 (FUser 0) (Timestamp 3000) 0, AddTimer 16 (FUser 1) (Timestamp 2000) 1,
       AddTimer 24 (FUser 2) (Timestamp 9000) 0] (mk_timer_queue 0)) (\<lambda>q. tq_inv q {})"
  proof (rule ends_fold_res)
    show "tq_inv (mk_timer_queue 0) {}" by (rule tq_inv_mk_timer_queue)
    show "ends {BadAlloc} (run_timer_call (Timestamp 1000) c q) (\<lambda>q. tq_inv q {})" if "tq_inv q {}" for c q
      using run_timer_call_ok [OF that, of "Timestamp 1000" c] by (rule ends_mono) simp
  qed
  then show ?thesis
    unfolding sample_queue_def ends_def
    by (auto simp: tq_inv_mk_timer_queue split: sum.splits)
qed

theorem getExpired_exact_witness:
  "returns (getExpired (Timestamp 3000) sample_queue) (\<lambda>(es, q').
     set es = {(Timestamp 2000, 16), (Timestamp 3000, 8)}
     \<and> set (tq_timers q') = {(Timestamp 9000, 24)} \<and> tq_inv q' {8, 16})"
proof -
  have "{(t, p) \<in> set (tq_timers sample_queue). t \<le> Timestamp 3000}
      = {(Timestamp 2000, 16), (Timestamp 3000, 8)}"
    "{(t, p) \<in> set (tq_timers sample_queue). Timestamp 3000 < t} = {(Timestamp 9000, 24)}"
    by (auto simp: sample_queue_eq)
  moreover have "snd ` {(Timestamp 2000, 16), (Timestamp 3000, 8)} = {8, 16 :: nat}" by auto
  ultimately show ?thesis
    using getExpired_exact [OF sample_queue_inv, of "Timestamp 3000"]
    by (auto simp: returns_iff)
qed

text \<open>
  C12. Whatever timers are added and cancelled, inside callbacks or not: in a reachable queue the
  two sets hold the same timers, exactly the allocated ones, and an expiry with callbacks that
  add and cancel timers reads no destroyed timer (it can fail only by a failing \<open>new\<close>) and ends
  with the sets in agreement again.
\<close>

theorem timers_never_dangle:
  assumes "timer_reachable q"
  shows "same_timers q \<and> ends {BadAlloc} (timer_handleRead (run_calls clock calls) clock now q) same_timers"
proof -
  have inv: "tq_inv q {}" by (rule timer_reachable_inv [OF assms])
  have "ends {BadAlloc} (timer_handleRead (run_calls clock calls) clock now q) same_timers"
    using timer_calls.timer_handleRead_ok [OF inv, of clock calls clock now]
    by (rule ends_mono) (simp add: tq_inv_same_timers)
  with tq_inv_same_timers [OF inv] show ?thesis by blast
qed

lemma sample_queue_reachable: "timer_reachable sample_queue"
proof -
  have "fold_res (run_timer_call (Timestamp 1000))
      [AddTimer 8 (FUser 0) (Timestamp 3000) 0, AddTimer 16 (FUser 1) (Timestamp 2000) 1,
       AddTimer 24 (FUser 2) (Timestamp 9000) 0] (mk_timer_queue 0) = Inr sample_queue"
    by (simp add: sample_queue_eq mk_timer_queue_def new_timer_def addTimerInLoop_def
      insert_timer_def get_timer_def resetTimerfd_def howMuchTimeFromNow_def mk_timer_def
      kMicroSecondsPerSecond_def uintptr_max_nat Let_def)
  moreover have "timer_reachable q'" if "timer_reachable q" "fold_res (run_timer_call t) cs q = Inr q'" for t cs q q'
    using that by (induction cs arbitrary: q) (auto simp: bind_res_Inr_iff intro: timer_reachable.called)
  ultimately show ?thesis using timer_reachable.created by blast
qed

theorem timers_never_dangle_witness:
  "same_timers sample_queue \<and> ends {BadAlloc} (timer_handleRead
     (run_calls (Timestamp 3100) (\<lambda>cb q. [CancelTimer (16, 2), AddTimer 32 (FUser 7) (Timestamp 5000) 0]))
     (Timestamp 3100) (Timestamp 3000) sample_queue) same_timers"
  by (rule timers_never_dangle [OF sample_queue_reachable])

text \<open>
  C27. What an expiry does to the timers: every timer whose expiration is not after \<open>now\<close> is
  destroyed, unless it repeats and no callback of the batch cancelled it (the set
  \<open>cancelingTimers_\<close>); then it expires next at \<open>now\<close> plus its interval. Afterwards the timer
  descriptor is set for the earliest timer of the queue.
\<close>

theorem expiry_outcome:
  assumes "timer_reachable q" and "timer_handleRead (run_calls clock calls) clock now q = Inr q'"
    and "tq_heap q p = Some tm" and "tm_expiration tm \<le> now"
  shows "tq_heap q' p = (if tm_repeat tm \<and> (p, tm_sequence tm) \<notin> set (tq_canceling q')
       then Some (tm\<lparr>tm_expiration := addTime now (tm_interval tm)\<rparr>) else None)
     \<and> ((tm_expiration tm, p) \<in> set (tq_timers q') \<longleftrightarrow> tm_repeat tm
          \<and> (p, tm_sequence tm) \<notin> set (tq_canceling q') \<and> addTime now (tm_interval tm) = tm_expiration tm)
     \<and> (tq_timers q' \<noteq> [] \<and> valid (fst (hd (tq_timers q'))) \<longrightarrow>
          tq_timerfd q' = Some (howMuchTimeFromNow clock (fst (hd (tq_timers q')))))"
proof -
  have inv: "tq_inv q {}" by (rule timer_reachable_inv [OF assms(1)])
  have "(tm_expiration tm, p) \<in> set (tq_timers q)"
    using assms(3) by (auto simp: tq_invD(3) [OF inv] live_def)
  then have out: "tq_heap q' p = after_expiry now (tq_canceling q') p (tq_heap q p)" "tq_inv q' {}"
    "tq_timers q' \<noteq> [] \<and> valid (fst (hd (tq_timers q'))) \<longrightarrow>
          tq_timerfd q' = Some (howMuchTimeFromNow clock (fst (hd (tq_timers q'))))"
    using timer_calls.timer_handleRead_ok [OF inv, of clock calls clock now] assms(2,4) by auto
  then show ?thesis
    using assms(3) by (auto simp: after_expiry_def tq_invD(3) [OF out(2)] live_def)
qed

lemma sample_expiry:
  "timer_handleRead (run_calls (Timestamp 3100) (\<lambda>cb q. [])) (Timestamp 3100) (Timestamp 3000) sample_queue
   = Inr (sample_queue\<lparr>
      tq_timers := [(Timestamp 9000, 24), (Timestamp 1003000, 16)],
      tq_active := [(16, 2), (24, 3)],
      tq_heap := [16 \<mapsto> mk_timer (FUser 1) (Timestamp 1003000) 1 2,
                  24 \<mapsto> mk_timer (FUser 2) (Timestamp 9000) 0 3],
      tq_timerfd := Some (0, 5900000)\<rparr>)"
  by (auto simp: sample_queue_eq timer_handleRead_def getExpired_def before_bound_def from_bound_def
      uintptr_max_nat Let_def get_timer_def set_erase_def mk_timer_def run_timer_def run_calls_def
      reset_queue_def insert_timer_def restart_timer_def addTime_def trunc_rat_def valid_def
      kMicroSecondsPerSecond_def resetTimerfd_def howMuchTimeFromNow_def fun_eq_iff)

theorem expiry_outcome_witness:
  "\<exists>q'. timer_handleRead (run_calls (Timestamp 3100) (\<lambda>cb q. [])) (Timestamp 3100) (Timestamp 3000)
       sample_queue = Inr q' \<and> tq_heap q' 8 = None \<and> tq_timerfd q' = Some (0, 5900000)
     \<and> tq_heap q' 16 = Some (mk_timer (FUser 1) (Timestamp 1003000) 1 2)"
  using expiry_outcome [OF sample_queue_reachable sample_expiry, of 16 "mk_timer (FUser 1) (Timestamp 2000) 1 2"]
    expiry_outcome [OF sample_queue_reachable sample_expiry, of 8 "mk_timer (FUser 0) (Timestamp 3000) 0 1"]
  unfolding sample_expiry by (simp add: sample_queue_eq mk_timer_def fun_upd_twist)

text \<open>
  C28. Cancelling from a callback is final: when a callback of the batch cancels a timer that
  expires in the same batch, even one that repeats or the callback's own timer, it is destroyed
  and not armed again.
\<close>

theorem cancel_in_callback_final:
  assumes "timer_reachable q" and "timer_handleRead (run_calls clock calls) clock now q = Inr q'"
    and "tq_heap q p = Some tm" and "tm_expiration tm \<le> now"
    and "tq_heap q d = Some other" and "tm_expiration other \<le> now"
    and "\<forall>s. CancelTimer (p, tm_sequence tm) \<in> set (calls (tm_callback other) s)"
  shows "tq_heap q' p = None \<and> p \<notin> snd ` set (tq_timers q')"
proof -
  have inv: "tq_inv q {}" by (rule timer_reachable_inv [OF assms(1)])
  obtain es q1 where q1: "getExpired now q = Inr (es, q1)"
    "set es = {(t, p) \<in> set (tq_timers q). t \<le> now}" "tq_inv q1 (snd ` set es)"
    "tq_heap q1 = tq_heap q"
    using getExpired_ok [OF inv, of now] by blast
  have in_es: "(tm_expiration x, y) \<in> set es" if "tq_heap q y = Some x" "tm_expiration x \<le> now" for x y
    using that by (auto simp: q1(2) tq_invD(3) [OF inv] live_def)
  let ?q2 = "q1\<lparr>tq_calling := True, tq_canceling := []\<rparr>"
  have inv2: "tq_inv ?q2 (snd ` set es)" using q1(3) by simp
  obtain q3 where q3: "fold_res (run_timer (run_calls clock calls)) es ?q2 = Inr q3"
    "reset_queue clock now es (q3\<lparr>tq_calling := False\<rparr>) = Inr q'"
    using assms(2) q1(1) by (auto simp: timer_handleRead_def bind_res_Inr_iff)
  have p: "p \<in> snd ` set es" using in_es [OF assms(3,4)] by force
  have inv3: "tq_inv (q3\<lparr>tq_calling := False\<rparr>) (snd ` set es)" "tq_heap q3 p = Some tm"
    using timer_calls.run_expired_ok [OF inv2, of es clock calls] q3(1) p q1(4) assms(3) by auto
  have "(p, tm_sequence tm) \<in> set (tq_canceling q3)"
    by (rule run_expired_cancel_remembered [OF inv2 _ p _ in_es [OF assms(5,6)] _ assms(7) q3(1)])
      (use q1(4) assms(5) in auto)
  moreover have "distinct (map snd es)"
  proof -
    have "oset es" using getExpired_ok [OF inv, of now] q1(1) by auto
    then show ?thesis using q1(2) by (intro expired_distinct [OF inv]) auto
  qed
  ultimately have "tq_heap q' p = None" "tq_inv q' {}"
    using reset_queue_ok [OF inv3(1), of clock now] q3(2) p inv3(2) by (auto simp: after_expiry_def)
  then show ?thesis using tq_inv_same_timers [of q'] by (auto simp: same_timers_def)
qed

lemma sample_expiry_cancel:
  "timer_handleRead (run_calls (Timestamp 3100) (\<lambda>cb q. [CancelTimer (16, 2)])) (Timestamp 3100)
     (Timestamp 3000) sample_queue
   = Inr (sample_queue\<lparr>
      tq_timers := [(Timestamp 9000, 24)], tq_active := [(24, 3)], tq_canceling := [(16, 2)],
      tq_heap := [24 \<mapsto> mk_timer (FUser 2) (Timestamp 9000) 0 3],
      tq_timerfd := Some (0, 5900000)\<rparr>)"
  by (auto simp: sample_queue_eq timer_handleRead_def getExpired_def before_bound_def from_bound_def
      uintptr_max_nat Let_def get_timer_def set_erase_def mk_timer_def run_timer_def run_calls_def
      reset_queue_def valid_def cancelInLoop_def
      kMicroSecondsPerSecond_def resetTimerfd_def howMuchTimeFromNow_def fun_eq_iff)

theorem cancel_in_callback_final_witness:
  "\<exists>q'. timer_handleRead (run_calls (Timestamp 3100) (\<lambda>cb q. [CancelTimer (16, 2)])) (Timestamp 3100)
       (Timestamp 3000) sample_queue = Inr q' \<and> tq_heap q' 16 = None \<and> 16 \<notin> snd ` set (tq_timers q')"
  using cancel_in_callback_final [OF sample_queue_reachable sample_expiry_cancel,
      of 16 "mk_timer (FUser 1) (Timestamp 2000) 1 2" 8 "mk_timer (FUser 0) (Timestamp 3000) 0 1"]
  unfolding sample_expiry_cancel by (simp add: sample_queue_eq mk_timer_def)

text \<open>
  C33. The time set on the descriptor is a legal one: whole seconds and less than a second in
  nanoseconds, together the distance to the expiration but at least 100 microseconds, so never
  zero, which would disarm it.
\<close>

theorem timerfd_time_legal:
  "case howMuchTimeFromNow clock t of (s, ns) \<Rightarrow> 0 \<le> s \<and> 0 \<le> ns \<and> ns < 10 ^ 9 \<and> (s, ns) \<noteq> (0, 0)
     \<and> s * 10 ^ 9 + ns = 1000 * max 100 (microSecondsSinceEpoch t - microSecondsSinceEpoch clock)"
proof -
  define d where "d = max 100 (microSecondsSinceEpoch t - microSecondsSinceEpoch clock)"
  have "howMuchTimeFromNow clock t = (d div 1000000, d mod 1000000 * 1000)"
    by (simp add: howMuchTimeFromNow_def kMicroSecondsPerSecond_def Let_def d_def max_def)
  moreover have "0 \<le> d div 1000000" "0 \<le> d mod 1000000" "d mod 1000000 < 1000000"
    by (simp_all add: pos_imp_zdiv_nonneg_iff d_def)
  moreover have "d div 1000000 * 1000000000 + d mod 1000000 * 1000 = 1000 * d"
    using div_mult_mod_eq [of d 1000000] by linarith
  moreover have "100 \<le> d" by (simp add: d_def)
  ultimately show ?thesis unfolding d_def [symmetric] by auto
qed

text \<open>
  C32. Adding a timer keeps the descriptor set for the earliest expiration: it is set again exactly
  when the new timer is earlier than every other, and the timer is in both sets afterwards.
\<close>

theorem addTimer_arms_earliest:
  assumes "timer_reachable q" and "tq_heap q p = None" and "p < uintptr_max"
  shows "returns (run_timer_call clock (AddTimer p cb t i) q) (\<lambda>q'.
       set (tq_timers q') = insert (t, p) (set (tq_timers q))
     \<and> set (tq_active q') = insert (p, tq_numCreated q + 1) (set (tq_active q))
     \<and> tq_timerfd q' = (if \<forall>e \<in> set (tq_timers q). t < fst e
          then Some (howMuchTimeFromNow clock t) else tq_timerfd q))"
proof -
  have inv: "tq_inv q {}" by (rule timer_reachable_inv [OF assms(1)])
  obtain q1 where q1: "new_timer p cb t i q = Inr q1"
    "tq_heap q1 = (tq_heap q)(p \<mapsto> mk_timer cb t i (tq_numCreated q + 1))"
    "tq_timers q1 = tq_timers q" "tq_active q1 = tq_active q" "tq_timerfd q1 = tq_timerfd q"
    using assms(2,3) by (simp add: new_timer_def Let_def)
  have "tq_inv q1 {p}" using tq_inv_new [OF inv q1(1)] by simp
  from addTimerInLoop_ok [OF this, of p _ clock] q1
  have "returns (addTimerInLoop clock p q1) (\<lambda>q'. tq_inv q' {} \<and> tq_heap q' = tq_heap q1
     \<and> set (tq_timers q') = insert (t, p) (set (tq_timers q))
     \<and> tq_timerfd q' = (if \<forall>e \<in> set (tq_timers q). t < fst e
          then Some (howMuchTimeFromNow clock t) else tq_timerfd q))"
    by (simp add: mk_timer_def returns_mono)
  then have "returns (addTimerInLoop clock p q1) (\<lambda>q'.
       set (tq_timers q') = insert (t, p) (set (tq_timers q))
     \<and> set (tq_active q') = insert (p, tq_numCreated q + 1) (set (tq_active q))
     \<and> tq_timerfd q' = (if \<forall>e \<in> set (tq_timers q). t < fst e
          then Some (howMuchTimeFromNow clock t) else tq_timerfd q))"
  proof (rule returns_mono)
    fix q'
    assume *: "tq_inv q' {} \<and> tq_heap q' = tq_heap q1
     \<and> set (tq_timers q') = insert (t, p) (set (tq_timers q))
     \<and> tq_timerfd q' = (if \<forall>e \<in> set (tq_timers q). t < fst e
          then Some (howMuchTimeFromNow clock t) else tq_timerfd q)"
    have "(d, s) \<in> set (tq_active q') \<longleftrightarrow> (d, s) \<in> insert (p, tq_numCreated q + 1) (set (tq_active q))" for d s
      using * assms(2) by (auto simp: tq_invD(4) [of q' "{}"] tq_invD(4) [OF inv] live_def q1(2) mk_timer_def)
    with * show "set (tq_timers q') = insert (t, p) (set (tq_timers q))
     \<and> set (tq_active q') = insert (p, tq_numCreated q + 1) (set (tq_active q))
     \<and> tq_timerfd q' = (if \<forall>e \<in> set (tq_timers q). t < fst e
          then Some (howMuchTimeFromNow clock t) else tq_timerfd q)" by auto
  qed
  with q1(1) show ?thesis by simp
qed

theorem addTimer_arms_earliest_witness:
  "returns (run_timer_call (Timestamp 1500) (AddTimer 32 (FUser 9) (Timestamp 2500) 0) sample_queue)
     (\<lambda>q'. tq_timerfd q' = tq_timerfd sample_queue \<and> (32, 4) \<in> set (tq_active q'))"
proof -
  have "tq_heap sample_queue 32 = None" "32 < uintptr_max"
    by (simp_all add: sample_queue_eq uintptr_max_nat)
  from addTimer_arms_earliest [OF sample_queue_reachable this, of "Timestamp 1500" "FUser 9" "Timestamp 2500" 0]
  show ?thesis by (auto simp: sample_queue_eq returns_iff)
qed

text \<open>
  C34. The clock of the class Timestamp counts seconds, but delays are added in microseconds: a
  timer for \<open>n\<close> seconds from now arms the descriptor for \<open>n\<close> seconds, but at any clock reading
  less than \<open>n\<close> million seconds later the expiry finds nothing to run; it runs no callback and
  only sets the descriptor again.
\<close>

theorem delay_is_a_million_times_long:
  assumes "0 < n" and "0 \<le> t" and "t' < t + n * 10 ^ 6" and "p < uintptr_max"
  shows "\<exists>q. run_timer_call (now_timestamp t)
         (AddTimer p cb (addTime (now_timestamp t) (of_int n)) 0) (mk_timer_queue k) = Inr q
     \<and> tq_timerfd q = Some (n, 0)
     \<and> timer_handleRead run (now_timestamp t') (now_timestamp t') q
         = Inr (q\<lparr>tq_timerfd := Some (howMuchTimeFromNow (now_timestamp t') (addTime (now_timestamp t) (of_int n))),
                  tq_canceling := []\<rparr>)"
  using assms
  by (simp add: mk_timer_queue_def new_timer_def addTimerInLoop_def insert_timer_def get_timer_def
      resetTimerfd_def howMuchTimeFromNow_def mk_timer_def kMicroSecondsPerSecond_def Let_def
      now_timestamp_def addTime_of_int timer_handleRead_def getExpired_def before_bound_def
      from_bound_def reset_queue_def valid_def)

theorem delay_is_a_million_times_long_witness:
  "\<exists>q. tq_timerfd q = Some (3, 0)
     \<and> timer_handleRead (\<lambda>cb q. Inl BadFunctionCall) (now_timestamp 1010) (now_timestamp 1010) q
         = Inr (q\<lparr>tq_timerfd := Some (2, 999990000), tq_canceling := []\<rparr>)"
  using delay_is_a_million_times_long [of 3 1000 1010 8 "FUser 0" 0 "\<lambda>cb q. Inl BadFunctionCall"]
  by (auto simp: uintptr_max_nat now_timestamp_def addTime_def trunc_rat_def kMicroSecondsPerSecond_def
      howMuchTimeFromNow_def)

end
