(* ===== verification/Reactor.thy ===== *)
theory Reactor
  imports Poller TimerQueue
begin

text \<open>
  EventLoop.h, EventLoop.cc, CurrentThread.h and CurrentThread.cc, and the operations of Channel
  and TimerQueue that reach the loop. The record \<open>net\<close> is the shared state: the channels and the
  event loops by address, and the thread that runs. A thread executes one operation, one handler
  or one functor at a time; other threads act between them (the \<open>others\<close> of an iteration here,
  and step by step in the theory Wakeup). The connection layer extends the record.
\<close>

section \<open>State\<close>

text \<open>
  \<open>el_calling\<close> is \<open>callingPendingFunctors_\<close>, \<open>wakeups\<close> the counter of the eventfd behind
  \<open>wakeupFd_\<close>. \<open>timerQueue_\<close> is a null pointer as long as nothing sets it.
\<close>

record evloop =
  looping :: bool
  quit_flag :: bool
  el_calling :: bool
  threadId :: nat
  el_poller :: poller
  wakeupFd :: int
  wakeupChannel :: nat
  wakeups :: nat
  pendingFunctors :: "Functor list"
  activeChannels :: "nat list"
  timerQueue :: "timer_queue option"

text \<open>\<open>n_tid\<close> is \<open>CurrentThread::tid()\<close>, \<open>n_loopInThisThread\<close> the thread-local pointer.\<close>

record net =
  n_tid :: nat
  n_chans :: "nat \<Rightarrow> channel option"
  n_loops :: "nat \<Rightarrow> evloop option"
  n_loopInThisThread :: "nat \<Rightarrow> nat option"

definition get_loop :: "nat \<Rightarrow> 'a net_scheme \<Rightarrow> evloop res" where
  "get_loop l w = deref UseAfterFree (n_loops w l)"

definition get_chan :: "nat \<Rightarrow> 'a net_scheme \<Rightarrow> channel res" where
  "get_chan c w = deref UseAfterFree (n_chans w c)"

definition put_loop :: "nat \<Rightarrow> evloop \<Rightarrow> 'a net_scheme \<Rightarrow> 'a net_scheme" where
  "put_loop l el w = w\<lparr>n_loops := (n_loops w)(l \<mapsto> el)\<rparr>"

definition put_chan :: "nat \<Rightarrow> channel \<Rightarrow> 'a net_scheme \<Rightarrow> 'a net_scheme" where
  "put_chan c ch w = w\<lparr>n_chans := (n_chans w)(c \<mapsto> ch)\<rparr>"

section \<open>Waking the loop and queueing functors\<close>

definition isInLoopThread :: "nat \<Rightarrow> 'a net_scheme \<Rightarrow> bool res" where
  "isInLoopThread l w = bind_res (get_loop l w) (\<lambda>el. Inr (threadId el = n_tid w))"

text \<open>
  \<open>write\<close> of the number 1 to the non-blocking eventfd fails (and is logged) only when the
  counter is at its maximum; \<open>read\<close> takes the counter and resets it, or fails on zero.
\<close>

definition eventfd_max :: nat where "eventfd_max = 2 ^ 64 - 2"

definition write_eventfd :: "evloop \<Rightarrow> evloop" where
  "write_eventfd el = (if wakeups el < eventfd_max then el\<lparr>wakeups := wakeups el + 1\<rparr> else el)"

definition read_eventfd :: "evloop \<Rightarrow> evloop" where
  "read_eventfd el = el\<lparr>wakeups := 0\<rparr>"

definition wakeup :: "nat \<Rightarrow> 'a net_scheme \<Rightarrow> 'a net_scheme res" where
  "wakeup l w = bind_res (get_loop l w) (\<lambda>el. Inr (put_loop l (write_eventfd el) w))"

text \<open>The locked block of \<open>queueInLoop\<close>, and its test.\<close>

definition push_functor :: "Functor \<Rightarrow> evloop \<Rightarrow> evloop" where
  "push_functor f el = el\<lparr>pendingFunctors := pendingFunctors el @ [f]\<rparr>"

definition needs_wakeup :: "nat \<Rightarrow> evloop \<Rightarrow> bool" where
  "needs_wakeup tid el \<longleftrightarrow> threadId el \<noteq> tid \<or> el_calling el"

definition queueInLoop :: "nat \<Rightarrow> Functor \<Rightarrow> 'a net_scheme \<Rightarrow> 'a net_scheme res" where
  "queueInLoop l f w =
     bind_res (get_loop l w) (\<lambda>el.
       let el = push_functor f el; w = put_loop l el w in
       if needs_wakeup (n_tid w) el then wakeup l w else Inr w)"

text \<open>\<open>act\<close> is what calling the functor \<open>f\<close> does.\<close>

definition runInLoop :: "nat \<Rightarrow> Functor \<Rightarrow> ('a net_scheme \<Rightarrow> 'a net_scheme res) \<Rightarrow>
    'a net_scheme \<Rightarrow> 'a net_scheme res" where
  "runInLoop l f act w =
     bind_res (isInLoopThread l w) (\<lambda>here. if here then act w else queueInLoop l f w)"

definition loop_handleRead :: "nat \<Rightarrow> 'a net_scheme \<Rightarrow> 'a net_scheme res" where
  "loop_handleRead l w = bind_res (get_loop l w) (\<lambda>el. Inr (put_loop l (read_eventfd el) w))"

definition loop_quit :: "nat \<Rightarrow> 'a net_scheme \<Rightarrow> 'a net_scheme res" where
  "loop_quit l w =
     bind_res (get_loop l w) (\<lambda>el.
       let w = put_loop l (el\<lparr>quit_flag := True\<rparr>) w in
       bind_res (isInLoopThread l w) (\<lambda>here. if here then Inr w else wakeup l w))"

section \<open>Channels and their loop\<close>

definition loop_updateChannel :: "nat \<Rightarrow> nat \<Rightarrow> 'a net_scheme \<Rightarrow> 'a net_scheme res" where
  "loop_updateChannel l c w =
     bind_res (get_loop l w) (\<lambda>el. bind_res (get_chan c w) (\<lambda>ch.
       bind_res (updateChannel c ch (el_poller el)) (\<lambda>(ch, p).
         Inr (put_chan c ch (put_loop l (el\<lparr>el_poller := p\<rparr>) w)))))"

definition loop_removeChannel :: "nat \<Rightarrow> nat \<Rightarrow> 'a net_scheme \<Rightarrow> 'a net_scheme res" where
  "loop_removeChannel l c w =
     bind_res (get_loop l w) (\<lambda>el. bind_res (get_chan c w) (\<lambda>ch.
       bind_res (removeChannel c ch (el_poller el)) (\<lambda>(ch, p).
         Inr (put_chan c ch (put_loop l (el\<lparr>el_poller := p\<rparr>) w)))))"

definition loop_hasChannel :: "nat \<Rightarrow> nat \<Rightarrow> 'a net_scheme \<Rightarrow> bool res" where
  "loop_hasChannel l c w =
     bind_res (get_loop l w) (\<lambda>el. bind_res (get_chan c w) (\<lambda>ch.
       Inr (hasChannel c ch (el_poller el))))"

text \<open>
  \<open>enableReading\<close> and its four companions: change the mask, then \<open>update()\<close>; and \<open>remove()\<close>.
\<close>

definition change_mask :: "mask_change \<Rightarrow> nat \<Rightarrow> 'a net_scheme \<Rightarrow> 'a net_scheme res" where
  "change_mask m c w =
     bind_res (get_chan c w) (\<lambda>ch.
       loop_updateChannel (ch_loop ch) c
         (put_chan c (ch\<lparr>ch_events := change_events m (ch_events ch)\<rparr>) w))"

definition chan_remove :: "nat \<Rightarrow> 'a net_scheme \<Rightarrow> 'a net_scheme res" where
  "chan_remove c w = bind_res (get_chan c w) (\<lambda>ch. loop_removeChannel (ch_loop ch) c w)"

section \<open>The loop\<close>

text \<open>
  \<open>doPendingFunctors\<close>: \<open>run\<close> calls a functor. The vector is swapped out first, so a functor
  queued meanwhile goes to the next iteration.
\<close>

definition doPendingFunctors :: "(Functor \<Rightarrow> 'a net_scheme \<Rightarrow> 'a net_scheme res) \<Rightarrow> nat \<Rightarrow>
    'a net_scheme \<Rightarrow> 'a net_scheme res" where
  "doPendingFunctors run l w =
     bind_res (get_loop l w) (\<lambda>el.
       let functors = pendingFunctors el;
           w = put_loop l (el\<lparr>el_calling := True, pendingFunctors := []\<rparr>) w in
       bind_res (fold_res run functors w) (\<lambda>w.
         bind_res (get_loop l w) (\<lambda>el. Inr (put_loop l (el\<lparr>el_calling := False\<rparr>) w))))"

text \<open>
  One round of \<open>loop()\<close>: \<open>call\<close> runs a channel callback, \<open>alive\<close> is the \<open>lock()\<close> of a tie.
\<close>

definition handle_active :: "(handler \<Rightarrow> 'a net_scheme \<Rightarrow> 'a net_scheme res) \<Rightarrow>
    (nat \<Rightarrow> 'a net_scheme \<Rightarrow> bool) \<Rightarrow> nat list \<Rightarrow> 'a net_scheme \<Rightarrow> 'a net_scheme res" where
  "handle_active call alive active w = fold_res (\<lambda>c. handleEvent (get_chan c) call alive) active w"

definition loop_iteration :: "(handler \<Rightarrow> 'a net_scheme \<Rightarrow> 'a net_scheme res) \<Rightarrow>
    (nat \<Rightarrow> 'a net_scheme \<Rightarrow> bool) \<Rightarrow> (Functor \<Rightarrow> 'a net_scheme \<Rightarrow> 'a net_scheme res) \<Rightarrow> nat \<Rightarrow>
    poll_env \<Rightarrow> 'a net_scheme \<Rightarrow> 'a net_scheme res" where
  "loop_iteration call alive run l env w =
     bind_res (get_loop l w) (\<lambda>el.
       bind_res (poll env (el_poller el) (n_chans w)) (\<lambda>(p, cs, active).
         let w = put_loop l (el\<lparr>el_poller := p, activeChannels := active\<rparr>) (w\<lparr>n_chans := cs\<rparr>) in
         bind_res (handle_active call alive active w) (doPendingFunctors run l)))"

text \<open>
  The while loop over a finite run of the environment: before each poll the other threads do
  \<open>others\<close>. A run that is used up leaves the loop running (\<open>looping\<close> is still true).
\<close>

fun loop_while :: "(handler \<Rightarrow> 'a net_scheme \<Rightarrow> 'a net_scheme res) \<Rightarrow>
    (nat \<Rightarrow> 'a net_scheme \<Rightarrow> bool) \<Rightarrow> (Functor \<Rightarrow> 'a net_scheme \<Rightarrow> 'a net_scheme res) \<Rightarrow> nat \<Rightarrow>
    (('a net_scheme \<Rightarrow> 'a net_scheme res) \<times> poll_env) list \<Rightarrow> 'a net_scheme \<Rightarrow> 'a net_scheme res" where
  "loop_while call alive run l [] w = Inr w"
| "loop_while call alive run l ((others, env) # envs) w =
     bind_res (get_loop l w) (\<lambda>el.
       if quit_flag el then Inr (put_loop l (el\<lparr>looping := False\<rparr>) w)
       else bind_res (others w) (\<lambda>w. bind_res (loop_iteration call alive run l env w)
              (loop_while call alive run l envs)))"

definition loop_run :: "(handler \<Rightarrow> 'a net_scheme \<Rightarrow> 'a net_scheme res) \<Rightarrow>
    (nat \<Rightarrow> 'a net_scheme \<Rightarrow> bool) \<Rightarrow> (Functor \<Rightarrow> 'a net_scheme \<Rightarrow> 'a net_scheme res) \<Rightarrow> nat \<Rightarrow>
    (('a net_scheme \<Rightarrow> 'a net_scheme res) \<times> poll_env) list \<Rightarrow> 'a net_scheme \<Rightarrow> 'a net_scheme res" where
  "loop_run call alive run l envs w =
     bind_res (get_loop l w) (\<lambda>el.
       loop_while call alive run l envs (put_loop l (el\<lparr>looping := True, quit_flag := False\<rparr>) w))"

section \<open>Construction and destruction\<close>

text \<open>
  \<open>EventLoop::EventLoop()\<close> at address \<open>l\<close> with the wakeup channel at \<open>c\<close>: \<open>epollfd\<close> and \<open>fd\<close> are
  what \<open>epoll_create1\<close> and \<open>eventfd\<close> return, \<open>use_poll\<close> whether MUDUO_USE_POLL is set. The member \<open>timerQueue_\<close> keeps
  its default, the null pointer.
\<close>

definition mk_loop :: "nat \<Rightarrow> poller \<Rightarrow> int \<Rightarrow> nat \<Rightarrow> evloop" where
  "mk_loop tid p fd c =
     \<lparr>looping = False, quit_flag = False, el_calling = False, threadId = tid, el_poller = p,
      wakeupFd = fd, wakeupChannel = c, wakeups = 0, pendingFunctors = [], activeChannels = [],
      timerQueue = None\<rparr>"

definition new_loop :: "bool \<Rightarrow> int \<Rightarrow> (ctl_op \<Rightarrow> int \<Rightarrow> bool) \<Rightarrow> nat \<Rightarrow> nat \<Rightarrow> int \<Rightarrow>
    'a net_scheme \<Rightarrow> 'a net_scheme res" where
  "new_loop use_poll epollfd ref l c fd w =
     bind_res (newDefaultPoller use_poll epollfd ref) (\<lambda>poller.
      if fd < 0 then Inl (LogFatal ''eventfd error'')
      else if n_chans w c \<noteq> None \<or> n_loops w l \<noteq> None then Inl BadAlloc
      else if n_loopInThisThread w (n_tid w) \<noteq> None
      then Inl (LogFatal ''Anthor EventLoop exists in this thread'')
      else bind_res (deref NullPointer poller) (\<lambda>p.
        change_mask EnableReading c
          (put_chan c (setReadCallback (LoopHandleRead l) (mk_channel l fd))
            (put_loop l (mk_loop (n_tid w) p fd c)
              (w\<lparr>n_loopInThisThread := (n_loopInThisThread w)(n_tid w \<mapsto> l)\<rparr>)))))"

definition destroy_loop :: "nat \<Rightarrow> 'a net_scheme \<Rightarrow> 'a net_scheme res" where
  "destroy_loop l w =
     bind_res (get_loop l w) (\<lambda>el.
       bind_res (change_mask DisableAll (wakeupChannel el) w) (\<lambda>w.
       bind_res (chan_remove (wakeupChannel el) w) (\<lambda>w.
         Inr (w\<lparr>n_loopInThisThread := (n_loopInThisThread w)(n_tid w := None),
                n_chans := (n_chans w)(wakeupChannel el := None),
                n_loops := (n_loops w)(l := None)\<rparr>))))"

section \<open>Timers through the loop\<close>

definition with_timers :: "nat \<Rightarrow> (timer_queue \<Rightarrow> timer_queue res) \<Rightarrow> 'a net_scheme \<Rightarrow>
    'a net_scheme res" where
  "with_timers l f w =
     bind_res (get_loop l w) (\<lambda>el. bind_res (deref NullPointer (timerQueue el)) (\<lambda>q.
       bind_res (f q) (\<lambda>q. Inr (put_loop l (el\<lparr>timerQueue := Some q\<rparr>) w))))"

text \<open>
  \<open>TimerQueue::TimerQueue\<close> and \<open>~TimerQueue\<close> with their channel at \<open>d\<close>; \<open>created\<close> is the class-wide count
  of timers. No constructor of the program calls the first.
\<close>

definition new_timer_queue :: "nat \<Rightarrow> nat \<Rightarrow> int \<Rightarrow> int \<Rightarrow> 'a net_scheme \<Rightarrow>
    (timer_queue \<times> 'a net_scheme) res" where
  "new_timer_queue l d fd created w =
     bind_res (createTimerfd fd w) (\<lambda>w.
       if n_chans w d \<noteq> None then Inl BadAlloc
       else bind_res (change_mask EnableReading d (put_chan d (setReadCallback (TimerHandleRead l) (mk_channel l fd)) w))
         (\<lambda>w. Inr (mk_timer_queue created, w)))"

definition destroy_timer_queue :: "nat \<Rightarrow> timer_queue \<Rightarrow> 'a net_scheme \<Rightarrow> (timer_queue \<times> 'a net_scheme) res" where
  "destroy_timer_queue d q w =
     bind_res (change_mask DisableAll d w) (\<lambda>w. bind_res (chan_remove d w) (\<lambda>w.
     bind_res (delete_timers (tq_timers q) q) (\<lambda>q. Inr (q, w\<lparr>n_chans := (n_chans w)(d := None)\<rparr>))))"

text \<open>\<open>TimerQueue::addTimer\<close> and \<open>TimerQueue::cancel\<close>; \<open>p\<close> is the address of the new timer.\<close>

definition tq_addTimer :: "timestamp \<Rightarrow> nat \<Rightarrow> nat \<Rightarrow> Functor \<Rightarrow> timestamp \<Rightarrow> rat \<Rightarrow>
    'a net_scheme \<Rightarrow> 'a net_scheme res" where
  "tq_addTimer clock l p cb time interval w =
     bind_res (with_timers l (new_timer p cb time interval) w)
       (runInLoop l (FAddTimerInLoop p) (with_timers l (addTimerInLoop clock p)))"

definition tq_cancel :: "nat \<Rightarrow> nat \<times> int \<Rightarrow> 'a net_scheme \<Rightarrow> 'a net_scheme res" where
  "tq_cancel l tid w =
     runInLoop l (FCancelInLoop (fst tid) (snd tid)) (with_timers l (cancelInLoop tid)) w"

definition runAt :: "timestamp \<Rightarrow> nat \<Rightarrow> nat \<Rightarrow> timestamp \<Rightarrow> Functor \<Rightarrow> 'a net_scheme \<Rightarrow>
    'a net_scheme res" where
  "runAt clock l p time cb w = tq_addTimer clock l p cb time 0 w"

definition runAfter :: "timestamp \<Rightarrow> timestamp \<Rightarrow> nat \<Rightarrow> nat \<Rightarrow> rat \<Rightarrow> Functor \<Rightarrow> 'a net_scheme \<Rightarrow>
    'a net_scheme res" where
  "runAfter now clock l p delay cb w = runAt clock l p (addTime now delay) cb w"

section \<open>Reading the state back\<close>

lemma net_simps [simp]:
  "n_loops (put_loop l el w) = (n_loops w)(l \<mapsto> el)"
  "n_chans (put_loop l el w) = n_chans w"
  "n_tid (put_loop l el w) = n_tid w"
  "n_loopInThisThread (put_loop l el w) = n_loopInThisThread w"
  "net.more (put_loop l el w) = net.more w"
  "n_loops (put_chan c ch w) = n_loops w"
  "n_chans (put_chan c ch w) = (n_chans w)(c \<mapsto> ch)"
  "n_tid (put_chan c ch w) = n_tid w"
  "n_loopInThisThread (put_chan c ch w) = n_loopInThisThread w"
  "net.more (put_chan c ch w) = net.more w"
  by (simp_all add: put_loop_def put_chan_def)

lemma get_simps [simp]:
  "n_loops w l = Some el \<Longrightarrow> get_loop l w = Inr el"
  "n_chans w c = Some ch \<Longrightarrow> get_chan c w = Inr ch"
  by (simp_all add: get_loop_def get_chan_def)

lemma get_Inr [simp]:
  "get_loop l w = Inr el \<longleftrightarrow> n_loops w l = Some el"
  "get_chan c w = Inr ch \<longleftrightarrow> n_chans w c = Some ch"
  by (simp_all add: get_loop_def get_chan_def)

lemma put_twice [simp]:
  "put_loop l el (put_loop l el' w) = put_loop l el w"
  "put_chan c ch (put_chan c ch' w) = put_chan c ch w"
  "put_chan c ch (put_loop l el (put_chan c ch' w)) = put_chan c ch (put_loop l el w)"
  by (simp_all add: put_loop_def put_chan_def)

lemma eventfd_simps [simp]:
  "pendingFunctors (write_eventfd el) = pendingFunctors el"
  "threadId (write_eventfd el) = threadId el"
  "el_calling (write_eventfd el) = el_calling el"
  "el_poller (write_eventfd el) = el_poller el"
  "quit_flag (write_eventfd el) = quit_flag el"
  "looping (write_eventfd el) = looping el"
  "wakeupFd (write_eventfd el) = wakeupFd el"
  "wakeupChannel (write_eventfd el) = wakeupChannel el"
  "timerQueue (write_eventfd el) = timerQueue el"
  "pendingFunctors (push_functor f el) = pendingFunctors el @ [f]"
  "threadId (push_functor f el) = threadId el"
  "el_calling (push_functor f el) = el_calling el"
  "el_poller (push_functor f el) = el_poller el"
  "quit_flag (push_functor f el) = quit_flag el"
  "looping (push_functor f el) = looping el"
  "wakeupFd (push_functor f el) = wakeupFd el"
  "wakeupChannel (push_functor f el) = wakeupChannel el"
  "timerQueue (push_functor f el) = timerQueue el"
  "wakeups (push_functor f el) = wakeups el"
  "needs_wakeup t (push_functor f el) = needs_wakeup t el"
  by (simp_all add: write_eventfd_def push_functor_def needs_wakeup_def)

text \<open>A written eventfd is readable: the counter is not zero, also when the write failed.\<close>

lemma write_eventfd_pos: "0 < wakeups (write_eventfd el)" "wakeups el \<le> wakeups (write_eventfd el)"
  by (simp_all add: write_eventfd_def eventfd_max_def)

text \<open>The operations on the loop as equations.\<close>

definition queued :: "nat \<Rightarrow> Functor \<Rightarrow> evloop \<Rightarrow> evloop" where
  "queued tid f el =
     (if needs_wakeup tid el then write_eventfd (push_functor f el) else push_functor f el)"

lemma queueInLoop_eq:
  "n_loops w l = Some el \<Longrightarrow> queueInLoop l f w = Inr (put_loop l (queued (n_tid w) f el) w)"
  by (simp add: queueInLoop_def wakeup_def queued_def Let_def)

lemma queued_simps [simp]:
  "pendingFunctors (queued t f el) = pendingFunctors el @ [f]"
  "threadId (queued t f el) = threadId el"
  "el_calling (queued t f el) = el_calling el"
  "el_poller (queued t f el) = el_poller el"
  "quit_flag (queued t f el) = quit_flag el"
  "looping (queued t f el) = looping el"
  "wakeupFd (queued t f el) = wakeupFd el"
  "wakeupChannel (queued t f el) = wakeupChannel el"
  "timerQueue (queued t f el) = timerQueue el"
  "needs_wakeup t (queued t' f el) = needs_wakeup t el"
  by (simp_all add: queued_def needs_wakeup_def)

lemma queued_wakes: "needs_wakeup t el \<Longrightarrow> 0 < wakeups (queued t f el)"
  by (simp add: queued_def write_eventfd_pos)

lemma queued_wakeups: "wakeups el \<le> wakeups (queued t f el)"
  using write_eventfd_pos(2) [of "push_functor f el"] by (simp add: queued_def)

section \<open>Pollers and channels of a net\<close>

definition net_inv :: "'a net_scheme \<Rightarrow> bool" where
  "net_inv w \<longleftrightarrow> (\<forall>l el. n_loops w l = Some el \<longrightarrow> poller_inv l (el_poller el) (n_chans w))"

text \<open>The channel \<open>c\<close> is live, its loop as well, and it may be registered there.\<close>

definition chan_ok :: "nat \<Rightarrow> channel \<Rightarrow> evloop \<Rightarrow> 'a net_scheme \<Rightarrow> bool" where
  "chan_ok c ch el w \<longleftrightarrow> n_chans w c = Some ch \<and> n_loops w (ch_loop ch) = Some el
     \<and> may_add (el_poller el) ch"

lemma net_invD: "net_inv w \<Longrightarrow> n_loops w l = Some el \<Longrightarrow> poller_inv l (el_poller el) (n_chans w)"
  by (simp add: net_inv_def)

text \<open>A loop's other fields are not part of the invariant.\<close>

lemma net_inv_put_loop:
  "net_inv w \<Longrightarrow> n_loops w l = Some el \<Longrightarrow> el_poller el' = el_poller el \<Longrightarrow> net_inv (put_loop l el' w)"
  by (auto simp: net_inv_def)

definition synced :: "nat \<Rightarrow> channel \<Rightarrow> evloop \<Rightarrow> evloop" where
  "synced c ch el = el\<lparr>el_poller := sync c ch (el_poller el)\<rparr>"

lemma synced_simps [simp]:
  "pendingFunctors (synced c ch el) = pendingFunctors el"
  "threadId (synced c ch el) = threadId el"
  "el_calling (synced c ch el) = el_calling el"
  "el_poller (synced c ch el) = sync c ch (el_poller el)"
  "quit_flag (synced c ch el) = quit_flag el"
  "looping (synced c ch el) = looping el"
  "wakeupFd (synced c ch el) = wakeupFd el"
  "wakeupChannel (synced c ch el) = wakeupChannel el"
  "timerQueue (synced c ch el) = timerQueue el"
  "wakeups (synced c ch el) = wakeups el"
  "needs_wakeup t (synced c ch el) = needs_wakeup t el"
  by (simp_all add: synced_def needs_wakeup_def)

lemma poller_inv_other_loop:
  assumes "poller_inv l p cs" "cs c = Some ch" "ch_loop ch \<noteq> l" "ch_loop ch' \<noteq> l"
  shows "poller_inv l p (cs(c \<mapsto> ch'))"
  using assms(1) by (rule poller_inv_cong) (use assms(2-4) in simp)

lemma net_inv_sync:
  assumes inv: "net_inv w" and ok: "chan_ok c ch el w"
    and ch': "ch_loop ch' = ch_loop ch" "ch_fd ch' = ch_fd ch" "index_ok ch'"
  shows "net_inv (put_chan c ch' (put_loop (ch_loop ch) (synced c ch' el) w))"
  unfolding net_inv_def
proof (intro allI impI)
  fix l el'
  assume l: "n_loops (put_chan c ch' (put_loop (ch_loop ch) (synced c ch' el) w)) l = Some el'"
  have *: "n_chans w c = Some ch" "n_loops w (ch_loop ch) = Some el" "may_add (el_poller el) ch"
    using ok by (simp_all add: chan_ok_def)
  show "poller_inv l (el_poller el') (n_chans (put_chan c ch' (put_loop (ch_loop ch) (synced c ch' el) w)))"
  proof (cases "l = ch_loop ch")
    case True
    with l have "el' = synced c ch' el" by simp
    then show ?thesis
      using True poller_inv_sync [OF net_invD [OF inv *(2)] *(1) refl *(3) ch'] by simp
  next
    case False
    with l have "n_loops w l = Some el'" by simp
    from poller_inv_other_loop [OF net_invD [OF inv this] *(1), of ch'] False ch'(1)
    show ?thesis by simp
  qed
qed

definition masked :: "mask_change \<Rightarrow> channel \<Rightarrow> channel" where
  "masked m ch = ch\<lparr>ch_events := change_events m (ch_events ch),
     ch_index := next_index (ch\<lparr>ch_events := change_events m (ch_events ch)\<rparr>)\<rparr>"

lemma change_mask_eq:
  assumes inv: "net_inv w" and ok: "chan_ok c ch el w"
  shows "change_mask m c w =
    Inr (put_chan c (masked m ch) (put_loop (ch_loop ch) (synced c (masked m ch) el) w))"
proof -
  have *: "n_chans w c = Some ch" "n_loops w (ch_loop ch) = Some el" "may_add (el_poller el) ch"
    using ok by (simp_all add: chan_ok_def)
  show ?thesis
    using updateChannel_sync [OF net_invD [OF inv *(2)] *(1) refl *(3) refl] *
    by (simp add: change_mask_def loop_updateChannel_def masked_def synced_def)
qed

lemma chan_remove_eq:
  assumes inv: "net_inv w" and ok: "chan_ok c ch el w"
  shows "chan_remove c w = Inr (put_chan c (ch\<lparr>ch_index := KNew\<rparr>)
    (put_loop (ch_loop ch) (synced c (ch\<lparr>ch_index := KNew\<rparr>) el) w))"
proof -
  have *: "n_chans w c = Some ch" "n_loops w (ch_loop ch) = Some el" "may_add (el_poller el) ch"
    using ok by (simp_all add: chan_ok_def)
  show ?thesis
    using removeChannel_sync [OF net_invD [OF inv *(2)] *(1) refl *(3) refl] *
    by (simp add: chan_remove_def loop_removeChannel_def synced_def)
qed

lemma masked_simps [simp]:
  "ch_loop (masked m ch) = ch_loop ch" "ch_fd (masked m ch) = ch_fd ch"
  "ch_events (masked m ch) = change_events m (ch_events ch)"
  "ch_revents (masked m ch) = ch_revents ch"
  "ch_tie (masked m ch) = ch_tie ch" "ch_tied (masked m ch) = ch_tied ch"
  "readCallback (masked m ch) = readCallback ch" "writeCallback (masked m ch) = writeCallback ch"
  "closeCallback (masked m ch) = closeCallback ch" "errorCallback (masked m ch) = errorCallback ch"
  "index_ok (masked m ch)"
  using next_index_ok [of "ch\<lparr>ch_events := change_events m (ch_events ch)\<rparr>"]
  by (simp_all add: masked_def)

lemma change_mask_ok:
  assumes "net_inv w" "chan_ok c ch el w"
  shows "net_inv (put_chan c (masked m ch) (put_loop (ch_loop ch) (synced c (masked m ch) el) w))"
    "chan_ok c (masked m ch) (synced c (masked m ch) el)
       (put_chan c (masked m ch) (put_loop (ch_loop ch) (synced c (masked m ch) el) w))"
  using net_inv_sync [OF assms, of "masked m ch"] by (simp_all add: chan_ok_def)

section \<open>What the operations never do\<close>

text \<open>
  A preorder that all operations of handlers and functors keep (the reading of the eventfd apart):
  a loop's queue only grows at its end, and with a wakeup when one is needed; no loop and no
  channel disappears; no timer queue appears; a channel keeps its report and its callbacks.
\<close>

definition grows :: "nat \<Rightarrow> evloop \<Rightarrow> evloop \<Rightarrow> bool" where
  "grows tid el el' \<longleftrightarrow>
     (\<exists>new. pendingFunctors el' = pendingFunctors el @ new
        \<and> (new \<noteq> [] \<and> needs_wakeup tid el \<longrightarrow> 0 < wakeups el'))
     \<and> wakeups el \<le> wakeups el' \<and> el_calling el' = el_calling el \<and> threadId el' = threadId el
     \<and> looping el' = looping el \<and> (quit_flag el \<longrightarrow> quit_flag el')
     \<and> (timerQueue el' = None \<longleftrightarrow> timerQueue el = None)"

definition evolves :: "'a net_scheme \<Rightarrow> 'a net_scheme \<Rightarrow> bool" where
  "evolves w w' \<longleftrightarrow> n_tid w' = n_tid w
     \<and> (\<forall>l el. n_loops w l = Some el \<longrightarrow> (\<exists>el'. n_loops w' l = Some el' \<and> grows (n_tid w) el el'))
     \<and> (\<forall>c ch. n_chans w c = Some ch \<longrightarrow> (\<exists>ch'. n_chans w' c = Some ch' \<and> same_dispatch ch ch'
          \<and> ch_loop ch' = ch_loop ch \<and> ch_fd ch' = ch_fd ch))"

lemma grows_refl [simp]: "grows t el el"
  by (simp add: grows_def)

lemma grows_trans:
  assumes ab: "grows t a b" and bc: "grows t b c"
  shows "grows t a c"
proof -
  obtain x where x: "pendingFunctors b = pendingFunctors a @ x"
    "x \<noteq> [] \<and> needs_wakeup t a \<longrightarrow> 0 < wakeups b"
    using ab unfolding grows_def by blast
  obtain y where y: "pendingFunctors c = pendingFunctors b @ y"
    "y \<noteq> [] \<and> needs_wakeup t b \<longrightarrow> 0 < wakeups c"
    using bc unfolding grows_def by blast
  have m: "wakeups b \<le> wakeups c" "needs_wakeup t b = needs_wakeup t a"
    using ab bc by (simp_all add: grows_def needs_wakeup_def)
  have "pendingFunctors c = pendingFunctors a @ (x @ y)" using x y by simp
  moreover have "x @ y \<noteq> [] \<and> needs_wakeup t a \<longrightarrow> 0 < wakeups c" using x y m by auto
  ultimately show ?thesis using ab bc unfolding grows_def [of t a c]
    by (intro conjI exI [of _ "x @ y"]) (simp_all add: grows_def)
qed

lemma grows_same:
  "pendingFunctors el' = pendingFunctors el \<Longrightarrow> wakeups el \<le> wakeups el' \<Longrightarrow>
   el_calling el' = el_calling el \<Longrightarrow> threadId el' = threadId el \<Longrightarrow> looping el' = looping el \<Longrightarrow>
   quit_flag el' = quit_flag el \<Longrightarrow> (timerQueue el' = None \<longleftrightarrow> timerQueue el = None) \<Longrightarrow> grows t el el'"
  by (simp add: grows_def)

lemma grows_queued [simp]: "grows t el (queued t f el)"
  using queued_wakes [of t el f] queued_wakeups [of el t f] by (auto simp: grows_def)

lemma same_dispatch_refl [simp]: "same_dispatch ch ch"
  by (simp add: same_dispatch_def)

lemma same_dispatch_trans: "same_dispatch a b \<Longrightarrow> same_dispatch b c \<Longrightarrow> same_dispatch a c"
  by (simp add: same_dispatch_def)

lemma same_dispatch_upd [simp]:
  "same_dispatch ch (ch'\<lparr>ch_index := i\<rparr>) = same_dispatch ch ch'"
  "same_dispatch ch (ch'\<lparr>ch_events := ev\<rparr>) = same_dispatch ch ch'"
  "same_dispatch ch (masked m ch') = same_dispatch ch ch'"
  by (simp_all add: same_dispatch_def)

lemma evolves_refl [simp]: "evolves w w"
  by (simp add: evolves_def)

lemma evolves_trans:
  assumes ab: "evolves a b" and bc: "evolves b c"
  shows "evolves a c"
  unfolding evolves_def
proof (intro conjI allI impI)
  show t: "n_tid c = n_tid a" using ab bc by (simp add: evolves_def)
  show "\<exists>el'. n_loops c l = Some el' \<and> grows (n_tid a) el el'" if l: "n_loops a l = Some el" for l el
  proof -
    obtain x where x: "n_loops b l = Some x" "grows (n_tid a) el x"
      using ab l unfolding evolves_def by blast
    obtain y where "n_loops c l = Some y" "grows (n_tid b) x y"
      using bc x(1) unfolding evolves_def by blast
    moreover have "n_tid b = n_tid a" using ab by (simp add: evolves_def)
    ultimately show ?thesis using grows_trans [OF x(2)] by auto
  qed
  show "\<exists>ch'. n_chans c d = Some ch' \<and> same_dispatch ch ch' \<and> ch_loop ch' = ch_loop ch
      \<and> ch_fd ch' = ch_fd ch" if d: "n_chans a d = Some ch" for d ch
  proof -
    obtain x where x: "n_chans b d = Some x" "same_dispatch ch x" "ch_loop x = ch_loop ch"
      "ch_fd x = ch_fd ch" using ab d unfolding evolves_def by blast
    obtain y where "n_chans c d = Some y" "same_dispatch x y" "ch_loop y = ch_loop x"
      "ch_fd y = ch_fd x" using bc x(1) unfolding evolves_def by blast
    then show ?thesis using same_dispatch_trans [OF x(2)] x by auto
  qed
qed

text \<open>Sequencing: each step only has to keep the preorder from where it starts.\<close>

lemma evolves_bind:
  assumes "safely r (evolves w)" "\<And>x. evolves w x \<Longrightarrow> safely (f x) (evolves x)"
  shows "safely (bind_res r f) (evolves w)"
proof (cases r)
  case (Inr x)
  with assms have "evolves w x" by simp
  with assms(2) have "safely (f x) (evolves x)" by blast
  then have "safely (f x) (evolves w)"
    using \<open>evolves w x\<close> by (blast intro: safely_mono evolves_trans)
  with Inr show ?thesis by simp
qed simp

lemma evolves_fold:
  assumes "\<And>x w. x \<in> set xs \<Longrightarrow> safely (f x w) (evolves w)"
  shows "safely (fold_res f xs w) (evolves w)"
  using assms
proof (induction xs arbitrary: w)
  case (Cons x xs)
  show ?case unfolding fold_res.simps by (rule evolves_bind) (use Cons in auto)
qed simp

lemma evolves_put_loop:
  "n_loops w l = Some el \<Longrightarrow> grows (n_tid w) el el' \<Longrightarrow> evolves w (put_loop l el' w)"
  by (auto simp: evolves_def)

lemma evolves_put_chan:
  "n_chans w c = Some ch \<Longrightarrow> same_dispatch ch ch' \<Longrightarrow> ch_loop ch' = ch_loop ch \<Longrightarrow>
   ch_fd ch' = ch_fd ch \<Longrightarrow> evolves w (put_chan c ch' w)"
  by (auto simp: evolves_def)

lemma evolves_net:
  "n_tid w' = n_tid w \<Longrightarrow> n_loops w' = n_loops w \<Longrightarrow> n_chans w' = n_chans w \<Longrightarrow> evolves w w'"
  by (simp add: evolves_def)

lemma updateChannel_frame:
  "updateChannel c ch p = Inr (ch', p') \<Longrightarrow> \<exists>i. ch' = ch\<lparr>ch_index := i\<rparr>"
  by (auto simp: updateChannel_def Let_def bind_res_Inr_iff split: if_splits
      intro: exI [of _ "ch_index ch"])

lemma removeChannel_frame:
  "removeChannel c ch p = Inr (ch', p') \<Longrightarrow> ch' = ch\<lparr>ch_index := KNew\<rparr>"
  by (auto simp: removeChannel_def Let_def bind_res_Inr_iff)

lemma queueInLoop_evolves [evolving]: "safely (queueInLoop l f w) (evolves w)"
proof (cases "n_loops w l")
  case (Some el)
  then show ?thesis by (simp add: queueInLoop_eq evolves_put_loop)
qed (simp add: queueInLoop_def get_loop_def)

lemma runInLoop_evolves [evolving]:
  "safely (act w) (evolves w) \<Longrightarrow> safely (runInLoop l f act w) (evolves w)"
  by (simp add: runInLoop_def isInLoopThread_def get_loop_def queueInLoop_evolves)

lemma change_mask_evolves [evolving]: "safely (change_mask m c w) (evolves w)"
proof -
  have "evolves w w'" if w': "change_mask m c w = Inr w'" for w'
  proof -
    obtain ch el ch' p' where ch: "n_chans w c = Some ch" and el: "n_loops w (ch_loop ch) = Some el"
      and u: "updateChannel c (ch\<lparr>ch_events := change_events m (ch_events ch)\<rparr>) (el_poller el) = Inr (ch', p')"
      and eq: "w' = put_chan c ch' (put_loop (ch_loop ch) (el\<lparr>el_poller := p'\<rparr>) w)"
      using w' by (auto simp: change_mask_def loop_updateChannel_def bind_res_Inr_iff)
    from updateChannel_frame [OF u] ch
    have "evolves (put_loop (ch_loop ch) (el\<lparr>el_poller := p'\<rparr>) w) w'"
      by (auto simp: eq intro!: evolves_put_chan [of _ _ ch])
    moreover have "evolves w (put_loop (ch_loop ch) (el\<lparr>el_poller := p'\<rparr>) w)"
      using el by (auto intro!: evolves_put_loop grows_same)
    ultimately show ?thesis by (blast intro: evolves_trans)
  qed
  then show ?thesis by (cases "change_mask m c w") auto
qed

lemma chan_remove_evolves [evolving]: "safely (chan_remove c w) (evolves w)"
proof -
  have "evolves w w'" if w': "chan_remove c w = Inr w'" for w'
  proof -
    obtain ch el ch' p' where ch: "n_chans w c = Some ch" and el: "n_loops w (ch_loop ch) = Some el"
      and u: "removeChannel c ch (el_poller el) = Inr (ch', p')"
      and eq: "w' = put_chan c ch' (put_loop (ch_loop ch) (el\<lparr>el_poller := p'\<rparr>) w)"
      using w' by (auto simp: chan_remove_def loop_removeChannel_def bind_res_Inr_iff)
    from removeChannel_frame [OF u] ch
    have "evolves (put_loop (ch_loop ch) (el\<lparr>el_poller := p'\<rparr>) w) w'"
      by (auto simp: eq intro!: evolves_put_chan [of _ _ ch])
    moreover have "evolves w (put_loop (ch_loop ch) (el\<lparr>el_poller := p'\<rparr>) w)"
      using el by (auto intro!: evolves_put_loop grows_same)
    ultimately show ?thesis by (blast intro: evolves_trans)
  qed
  then show ?thesis by (cases "chan_remove c w") auto
qed

lemma with_timers_evolves [evolving]: "safely (with_timers l f w) (evolves w)"
proof -
  have "evolves w w'" if "with_timers l f w = Inr w'" for w'
    using that by (auto simp: with_timers_def bind_res_Inr_iff intro!: evolves_put_loop grows_same)
  then show ?thesis by (cases "with_timers l f w") auto
qed

lemma runAfter_evolves [evolving]: "safely (runAfter now clock l p delay cb w) (evolves w)"
  unfolding runAfter_def runAt_def tq_addTimer_def
  by (intro evolves_bind evolving)

section \<open>The interface of the loop to functors and handlers\<close>

locale functor_runner =
  fixes run :: "Functor \<Rightarrow> 'a net_scheme \<Rightarrow> 'a net_scheme res"
  assumes run_evolves: "safely (run f w) (evolves w)"
begin

text \<open>
  \<open>doPendingFunctors\<close> runs the functors that are pending when it starts, once each and in order;
  the ones queued meanwhile, by the functors themselves, stay queued for the next round in their
  order, and then the eventfd is readable, so that the next poll does not block.
\<close>

lemma doPendingFunctors_ok:
  assumes "n_loops w l = Some el"
  shows "safely (doPendingFunctors run l w) (\<lambda>w'. \<exists>el' w1 el1.
       fold_res run (pendingFunctors el)
         (put_loop l (el\<lparr>el_calling := True, pendingFunctors := []\<rparr>) w) = Inr w1
     \<and> n_loops w1 l = Some el1 \<and> w' = put_loop l el' w1 \<and> el' = el1\<lparr>el_calling := False\<rparr>
     \<and> threadId el' = threadId el \<and> wakeups el \<le> wakeups el' \<and> looping el' = looping el
     \<and> (quit_flag el \<longrightarrow> quit_flag el') \<and> (pendingFunctors el' \<noteq> [] \<longrightarrow> 0 < wakeups el'))"
proof -
  let ?el0 = "el\<lparr>el_calling := True, pendingFunctors := []\<rparr>"
  let ?w0 = "put_loop l ?el0 w"
  have "safely (fold_res run (pendingFunctors el) ?w0) (evolves ?w0)"
    by (rule evolves_fold) (rule run_evolves)
  moreover have "\<exists>el1. n_loops w1 l = Some el1 \<and> grows (n_tid w) ?el0 el1" if "evolves ?w0 w1" for w1
    using that by (auto simp: evolves_def)
  ultimately show ?thesis
    using assms
    by (cases "fold_res run (pendingFunctors el) ?w0")
      (fastforce simp: doPendingFunctors_def grows_def needs_wakeup_def)+
qed

end

locale handler_runner =
  fixes call :: "handler \<Rightarrow> 'a net_scheme \<Rightarrow> 'a net_scheme res"
  assumes call_keeps: "n_chans w c = Some ch \<Longrightarrow> call h w = Inr w' \<Longrightarrow>
      \<exists>ch'. n_chans w' c = Some ch' \<and> same_dispatch ch ch'"

sublocale handler_runner \<subseteq> chan: dispatcher "get_chan c" call for c
  by unfold_locales (use call_keeps in auto)

end
