(* ===== verification/Wakeup.thy ===== *)
theory Wakeup
  imports Reactor
begin

text \<open>
  The hand-over of functors between threads, step by step. Other threads call \<open>queueInLoop\<close>,
  which is two steps: the push under the lock, and the test with the write of the eventfd. The
  loop's own thread goes round: poll, handlers, \<open>callingPendingFunctors_ = true\<close>, the swap under
  the lock, the functors one by one, \<open>callingPendingFunctors_ = false\<close>. A handler or functor may
  call \<open>queueInLoop\<close> too; its push and its write are one step here, because no other thread's step
  between them can see or change the flag that the test reads. The steps are the definitions of
  the theory Reactor; any of them may come at any time, so every interleaving is covered.
\<close>

datatype phase = AtPoll | InHandlers | BeforeSwap | Running "Functor list"

record hand_over =
  ho_loop :: evloop
  ho_phase :: phase
  ho_pushed :: "nat set"

inductive ho_step :: "hand_over \<Rightarrow> hand_over \<Rightarrow> bool" where
  push: "t \<noteq> threadId (ho_loop s) \<Longrightarrow> t \<notin> ho_pushed s \<Longrightarrow>
     ho_step s (s\<lparr>ho_loop := push_functor f (ho_loop s), ho_pushed := insert t (ho_pushed s)\<rparr>)"
| wake: "t \<in> ho_pushed s \<Longrightarrow>
     ho_step s (s\<lparr>ho_loop := (if needs_wakeup t (ho_loop s) then write_eventfd (ho_loop s) else ho_loop s),
                  ho_pushed := ho_pushed s - {t}\<rparr>)"
| poll_returns: "ho_phase s = AtPoll \<Longrightarrow> ho_step s (s\<lparr>ho_phase := InHandlers\<rparr>)"
| read_fd: "ho_phase s = InHandlers \<Longrightarrow> ho_step s (s\<lparr>ho_loop := read_eventfd (ho_loop s)\<rparr>)"
| handler_queues: "ho_phase s = InHandlers \<Longrightarrow>
     ho_step s (s\<lparr>ho_loop := queued (threadId (ho_loop s)) f (ho_loop s)\<rparr>)"
| start: "ho_phase s = InHandlers \<Longrightarrow>
     ho_step s (s\<lparr>ho_loop := (ho_loop s)\<lparr>el_calling := True\<rparr>, ho_phase := BeforeSwap\<rparr>)"
| swap: "ho_phase s = BeforeSwap \<Longrightarrow>
     ho_step s (s\<lparr>ho_loop := (ho_loop s)\<lparr>pendingFunctors := []\<rparr>,
                  ho_phase := Running (pendingFunctors (ho_loop s))\<rparr>)"
| functor_queues: "ho_phase s = Running fs \<Longrightarrow>
     ho_step s (s\<lparr>ho_loop := queued (threadId (ho_loop s)) f (ho_loop s)\<rparr>)"
| functor_done: "ho_phase s = Running (f # fs) \<Longrightarrow> ho_step s (s\<lparr>ho_phase := Running fs\<rparr>)"
| finish: "ho_phase s = Running [] \<Longrightarrow>
     ho_step s (s\<lparr>ho_loop := (ho_loop s)\<lparr>el_calling := False\<rparr>, ho_phase := AtPoll\<rparr>)"

text \<open>
  \<open>loop()\<close> starts at a poll. A functor that the loop's own thread queued before has caused no
  wakeup; such a start is not covered.
\<close>

definition ho_start :: "hand_over \<Rightarrow> bool" where
  "ho_start s \<longleftrightarrow> ho_phase s = AtPoll \<and> \<not> el_calling (ho_loop s) \<and> ho_pushed s = {}
     \<and> (pendingFunctors (ho_loop s) = [] \<or> 0 < wakeups (ho_loop s))"

inductive ho_reachable :: "hand_over \<Rightarrow> bool" where
  init: "ho_start s \<Longrightarrow> ho_reachable s"
| step: "ho_reachable s \<Longrightarrow> ho_step s s' \<Longrightarrow> ho_reachable s'"

text \<open>
  Everything pending will be noticed: the eventfd is readable or some thread is about to write
  it. This holds in the phases that do not come before a swap.
\<close>

definition noticed :: "hand_over \<Rightarrow> bool" where
  "noticed s \<longleftrightarrow> pendingFunctors (ho_loop s) = [] \<or> 0 < wakeups (ho_loop s) \<or> ho_pushed s \<noteq> {}"

definition ho_inv :: "hand_over \<Rightarrow> bool" where
  "ho_inv s \<longleftrightarrow> threadId (ho_loop s) \<notin> ho_pushed s
     \<and> (case ho_phase s of
          AtPoll \<Rightarrow> \<not> el_calling (ho_loop s) \<and> noticed s
        | InHandlers \<Rightarrow> \<not> el_calling (ho_loop s)
        | BeforeSwap \<Rightarrow> el_calling (ho_loop s)
        | Running fs \<Rightarrow> el_calling (ho_loop s) \<and> noticed s)"

lemma ho_inv_step: "ho_step s s' \<Longrightarrow> ho_inv s \<Longrightarrow> ho_inv s'"
proof (induction rule: ho_step.induct)
  case (wake t s)
  then have "needs_wakeup t (ho_loop s)" by (auto simp: needs_wakeup_def ho_inv_def)
  with wake show ?case
    using write_eventfd_pos(1) [of "ho_loop s"]
    by (auto simp: ho_inv_def noticed_def split: phase.splits)
next
  case (functor_queues s fs f)
  then have "needs_wakeup (threadId (ho_loop s)) (ho_loop s)" by (simp add: needs_wakeup_def ho_inv_def)
  from functor_queues queued_wakes [OF this, of f] show ?case
    by (simp add: ho_inv_def noticed_def)
qed (auto simp: ho_inv_def noticed_def read_eventfd_def split: phase.splits)

lemma ho_reachable_inv: "ho_reachable s \<Longrightarrow> ho_inv s"
proof (induction rule: ho_reachable.induct)
  case (init s)
  then show ?case by (simp add: ho_start_def ho_inv_def noticed_def)
next
  case (step s s')
  then show ?case using ho_inv_step by blast
qed

section \<open>Properties\<close>

text \<open>
  C6. No wakeup is lost. In every interleaving of threads that queue functors with the loop's
  rounds: whenever the loop is about to block in poll with functors pending, the eventfd is
  readable, or another thread has pushed its functor and not yet done its test, and when it does
  the eventfd becomes readable. So the loop never sleeps on pending functors until the timeout.
\<close>

theorem no_lost_wakeup:
  assumes "ho_reachable s" and "ho_phase s = AtPoll" and "pendingFunctors (ho_loop s) \<noteq> []"
  shows "0 < wakeups (ho_loop s)
     \<or> (\<exists>t \<in> ho_pushed s. needs_wakeup t (ho_loop s) \<and> 0 < wakeups (write_eventfd (ho_loop s)))"
proof -
  have inv: "ho_inv s" by (rule ho_reachable_inv [OF assms(1)])
  with assms(2,3) have "0 < wakeups (ho_loop s) \<or> ho_pushed s \<noteq> {}"
    by (simp add: ho_inv_def noticed_def)
  moreover have "needs_wakeup t (ho_loop s)" if "t \<in> ho_pushed s" for t
    using that inv by (auto simp: ho_inv_def needs_wakeup_def)
  ultimately show ?thesis using write_eventfd_pos(1) [of "ho_loop s"] by blast
qed

definition sample_loop :: evloop where
  "sample_loop = mk_loop 1 (mk_poller (\<lambda>_ _. False)) 3 4"

lemma sample_round:
  "ho_reachable \<lparr>ho_loop = sample_loop\<lparr>pendingFunctors := [FUser 2], wakeups := 1\<rparr>,
     ho_phase = AtPoll, ho_pushed = {}\<rparr>"
proof -
  let ?s = "\<lparr>ho_loop = sample_loop\<lparr>pendingFunctors := [FUser 1], wakeups := 1\<rparr>,
    ho_phase = AtPoll, ho_pushed = {}\<rparr>"
  have "ho_reachable ?s"
    by (rule ho_reachable.init) (simp add: ho_start_def sample_loop_def mk_loop_def)
  from ho_reachable.step [OF this ho_step.poll_returns]
  have "ho_reachable (?s\<lparr>ho_phase := InHandlers\<rparr>)" by simp
  from ho_reachable.step [OF this ho_step.read_fd]
  have "ho_reachable (?s\<lparr>ho_loop := sample_loop\<lparr>pendingFunctors := [FUser 1], wakeups := 0\<rparr>, ho_phase := InHandlers\<rparr>)"
    by (simp add: read_eventfd_def)
  from ho_reachable.step [OF this ho_step.start]
  have "ho_reachable (?s\<lparr>ho_loop := sample_loop\<lparr>pendingFunctors := [FUser 1], wakeups := 0, el_calling := True\<rparr>,
      ho_phase := BeforeSwap\<rparr>)" by (simp add: sample_loop_def mk_loop_def)
  from ho_reachable.step [OF this ho_step.swap]
  have "ho_reachable (?s\<lparr>ho_loop := sample_loop\<lparr>pendingFunctors := [], wakeups := 0, el_calling := True\<rparr>,
      ho_phase := Running [FUser 1]\<rparr>)" by (simp add: sample_loop_def mk_loop_def)
  from ho_reachable.step [OF this ho_step.functor_queues, of "[FUser 1]" "FUser 2"]
  have "ho_reachable (?s\<lparr>ho_loop := sample_loop\<lparr>pendingFunctors := [FUser 2], wakeups := 1, el_calling := True\<rparr>,
      ho_phase := Running [FUser 1]\<rparr>)"
    by (simp add: sample_loop_def mk_loop_def queued_def needs_wakeup_def push_functor_def write_eventfd_def eventfd_max_def)
  from ho_reachable.step [OF this ho_step.functor_done, of "FUser 1" "[]"]
  have "ho_reachable (?s\<lparr>ho_loop := sample_loop\<lparr>pendingFunctors := [FUser 2], wakeups := 1, el_calling := True\<rparr>,
      ho_phase := Running []\<rparr>)" by (simp add: sample_loop_def mk_loop_def)
  from ho_reachable.step [OF this ho_step.finish]
  show ?thesis by (simp add: sample_loop_def mk_loop_def)
qed

theorem no_lost_wakeup_witness:
  "\<exists>s. ho_reachable s \<and> ho_phase s = AtPoll \<and> pendingFunctors (ho_loop s) = [FUser 2]
     \<and> 0 < wakeups (ho_loop s)"
  using sample_round no_lost_wakeup [OF sample_round] by (intro exI conjI) auto

end
