(* ===== verification/Socket.thy ===== *)
theory Socket
  imports Buffer
begin

text \<open>
  Socket.h and Socket.cc, with the kernel's side of a connected socket: the options, the answers of
  its system calls and what it has taken so far. A descriptor is a number; \<open>accept\<close> is in the
  theory TcpServer, as its answer names the objects that the server makes of it.
\<close>

section \<open>Options\<close>

text \<open>
  The calls of \<open>setsockopt\<close>, with the option and its value; the code does not look at the result,
  so that a refused one is a call like the others.
\<close>

datatype sockopt = TCP_NODELAY | SO_REUSEADDR | SO_REUSEPORT | SO_KEEPALIVE

definition setsockopt :: "sockopt \<Rightarrow> bool \<Rightarrow> (sockopt \<times> int) list \<Rightarrow> (sockopt \<times> int) list" where
  "setsockopt opt on opts = opts @ [(opt, if on then 1 else 0)]"

definition setTcpNoDelay :: "bool \<Rightarrow> (sockopt \<times> int) list \<Rightarrow> (sockopt \<times> int) list" where
  "setTcpNoDelay on opts = setsockopt TCP_NODELAY on opts"

definition setReuseAddr :: "bool \<Rightarrow> (sockopt \<times> int) list \<Rightarrow> (sockopt \<times> int) list" where
  "setReuseAddr on opts = setsockopt SO_REUSEADDR on opts"

definition setReusePort :: "bool \<Rightarrow> (sockopt \<times> int) list \<Rightarrow> (sockopt \<times> int) list" where
  "setReusePort on opts = setsockopt SO_REUSEPORT on opts"

definition setKeepAlive :: "bool \<Rightarrow> (sockopt \<times> int) list \<Rightarrow> (sockopt \<times> int) list" where
  "setKeepAlive on opts = setsockopt SO_KEEPALIVE on opts"

section \<open>The kernel's socket\<close>

text \<open>
  \<open>sk_opts\<close> are the options set so far, \<open>sk_reads\<close> and \<open>sk_writes\<close> the answers of the coming system
  calls (none: EAGAIN), \<open>sk_sent\<close> the bytes the kernel has taken so far, \<open>sk_fin\<close> whether the sending side was shut down, after
  which a write fails.
\<close>

record sock =
  sk_fd :: int
  sk_opts :: "(sockopt \<times> int) list"
  sk_reads :: "read_env list"
  sk_writes :: "write_env list"
  sk_sent :: "byte list"
  sk_fin :: bool

definition EPIPE :: int where "EPIPE = 32"
definition ECONNRESET :: int where "ECONNRESET = 104"
definition EWOULDBLOCK :: int where "EWOULDBLOCK = 11"

definition next_read :: "sock \<Rightarrow> read_env" where
  "next_read sk = (case sk_reads sk of [] \<Rightarrow> ReadErr EWOULDBLOCK | e # _ \<Rightarrow> e)"

definition next_write :: "sock \<Rightarrow> write_env" where
  "next_write sk = (if sk_fin sk then WriteErr EPIPE
     else case sk_writes sk of [] \<Rightarrow> WriteErr EWOULDBLOCK | e # _ \<Rightarrow> e)"

text \<open>\<open>::write\<close> of \<open>data\<close>: the result, errno and the socket.\<close>

definition sock_write :: "byte list \<Rightarrow> sock \<Rightarrow> int \<times> int \<times> sock" where
  "sock_write data sk =
     (case next_write sk of
        WriteErr e \<Rightarrow> (-1, e, sk\<lparr>sk_writes := tl (sk_writes sk)\<rparr>)
      | WriteRoom k \<Rightarrow>
          let n = min k (length data) in
          (int n, 0, sk\<lparr>sk_writes := tl (sk_writes sk), sk_sent := sk_sent sk @ take n data\<rparr>))"

text \<open>
  \<open>::shutdown(SHUT_WR)\<close>. On a socket that was connected it can fail only with ENOTCONN, when the
  connection is gone already; the code logs that and goes on, and then the sending side is closed as
  well: \<open>sk_fin\<close> says that it is, and a later write gives EPIPE in both cases.
\<close>

definition shutdownWrite :: "sock \<Rightarrow> sock" where
  "shutdownWrite sk = sk\<lparr>sk_fin := True\<rparr>"

section \<open>A listening socket\<close>

text \<open>
  A failing \<open>bind\<close> or \<open>listen\<close> ends the process.
\<close>

definition bindAddress :: "bool \<Rightarrow> 'a \<Rightarrow> 'a res" where
  "bindAddress ok w = (if ok then Inr w else Inl (LogFatal ''bind sockfd fall''))"

definition socket_listen :: "bool \<Rightarrow> 'a \<Rightarrow> 'a res" where
  "socket_listen ok w = (if ok then Inr w else Inl (LogFatal ''listen sockfd fall''))"

end
