(* ===== verification/InetAddress.thy ===== *)
theory InetAddress
  imports Muduo_Prelude
begin

unbundle bit_operations_syntax

text \<open>
  InetAddress.h and InetAddress.cc: a socket address with the port and the IPv4 address in
  network byte order, as the record \<open>sockaddr_in\<close> of the C library holds them, on a
  little-endian machine. The text forms are those of \<open>inet_addr\<close>, \<open>inet_ntop\<close> and \<open>sprintf\<close>.
\<close>

record sockaddr_in =
  sin_family :: "16 word"
  sin_port :: "16 word"
  s_addr :: "32 word"

definition AF_INET :: "16 word" where "AF_INET = 2"

text \<open>\<open>htons\<close> and \<open>ntohs\<close> exchange the two bytes.\<close>

definition htons :: "16 word \<Rightarrow> 16 word" where
  "htons p = push_bit 8 p OR drop_bit 8 p"

definition ntohs :: "16 word \<Rightarrow> 16 word" where
  "ntohs p = push_bit 8 p OR drop_bit 8 p"

lemma ntohs_htons: "ntohs (htons p) = p"
proof (rule bit_word_eqI)
  fix n
  assume "n < LENGTH(16)"
  then show "bit (ntohs (htons p)) n = bit p n"
    by (auto simp: ntohs_def htons_def bit_simps)
qed

section \<open>Numbers as text\<close>

text \<open>Decimal digits, the most significant first; \<open>%d\<close> and \<open>%u\<close> print their characters.\<close>

fun dec_digits :: "nat \<Rightarrow> nat list" where
  "dec_digits n = (if n div 10 = 0 then [] else dec_digits (n div 10)) @ [n mod 10]"

declare dec_digits.simps [simp del]

definition digit_char :: "nat \<Rightarrow> char" where
  "digit_char d = char_of (48 + d)"

definition decimal :: "nat \<Rightarrow> string" where
  "decimal n = map digit_char (dec_digits n)"

text \<open>\<open>%d\<close> of an \<open>int\<close>, and \<open>snprintf\<close> into a buffer of \<open>n\<close> characters, which keeps the first \<open>n - 1\<close>.\<close>

definition decimal_int :: "int \<Rightarrow> string" where
  "decimal_int i = (if i < 0 then ''-'' @ decimal (nat (- i)) else decimal (nat i))"

definition snprintf :: "nat \<Rightarrow> string \<Rightarrow> string" where
  "snprintf n s = take (n - 1) s"

definition undigits :: "nat list \<Rightarrow> nat" where
  "undigits ds = foldl (\<lambda>a d. 10 * a + d) 0 ds"

lemma undigits_digits [simp]: "undigits (dec_digits n) = n"
proof (induction n rule: dec_digits.induct)
  case (1 n)
  have "undigits (dec_digits n) = 10 * (n div 10) + n mod 10"
    using 1 by (cases "n div 10 = 0") (simp_all add: dec_digits.simps [of n] undigits_def)
  then show ?case by simp
qed

lemma digits_less: "d \<in> set (dec_digits n) \<Longrightarrow> d < 10"
proof (induction n rule: dec_digits.induct)
  case (1 n)
  then show ?case by (cases "n div 10 = 0") (auto simp: dec_digits.simps [of n])
qed

lemma length_digits: "n < 10 ^ Suc k \<Longrightarrow> length (dec_digits n) \<le> Suc k"
proof (induction k arbitrary: n)
  case 0
  then show ?case by (simp add: dec_digits.simps [of n])
next
  case (Suc k)
  then have "n div 10 < 10 ^ Suc k" by (simp add: less_mult_imp_div_less)
  from Suc.IH [OF this] show ?case by (simp add: dec_digits.simps [of n])
qed

lemma digits_nonempty [simp]: "dec_digits n \<noteq> []"
  by (simp add: dec_digits.simps [of n])

lemma hd_digits: "0 < n \<Longrightarrow> 0 < hd (dec_digits n)"
proof (induction n rule: dec_digits.induct)
  case (1 n)
  show ?case
  proof (cases "n div 10 = 0")
    case True
    then have "n mod 10 = n" by (metis div_eq_0_iff mod_less zero_neq_numeral)
    with True 1 show ?thesis by (simp add: dec_digits.simps [of n])
  next
    case False
    with 1 show ?thesis by (simp add: dec_digits.simps [of n] hd_append)
  qed
qed

lemma of_char_digit [simp]: "d < 10 \<Longrightarrow> of_char (digit_char d) = 48 + d"
  by (simp add: digit_char_def)

lemma digit_char_inj:
  assumes "d < 10" "e < 10" "digit_char d = digit_char e"
  shows "d = e"
proof -
  have "48 + d = of_char (digit_char d)" by (rule of_char_digit [OF assms(1), symmetric])
  also have "\<dots> = of_char (digit_char e)" by (rule arg_cong [OF assms(3)])
  also have "\<dots> = 48 + e" by (rule of_char_digit [OF assms(2)])
  finally show ?thesis by simp
qed

lemma decimal_inj: "decimal m = decimal n \<Longrightarrow> m = n"
proof -
  assume "decimal m = decimal n"
  then have "dec_digits m = dec_digits n" unfolding decimal_def
  proof (rule map_inj_on)
    show "inj_on digit_char (set (dec_digits m) \<union> set (dec_digits n))"
      by (rule inj_onI, rule digit_char_inj) (use digits_less in blast)+
  qed
  then have "undigits (dec_digits m) = undigits (dec_digits n)" by (rule arg_cong)
  then show ?thesis by (simp only: undigits_digits)
qed

lemma length_decimal: "n < 10 ^ Suc k \<Longrightarrow> length (decimal n) \<le> Suc k"
  by (simp add: decimal_def length_digits)

lemma decimal_chars: "c \<in> set (decimal n) \<Longrightarrow> 48 \<le> (of_char c :: nat) \<and> (of_char c :: nat) < 58"
  using digits_less by (auto simp: decimal_def)

section \<open>IPv4 addresses as text\<close>

text \<open>The four bytes of an address in memory, the first one in the lowest bits.\<close>

definition octet :: "nat \<Rightarrow> 32 word \<Rightarrow> nat" where
  "octet i a = unat a div 256 ^ i mod 256"

text \<open>\<open>inet_ntop(AF_INET, ...)\<close>\<close>

definition inet_ntop :: "32 word \<Rightarrow> string" where
  "inet_ntop a = decimal (octet 0 a) @ ''.'' @ decimal (octet 1 a) @ ''.''
     @ decimal (octet 2 a) @ ''.'' @ decimal (octet 3 a)"

text \<open>
  \<open>inet_addr\<close>: one to four numbers in C notation (octal after 0, hexadecimal after 0x), separated
  by dots; the last one fills the bytes that remain; white space ends the text. INADDR_NONE stands
  for a text that is no address.
\<close>

definition INADDR_NONE :: "32 word" where "INADDR_NONE = 0xFFFFFFFF"

definition digit_val :: "nat \<Rightarrow> char \<Rightarrow> nat option" where
  "digit_val b c = (let n = of_char c :: nat;
       v = (if 48 \<le> n \<and> n < 58 then n - 48 else if 97 \<le> n \<and> n < 103 then n - 87
            else if 65 \<le> n \<and> n < 71 then n - 55 else b) in
     if v < b then Some v else None)"

fun number :: "nat \<Rightarrow> nat \<Rightarrow> string \<Rightarrow> nat option" where
  "number b acc [] = Some acc"
| "number b acc (c # cs) = (case digit_val b c of None \<Rightarrow> None | Some d \<Rightarrow> number b (b * acc + d) cs)"

fun c_number :: "string \<Rightarrow> nat option" where
  "c_number [] = None"
| "c_number (c # cs) =
     (if c = CHR ''0'' then case cs of [] \<Rightarrow> Some 0
        | x # ds \<Rightarrow> if x = CHR ''x'' \<or> x = CHR ''X''
                    then if ds = [] then None else number 16 0 ds else number 8 0 cs
      else number 10 0 (c # cs))"

fun fields :: "string \<Rightarrow> string list" where
  "fields [] = [[]]"
| "fields (c # cs) = (if c = CHR ''.'' then [] # fields cs
     else case fields cs of [] \<Rightarrow> [[c]] | f # fs \<Rightarrow> (c # f) # fs)"

fun all_some :: "'a option list \<Rightarrow> 'a list option" where
  "all_some [] = Some []"
| "all_some (x # xs) = (case x of None \<Rightarrow> None | Some y \<Rightarrow> map_option ((#) y) (all_some xs))"

text \<open>The value in host order.\<close>

definition inet_value :: "nat list \<Rightarrow> nat option" where
  "inet_value ps =
     (if 1 \<le> length ps \<and> length ps \<le> 4 \<and> (\<forall>p \<in> set (butlast ps). p < 256) \<and> last ps < 256 ^ (5 - length ps)
      then Some (foldl (\<lambda>a p. 256 * a + p) 0 (butlast ps) * 256 ^ (5 - length ps) + last ps) else None)"

definition htonl :: "nat \<Rightarrow> 32 word" where
  "htonl v = of_nat (v div 256 ^ 3 mod 256 + 256 * (v div 256 ^ 2 mod 256)
     + 256 ^ 2 * (v div 256 mod 256) + 256 ^ 3 * (v mod 256))"

definition ends_text :: "char \<Rightarrow> bool" where
  "ends_text c \<longleftrightarrow> (of_char c :: nat) \<in> {0, 9, 10, 11, 12, 13, 32}"

definition inet_addr :: "string \<Rightarrow> 32 word" where
  "inet_addr s = (case all_some (map c_number (fields (takeWhile (Not \<circ> ends_text) s))) of
       None \<Rightarrow> INADDR_NONE
     | Some ps \<Rightarrow> (case inet_value ps of None \<Rightarrow> INADDR_NONE | Some v \<Rightarrow> htonl v))"

section \<open>The class\<close>

definition mk_InetAddress :: "16 word \<Rightarrow> string \<Rightarrow> sockaddr_in" where
  "mk_InetAddress port ip = \<lparr>sin_family = AF_INET, sin_port = htons port, s_addr = inet_addr ip\<rparr>"

definition toIp :: "sockaddr_in \<Rightarrow> string" where
  "toIp a = inet_ntop (s_addr a)"

definition toIpPort :: "sockaddr_in \<Rightarrow> string" where
  "toIpPort a = inet_ntop (s_addr a) @ '':'' @ decimal (unat (ntohs (sin_port a)))"

definition toPort :: "sockaddr_in \<Rightarrow> 16 word" where
  "toPort a = ntohs (sin_port a)"

section \<open>Printing and reading an address\<close>

lemma number_decimal:
  assumes "\<forall>d \<in> set ds. d < 10"
  shows "number 10 acc (map digit_char ds) = Some (foldl (\<lambda>a d. 10 * a + d) acc ds)"
  using assms by (induction ds arbitrary: acc) (simp_all add: digit_val_def Let_def)

lemma c_number_decimal [simp]: "c_number (decimal n) = Some n"
proof (cases "n = 0")
  case True
  have "(of_char (digit_char 0) :: nat) = of_char CHR ''0''" by simp
  then have "digit_char 0 = CHR ''0''" by (simp only: of_char_eq_iff)
  with True show ?thesis by (simp add: decimal_def dec_digits.simps [of 0])
next
  case False
  obtain d ds where ds: "dec_digits n = d # ds" by (cases "dec_digits n") (use digits_nonempty in auto)
  have "d \<noteq> 0" "d < 10" using False hd_digits [of n] digits_less [of d n] ds by simp_all
  then have "(of_char (digit_char d) :: nat) \<noteq> of_char CHR ''0''" by simp
  then have "digit_char d \<noteq> CHR ''0''" by metis
  moreover have "number 10 0 (map digit_char (dec_digits n)) = Some n"
    using number_decimal [of "dec_digits n" 0] digits_less undigits_digits [of n] by (simp add: undigits_def)
  ultimately show ?thesis by (simp add: decimal_def ds)
qed

lemma fields_last: "CHR ''.'' \<notin> set s \<Longrightarrow> fields s = [s]"
  by (induction s) auto

lemma fields_dot: "CHR ''.'' \<notin> set s \<Longrightarrow> fields (s @ CHR ''.'' # t) = s # fields t"
  by (induction s) auto

lemma decimal_no_dot: "CHR ''.'' \<notin> set (decimal n)"
  using decimal_chars [of "CHR ''.''" n] by auto

lemma decimal_no_end: "c \<in> set (decimal n) \<Longrightarrow> \<not> ends_text c"
  using decimal_chars [of c n] by (auto simp: ends_text_def)

lemma fields_ntop: "fields (takeWhile (Not \<circ> ends_text) (inet_ntop a)) =
    [decimal (octet 0 a), decimal (octet 1 a), decimal (octet 2 a), decimal (octet 3 a)]"
proof -
  have "\<not> ends_text CHR ''.''" by (simp add: ends_text_def)
  then have "takeWhile (Not \<circ> ends_text) (inet_ntop a) = inet_ntop a"
    by (auto simp: inet_ntop_def takeWhile_eq_all_conv dest: decimal_no_end)
  then show ?thesis
    by (simp only: inet_ntop_def append_Cons append_Nil fields_dot fields_last decimal_no_dot not_False_eq_True)
qed

lemma octet_less: "octet i a < 256"
  by (simp add: octet_def)

lemma four_bytes:
  fixes x :: nat
  assumes "m0 + 256 * d1 = x" "m1 + 256 * d2 = d1" "m2 + 256 * d3 = d2"
  shows "m0 + 256 * m1 + 256 ^ 2 * m2 + 256 ^ 3 * d3 = x"
  unfolding assms [symmetric] by simp

lemma unat_octets: "octet 0 a + 256 * octet 1 a + 256 ^ 2 * octet 2 a + 256 ^ 3 * octet 3 a = unat a"
proof -
  have "unat a < 2 ^ LENGTH(32)" by (rule unsigned_less)
  then have less: "unat a < 256 ^ 4" by simp
  have "unat a div 256 ^ 3 mod 256 = unat a div 256 ^ 3"
    using less by (simp add: less_mult_imp_div_less)
  then have "octet 3 a = unat a div 256 div 256 div 256"
    by (simp add: octet_def div_mult2_eq [symmetric])
  moreover have "octet 2 a = unat a div 256 div 256 mod 256" by (simp add: octet_def div_mult2_eq [symmetric])
  moreover have "octet 1 a = unat a div 256 mod 256" "octet 0 a = unat a mod 256" by (simp_all add: octet_def)
  ultimately show ?thesis by (simp only: four_bytes [OF mod_mult_div_eq mod_mult_div_eq mod_mult_div_eq])
qed

lemma base_256:
  fixes x y :: nat
  assumes "y < 256"
  shows "(x * 256 + y) div 256 = x" "(x * 256 + y) mod 256 = y"
  using assms by simp_all

lemma htonl_octets:
  assumes "p < 256" "q < 256" "r < 256" "s < 256"
  shows "htonl (((p * 256 + q) * 256 + r) * 256 + s) = of_nat (p + 256 * q + 256 ^ 2 * r + 256 ^ 3 * s)"
  unfolding htonl_def power3_eq_cube power2_eq_square div_mult2_eq
  by (simp only: base_256 assms mod_less)

lemma inet_addr_ntop [simp]: "inet_addr (inet_ntop a) = a"
proof -
  let ?v = "((octet 0 a * 256 + octet 1 a) * 256 + octet 2 a) * 256 + octet 3 a"
  have "inet_value [octet 0 a, octet 1 a, octet 2 a, octet 3 a] = Some ?v"
    using octet_less [of _ a] by (simp add: inet_value_def)
  then have "inet_addr (inet_ntop a) = htonl ?v" by (simp add: inet_addr_def fields_ntop)
  also have "\<dots> = of_nat (unat a)"
    unfolding unat_octets [of a, symmetric] by (intro htonl_octets octet_less)
  finally show ?thesis by simp
qed

lemma length_octet: "length (decimal (octet i a)) \<le> 3"
  using length_decimal [of "octet i a" 2] octet_less [of i a] by simp

lemma length_ntop: "length (inet_ntop a) \<le> 15"
  using length_octet [of 0 a] length_octet [of 1 a] length_octet [of 2 a] length_octet [of 3 a]
  by (simp add: inet_ntop_def)

lemma length_toIpPort: "length (toIpPort a) \<le> 21"
proof -
  have "unat (ntohs (sin_port a)) < 2 ^ LENGTH(16)" by (rule unsigned_less)
  then have "length (decimal (unat (ntohs (sin_port a)))) \<le> 5"
    using length_decimal [of "unat (ntohs (sin_port a))" 4] by simp
  with length_ntop [of "s_addr a"] show ?thesis by (simp add: toIpPort_def)
qed

text \<open>
  C29. Printing and reading agree: the address and the port that \<open>toIp\<close> and \<open>toPort\<close> give, put
  into the constructor, make the same socket address again, whatever bytes it holds; and the text
  that the constructor was given, if it has the form that \<open>toIp\<close> prints, is what \<open>toIp\<close> gives back.
\<close>

theorem address_round_trip:
  assumes "sin_family a = AF_INET"
  shows "mk_InetAddress (toPort a) (toIp a) = a
    \<and> toIp (mk_InetAddress p (inet_ntop ip)) = inet_ntop ip \<and> toPort (mk_InetAddress p (inet_ntop ip)) = p"
proof -
  have "htons (ntohs x) = x" for x using ntohs_htons [of x] by (simp add: htons_def ntohs_def)
  then show ?thesis
    using assms by (cases a) (simp add: mk_InetAddress_def toPort_def toIp_def ntohs_htons)
qed

theorem address_round_trip_witness:
  "mk_InetAddress (toPort (mk_InetAddress 8080 ''127.0.0.1'')) (toIp (mk_InetAddress 8080 ''127.0.0.1''))
     = mk_InetAddress 8080 ''127.0.0.1''"
  by (rule address_round_trip [THEN conjunct1]) (simp add: mk_InetAddress_def)

text \<open>
  The buffers of 64 characters in \<open>toIp\<close> and \<open>toIpPort\<close> are large enough for every address
  and port, with the terminating zero: the first holds at most 15, the second at most 21
  characters.
\<close>

lemma address_text_fits: "length (toIp a) \<le> 15 \<and> length (toIpPort a) \<le> 21 \<and> length (toIpPort a) < 64"
  using length_ntop [of "s_addr a"] length_toIpPort [of a] by (simp add: toIp_def)

end
