(* ===== verification/TcpConnection.thy ===== *)
theory TcpConnection
  imports Reactor Socket InetAddress
begin

text \<open>
  TcpConnection.h, TcpConnection.cc and Callbacks.cc: a connection with its socket, channel, state
  and buffers. The state \<open>conn_net\<close> adds the connections, the strings of the application and the
  trace of its callbacks to \<open>net\<close>. The application is a function \<open>app\<close> from a callback and the state (with the trace) to the calls
  that the callback makes; the close callback \<open>close\<close> is the owner's (TcpServer or TcpClient).
\<close>

section \<open>The class\<close>

datatype StateE = kDisconnected | kConnecting | kConnected | kDisconnecting

text \<open>
  A user callback that is set is the application's (\<open>UserCb\<close>) or the default of Callbacks.cc.
\<close>

datatype user_cb = UserCb | DefaultCb

record conn =
  cn_loop :: nat
  cn_name :: string
  cn_state :: StateE
  cn_reading :: bool
  cn_socket :: sock
  cn_channel :: nat
  cn_localAddr :: sockaddr_in
  cn_peerAddr :: sockaddr_in
  cn_connectionCallback :: "user_cb option"
  cn_messageCallback :: "user_cb option"
  cn_writeCompleteCallback :: "user_cb option"
  cn_highWaterMarkCallback :: "user_cb option"
  cn_closeCallback :: "close_target option"
  cn_highWaterMark :: size_t
  cn_inputBuffer :: buffer
  cn_outputBuffer :: buffer

datatype app_event = OnConnection nat | OnMessage nat timestamp | OnWriteComplete nat
  | OnHighWaterMark nat size_t | OnThreadInit nat | OnUser nat

record conn_net = net +
  cn_conns :: "nat \<Rightarrow> conn option"
  cn_strings :: "nat \<Rightarrow> byte list option"
  cn_trace :: "app_event list"

definition get_conn :: "nat \<Rightarrow> 'a conn_net_scheme \<Rightarrow> conn res" where
  "get_conn c w = deref UseAfterFree (cn_conns w c)"

definition put_conn :: "nat \<Rightarrow> conn \<Rightarrow> 'a conn_net_scheme \<Rightarrow> 'a conn_net_scheme" where
  "put_conn c cn w = w\<lparr>cn_conns := (cn_conns w)(c \<mapsto> cn)\<rparr>"

definition upd_conn :: "nat \<Rightarrow> (conn \<Rightarrow> conn) \<Rightarrow> 'a conn_net_scheme \<Rightarrow> 'a conn_net_scheme res" where
  "upd_conn c f w = bind_res (get_conn c w) (\<lambda>cn. Inr (put_conn c (f cn) w))"

definition connected :: "conn \<Rightarrow> bool" where
  [simp]: "connected cn \<longleftrightarrow> cn_state cn = kConnected"

text \<open>The setters that the owners of a connection call.\<close>

definition conn_setConnectionCallback :: "user_cb option \<Rightarrow> conn \<Rightarrow> conn" where
  [simp]: "conn_setConnectionCallback cb cn = cn\<lparr>cn_connectionCallback := cb\<rparr>"

definition conn_setMessageCallback :: "user_cb option \<Rightarrow> conn \<Rightarrow> conn" where
  [simp]: "conn_setMessageCallback cb cn = cn\<lparr>cn_messageCallback := cb\<rparr>"

definition conn_setWriteCompleteCallback :: "user_cb option \<Rightarrow> conn \<Rightarrow> conn" where
  [simp]: "conn_setWriteCompleteCallback cb cn = cn\<lparr>cn_writeCompleteCallback := cb\<rparr>"

definition conn_setCloseCallback :: "close_target \<Rightarrow> conn \<Rightarrow> conn" where
  [simp]: "conn_setCloseCallback t cn = cn\<lparr>cn_closeCallback := Some t\<rparr>"

text \<open>The constructor, at address \<open>c\<close> with the channel at \<open>d\<close>; the callbacks are set later.\<close>

definition mk_conn :: "nat \<Rightarrow> string \<Rightarrow> sock \<Rightarrow> nat \<Rightarrow> sockaddr_in \<Rightarrow> sockaddr_in \<Rightarrow> conn" where
  "mk_conn loop name sk d localAddr peerAddr =
     \<lparr>cn_loop = loop, cn_name = name, cn_state = kConnecting, cn_reading = True,
      cn_socket = sk\<lparr>sk_opts := setKeepAlive True (sk_opts sk)\<rparr>,
      cn_channel = d, cn_localAddr = localAddr, cn_peerAddr = peerAddr,
      cn_connectionCallback = None, cn_messageCallback = None, cn_writeCompleteCallback = None,
      cn_highWaterMarkCallback = None, cn_closeCallback = None,
      cn_highWaterMark = 64 * 1024 * 1024,
      cn_inputBuffer = mk_buffer kInitialSize, cn_outputBuffer = mk_buffer kInitialSize\<rparr>"

definition conn_channel :: "nat \<Rightarrow> nat \<Rightarrow> int \<Rightarrow> channel" where
  "conn_channel loop c fd = setErrorCallback (ConnHandleError c) (setCloseCallback (ConnHandleClose c)
     (setWriteCallback (ConnHandleWrite c) (setReadCallback (ConnHandleRead c) (mk_channel loop fd))))"

definition new_conn :: "nat \<Rightarrow> nat \<Rightarrow> nat \<Rightarrow> string \<Rightarrow> sock \<Rightarrow> sockaddr_in \<Rightarrow> sockaddr_in \<Rightarrow>
    'a conn_net_scheme \<Rightarrow> 'a conn_net_scheme res" where
  "new_conn c d loop name sk localAddr peerAddr w =
     (if cn_conns w c \<noteq> None \<or> n_chans w d \<noteq> None then Inl BadAlloc
      else Inr (put_conn c (mk_conn loop name sk d localAddr peerAddr)
                 (put_chan d (conn_channel loop c (sk_fd sk)) w)))"

text \<open>
  The destructor, when the last \<open>shared_ptr\<close> goes: the channel is destroyed (not removed from
  the poller) and the socket closed.
\<close>

definition destroy_conn :: "nat \<Rightarrow> 'a conn_net_scheme \<Rightarrow> 'a conn_net_scheme res" where
  "destroy_conn c w =
     bind_res (get_conn c w) (\<lambda>cn.
       Inr (w\<lparr>n_chans := (n_chans w)(cn_channel cn := None), cn_conns := (cn_conns w)(c := None)\<rparr>))"

section \<open>Sending\<close>

text \<open>
  \<open>sendInLoop\<close>: the direct write when nothing is queued in the connection, then \<open>store_rest\<close>
  for what remains. \<open>data\<close> are the \<open>len\<close> bytes behind the pointer.
\<close>

definition direct_write :: "nat \<Rightarrow> conn \<Rightarrow> byte list \<Rightarrow> 'a conn_net_scheme \<Rightarrow>
    (nat \<times> size_t \<times> bool \<times> 'a conn_net_scheme) res" where
  "direct_write c cn data w =
     (let len = of_nat (length data);
          (n, errno, sk) = sock_write data (cn_socket cn);
          w = put_conn c (cn\<lparr>cn_socket := sk\<rparr>) w in
      if n \<ge> 0
      then let remaining = len - of_int n in
        bind_res (if remaining = 0 \<and> cn_writeCompleteCallback cn \<noteq> None
                  then queueInLoop (cn_loop cn) (FWriteComplete c) w else Inr w)
          (\<lambda>w. Inr (nat n, remaining, False, w))
      else Inr (0, len, errno \<noteq> EWOULDBLOCK \<and> (errno = EPIPE \<or> errno = ECONNRESET), w))"

definition store_rest :: "nat \<Rightarrow> byte list \<Rightarrow> size_t \<Rightarrow> 'a conn_net_scheme \<Rightarrow>
    'a conn_net_scheme res" where
  "store_rest c rest remaining w =
     bind_res (get_conn c w) (\<lambda>cn.
       let oldlen = readableBytes (cn_outputBuffer cn) in
       bind_res (if oldlen + remaining \<ge> cn_highWaterMark cn \<and> oldlen < cn_highWaterMark cn
                   \<and> cn_highWaterMarkCallback cn \<noteq> None
                 then queueInLoop (cn_loop cn) (FHighWaterMark c (oldlen + remaining)) w else Inr w)
         (\<lambda>w. bind_res (append_buf rest (cn_outputBuffer cn)) (\<lambda>out.
           let w = put_conn c (cn\<lparr>cn_outputBuffer := out\<rparr>) w in
           bind_res (get_chan (cn_channel cn) w) (\<lambda>ch.
             if \<not> isWriting ch then change_mask EnableWriting (cn_channel cn) w else Inr w))))"

definition sendInLoop :: "nat \<Rightarrow> byte list \<Rightarrow> 'a conn_net_scheme \<Rightarrow> 'a conn_net_scheme res" where
  "sendInLoop c data w =
     bind_res (get_conn c w) (\<lambda>cn.
       if cn_state cn = kDisconnected then Inr w
       else bind_res (get_chan (cn_channel cn) w) (\<lambda>ch.
         bind_res (if \<not> isWriting ch \<and> readableBytes (cn_outputBuffer cn) = 0
                   then direct_write c cn data w
                   else Inr (0, of_nat (length data), False, w))
           (\<lambda>(nwrote, remaining, faultError, w).
             if \<not> faultError \<and> remaining > 0 then store_rest c (drop nwrote data) remaining w
             else Inr w)))"

text \<open>
  \<open>send\<close> with the application's string at \<open>p\<close>. From another thread it binds the pointer and the
  length; the functor reads through the pointer when it runs.
\<close>

definition tcp_send :: "nat \<Rightarrow> nat \<Rightarrow> 'a conn_net_scheme \<Rightarrow> 'a conn_net_scheme res" where
  "tcp_send c p w =
     bind_res (get_conn c w) (\<lambda>cn. bind_res (deref UseAfterFree (cn_strings w p)) (\<lambda>data.
       if cn_state cn = kConnected
       then bind_res (isInLoopThread (cn_loop cn) w) (\<lambda>here.
         if here then sendInLoop c data w
         else queueInLoop (cn_loop cn) (FSendInLoop c p (of_nat (length data))) w)
       else Inr w))"

definition send_functor :: "nat \<Rightarrow> nat \<Rightarrow> size_t \<Rightarrow> 'a conn_net_scheme \<Rightarrow> 'a conn_net_scheme res" where
  "send_functor c p len w =
     bind_res (deref UseAfterFree (cn_strings w p)) (\<lambda>data.
       if unat len \<le> length data then sendInLoop c (take (unat len) data) w else Inl OutOfRange)"

section \<open>Shutting down\<close>

definition shutdownInLoop :: "nat \<Rightarrow> 'a conn_net_scheme \<Rightarrow> 'a conn_net_scheme res" where
  "shutdownInLoop c w =
     bind_res (get_conn c w) (\<lambda>cn. bind_res (get_chan (cn_channel cn) w) (\<lambda>ch.
       if \<not> isWriting ch then Inr (put_conn c (cn\<lparr>cn_socket := shutdownWrite (cn_socket cn)\<rparr>) w)
       else Inr w))"

definition tcp_shutdown :: "nat \<Rightarrow> 'a conn_net_scheme \<Rightarrow> 'a conn_net_scheme res" where
  "tcp_shutdown c w =
     bind_res (get_conn c w) (\<lambda>cn.
       if cn_state cn = kConnected
       then runInLoop (cn_loop cn) (FShutdownInLoop c) (shutdownInLoop c)
              (put_conn c (cn\<lparr>cn_state := kDisconnecting\<rparr>) w)
       else Inr w)"

text \<open>
  \<open>forceClose\<close> reads the state, and then writes it in a step of its own (there is no compare and
  swap); called in the thread of the loop, nothing comes between the two.
\<close>

definition forceClose_test :: "nat \<Rightarrow> 'a conn_net_scheme \<Rightarrow> bool res" where
  "forceClose_test c w =
     bind_res (get_conn c w) (\<lambda>cn. Inr (cn_state cn = kConnected \<or> cn_state cn = kDisconnecting))"

definition forceClose_set :: "nat \<Rightarrow> 'a conn_net_scheme \<Rightarrow> 'a conn_net_scheme res" where
  "forceClose_set c w =
     bind_res (get_conn c w) (\<lambda>cn.
       queueInLoop (cn_loop cn) (FForceCloseInLoop c) (put_conn c (cn\<lparr>cn_state := kDisconnecting\<rparr>) w))"

definition forceClose :: "nat \<Rightarrow> 'a conn_net_scheme \<Rightarrow> 'a conn_net_scheme res" where
  "forceClose c w = bind_res (forceClose_test c w) (\<lambda>b. if b then forceClose_set c w else Inr w)"

lemmas forceClose_defs = forceClose_def forceClose_test_def forceClose_set_def

section \<open>The application\<close>

text \<open>
  What a callback of the application can call: \<open>send\<close>, \<open>shutdown\<close>, \<open>forceClose\<close>, the taking of
  bytes out of the input buffer, and the life of its strings. A call through a dangling pointer
  of the application's own is its \<open>Misuse\<close>.
\<close>

datatype api = NewString nat "byte list" | FreeString nat | Send nat nat | Shutdown nat
  | ForceClose nat | Retrieve nat size_t | RetrieveAll nat

fun run_api :: "api \<Rightarrow> 'a conn_net_scheme \<Rightarrow> 'a conn_net_scheme res" where
  "run_api (NewString p s) w =
     (if cn_strings w p = None \<and> length s < 2 ^ 64 then Inr (w\<lparr>cn_strings := (cn_strings w)(p \<mapsto> s)\<rparr>)
      else Inl BadAlloc)"
| "run_api (FreeString p) w = Inr (w\<lparr>cn_strings := (cn_strings w)(p := None)\<rparr>)"
| "run_api (Send c p) w =
     (if cn_conns w c \<noteq> None \<and> cn_strings w p \<noteq> None then tcp_send c p w else Inl Misuse)"
| "run_api (Shutdown c) w = (if cn_conns w c \<noteq> None then tcp_shutdown c w else Inl Misuse)"
| "run_api (ForceClose c) w = (if cn_conns w c \<noteq> None then forceClose c w else Inl Misuse)"
| "run_api (Retrieve c n) w =
     (if cn_conns w c \<noteq> None
      then upd_conn c (\<lambda>cn. cn\<lparr>cn_inputBuffer := retrieve n (cn_inputBuffer cn)\<rparr>) w else Inl Misuse)"
| "run_api (RetrieveAll c) w =
     (if cn_conns w c \<noteq> None
      then upd_conn c (\<lambda>cn. cn\<lparr>cn_inputBuffer := retrieveAll (cn_inputBuffer cn)\<rparr>) w else Inl Misuse)"

definition call_app :: "(app_event \<Rightarrow> 'a conn_net_scheme \<Rightarrow> api list) \<Rightarrow> app_event \<Rightarrow>
    'a conn_net_scheme \<Rightarrow> 'a conn_net_scheme res" where
  "call_app app ev w =
     (let w = w\<lparr>cn_trace := cn_trace w @ [ev]\<rparr> in fold_res run_api (app ev w) w)"

text \<open>
  The defaults of Callbacks.cc: one only logs, one drops the input. An empty \<open>std::function\<close> throws.
\<close>

definition defaultConnectionCallback :: "nat \<Rightarrow> 'a conn_net_scheme \<Rightarrow> 'a conn_net_scheme res" where
  [simp]: "defaultConnectionCallback c w = Inr w"

definition defaultMessageCallback :: "nat \<Rightarrow> 'a conn_net_scheme \<Rightarrow> 'a conn_net_scheme res" where
  [simp]: "defaultMessageCallback c w = run_api (RetrieveAll c) w"

definition connectionCallback :: "(app_event \<Rightarrow> 'a conn_net_scheme \<Rightarrow> api list) \<Rightarrow> nat \<Rightarrow>
    'a conn_net_scheme \<Rightarrow> 'a conn_net_scheme res" where
  "connectionCallback app c w =
     bind_res (get_conn c w) (\<lambda>cn. case cn_connectionCallback cn of
         None \<Rightarrow> Inl BadFunctionCall
       | Some DefaultCb \<Rightarrow> defaultConnectionCallback c w
       | Some UserCb \<Rightarrow> call_app app (OnConnection c) w)"

definition messageCallback :: "(app_event \<Rightarrow> 'a conn_net_scheme \<Rightarrow> api list) \<Rightarrow> timestamp \<Rightarrow> nat \<Rightarrow>
    'a conn_net_scheme \<Rightarrow> 'a conn_net_scheme res" where
  "messageCallback app receiveTime c w =
     bind_res (get_conn c w) (\<lambda>cn. case cn_messageCallback cn of
         None \<Rightarrow> Inl BadFunctionCall
       | Some DefaultCb \<Rightarrow> defaultMessageCallback c w
       | Some UserCb \<Rightarrow> call_app app (OnMessage c receiveTime) w)"

section \<open>The life of a connection\<close>

definition connectEstablished :: "(app_event \<Rightarrow> 'a conn_net_scheme \<Rightarrow> api list) \<Rightarrow> nat \<Rightarrow>
    'a conn_net_scheme \<Rightarrow> 'a conn_net_scheme res" where
  "connectEstablished app c w =
     bind_res (get_conn c w) (\<lambda>cn. bind_res (get_chan (cn_channel cn) w) (\<lambda>ch.
       bind_res (change_mask EnableReading (cn_channel cn)
           (put_chan (cn_channel cn) (tie_channel c ch) (put_conn c (cn\<lparr>cn_state := kConnected\<rparr>) w)))
         (connectionCallback app c)))"

definition connectDestroyed :: "(app_event \<Rightarrow> 'a conn_net_scheme \<Rightarrow> api list) \<Rightarrow> nat \<Rightarrow>
    'a conn_net_scheme \<Rightarrow> 'a conn_net_scheme res" where
  "connectDestroyed app c w =
     bind_res (get_conn c w) (\<lambda>cn.
       bind_res (if cn_state cn = kConnected
                 then bind_res (change_mask DisableAll (cn_channel cn)
                         (put_conn c (cn\<lparr>cn_state := kDisconnected\<rparr>) w)) (connectionCallback app c)
                 else Inr w)
         (chan_remove (cn_channel cn)))"

definition closeCallback_call :: "(close_target \<Rightarrow> nat \<Rightarrow> 'a conn_net_scheme \<Rightarrow> 'a conn_net_scheme res) \<Rightarrow>
    nat \<Rightarrow> 'a conn_net_scheme \<Rightarrow> 'a conn_net_scheme res" where
  "closeCallback_call close c w =
     bind_res (get_conn c w) (\<lambda>cn. case cn_closeCallback cn of
         None \<Rightarrow> Inl BadFunctionCall | Some t \<Rightarrow> close t c w)"

definition handleClose :: "(app_event \<Rightarrow> 'a conn_net_scheme \<Rightarrow> api list) \<Rightarrow>
    (close_target \<Rightarrow> nat \<Rightarrow> 'a conn_net_scheme \<Rightarrow> 'a conn_net_scheme res) \<Rightarrow> nat \<Rightarrow>
    'a conn_net_scheme \<Rightarrow> 'a conn_net_scheme res" where
  "handleClose app close c w =
     bind_res (get_conn c w) (\<lambda>cn.
       bind_res (change_mask DisableAll (cn_channel cn) (put_conn c (cn\<lparr>cn_state := kDisconnected\<rparr>) w)) (\<lambda>w.
       bind_res (connectionCallback app c w) (closeCallback_call close c)))"

text \<open>\<open>handleError\<close> reads SO_ERROR and logs it.\<close>

definition handleError :: "nat \<Rightarrow> 'a conn_net_scheme \<Rightarrow> 'a conn_net_scheme res" where
  "handleError c w = bind_res (get_conn c w) (\<lambda>cn. Inr w)"

definition handleRead :: "(app_event \<Rightarrow> 'a conn_net_scheme \<Rightarrow> api list) \<Rightarrow>
    (close_target \<Rightarrow> nat \<Rightarrow> 'a conn_net_scheme \<Rightarrow> 'a conn_net_scheme res) \<Rightarrow> timestamp \<Rightarrow> nat \<Rightarrow>
    'a conn_net_scheme \<Rightarrow> 'a conn_net_scheme res" where
  "handleRead app close receiveTime c w =
     bind_res (get_conn c w) (\<lambda>cn.
       bind_res (readFd (next_read (cn_socket cn)) 0 (cn_inputBuffer cn)) (\<lambda>(n, saveErrno, b).
         let w = put_conn c (cn\<lparr>cn_inputBuffer := b,
               cn_socket := (cn_socket cn)\<lparr>sk_reads := tl (sk_reads (cn_socket cn))\<rparr>\<rparr>) w in
         if n > 0 then messageCallback app receiveTime c w
         else if n = 0 then handleClose app close c w
         else handleError c w))"

definition handleWrite :: "nat \<Rightarrow> 'a conn_net_scheme \<Rightarrow> 'a conn_net_scheme res" where
  "handleWrite c w =
     bind_res (get_conn c w) (\<lambda>cn. bind_res (get_chan (cn_channel cn) w) (\<lambda>ch.
       if isWriting ch
       then let (n, saveErrno, bytes) = writeFd (next_write (cn_socket cn)) 0 (cn_outputBuffer cn);
                sk = (cn_socket cn)\<lparr>sk_writes := tl (sk_writes (cn_socket cn)),
                       sk_sent := sk_sent (cn_socket cn) @ bytes\<rparr> in
         if n > 0
         then let out = retrieve (of_int n) (cn_outputBuffer cn);
                  w = put_conn c (cn\<lparr>cn_socket := sk, cn_outputBuffer := out\<rparr>) w in
           if readableBytes out = 0
           then bind_res (change_mask DisableWriting (cn_channel cn) w) (\<lambda>w.
             bind_res (if cn_writeCompleteCallback cn \<noteq> None
                       then queueInLoop (cn_loop cn) (FWriteComplete c) w else Inr w) (\<lambda>w.
             if cn_state cn = kDisconnecting then shutdownInLoop c w else Inr w))
           else Inr w
         else Inr (put_conn c (cn\<lparr>cn_socket := sk\<rparr>) w)
       else Inr w))"

definition forceCloseInLoop :: "(app_event \<Rightarrow> 'a conn_net_scheme \<Rightarrow> api list) \<Rightarrow>
    (close_target \<Rightarrow> nat \<Rightarrow> 'a conn_net_scheme \<Rightarrow> 'a conn_net_scheme res) \<Rightarrow> nat \<Rightarrow>
    'a conn_net_scheme \<Rightarrow> 'a conn_net_scheme res" where
  "forceCloseInLoop app close c w =
     bind_res (get_conn c w) (\<lambda>cn.
       if cn_state cn = kConnected \<or> cn_state cn = kDisconnecting then handleClose app close c w
       else Inr w)"

section \<open>Handlers and functors\<close>

text \<open>
  What the loop calls: \<open>other\<close> runs the callbacks and functors of the other classes. A tied
  channel's object is the connection.
\<close>

definition run_conn_handler :: "(app_event \<Rightarrow> 'a conn_net_scheme \<Rightarrow> api list) \<Rightarrow>
    (close_target \<Rightarrow> nat \<Rightarrow> 'a conn_net_scheme \<Rightarrow> 'a conn_net_scheme res) \<Rightarrow>
    (handler \<Rightarrow> 'a conn_net_scheme \<Rightarrow> 'a conn_net_scheme res) \<Rightarrow> timestamp \<Rightarrow> handler \<Rightarrow>
    'a conn_net_scheme \<Rightarrow> 'a conn_net_scheme res" where
  "run_conn_handler app close other receiveTime h w = (case h of
      LoopHandleRead l \<Rightarrow> loop_handleRead l w
    | ConnHandleRead c \<Rightarrow> handleRead app close receiveTime c w
    | ConnHandleWrite c \<Rightarrow> handleWrite c w
    | ConnHandleClose c \<Rightarrow> handleClose app close c w
    | ConnHandleError c \<Rightarrow> handleError c w
    | _ \<Rightarrow> other h w)"

definition run_conn_functor :: "(app_event \<Rightarrow> 'a conn_net_scheme \<Rightarrow> api list) \<Rightarrow>
    (close_target \<Rightarrow> nat \<Rightarrow> 'a conn_net_scheme \<Rightarrow> 'a conn_net_scheme res) \<Rightarrow>
    (Functor \<Rightarrow> 'a conn_net_scheme \<Rightarrow> 'a conn_net_scheme res) \<Rightarrow> Functor \<Rightarrow>
    'a conn_net_scheme \<Rightarrow> 'a conn_net_scheme res" where
  "run_conn_functor app close other f w = (case f of
      FConnectEstablished c \<Rightarrow> connectEstablished app c w
    | FConnectDestroyed c \<Rightarrow> connectDestroyed app c w
    | FForceCloseInLoop c \<Rightarrow> forceCloseInLoop app close c w
    | FSendInLoop c p len \<Rightarrow> send_functor c p len w
    | FShutdownInLoop c \<Rightarrow> shutdownInLoop c w
    | FWriteComplete c \<Rightarrow> call_app app (OnWriteComplete c) w
    | FHighWaterMark c n \<Rightarrow> call_app app (OnHighWaterMark c n) w
    | FSetCloseCallback c t \<Rightarrow> upd_conn c (\<lambda>cn. cn\<lparr>cn_closeCallback := Some t\<rparr>) w
    | _ \<Rightarrow> other f w)"

definition conn_alive :: "nat \<Rightarrow> 'a conn_net_scheme \<Rightarrow> bool" where
  "conn_alive c w \<longleftrightarrow> cn_conns w c \<noteq> None"

end
