(* ===== verification/Connection.thy ===== *)
theory Connection
  imports TcpConnection
begin

text \<open>
  What a connection does. First the state seen from one connection (\<open>setc\<close>: the connection, its
  channel and its loop put into a state), in which every primitive step is a rewrite rule; then
  the invariant \<open>conn_inv\<close> over all connections, and the effect of each operation on each branch.
\<close>

section \<open>Focus on one connection\<close>

definition setc :: "nat \<Rightarrow> conn \<Rightarrow> channel \<Rightarrow> evloop \<Rightarrow> 'a conn_net_scheme \<Rightarrow> 'a conn_net_scheme" where
  "setc c cn ch el w = put_conn c cn (put_chan (cn_channel cn) ch (put_loop (cn_loop cn) el w))"

lemma conn_simps [simp]:
  "cn_conns (put_loop l el w) = cn_conns w" "cn_strings (put_loop l el w) = cn_strings w"
  "cn_trace (put_loop l el w) = cn_trace w"
  "cn_conns (put_chan d ch w) = cn_conns w" "cn_strings (put_chan d ch w) = cn_strings w"
  "cn_trace (put_chan d ch w) = cn_trace w"
  "cn_conns (put_conn c cn w) = (cn_conns w)(c \<mapsto> cn)" "cn_strings (put_conn c cn w) = cn_strings w"
  "cn_trace (put_conn c cn w) = cn_trace w" "n_tid (put_conn c cn w) = n_tid w"
  "n_loops (put_conn c cn w) = n_loops w" "n_chans (put_conn c cn w) = n_chans w"
  by (simp_all add: put_loop_def put_chan_def put_conn_def)

lemma setc_simps [simp]:
  "cn_conns (setc c cn ch el w) = (cn_conns w)(c \<mapsto> cn)"
  "n_chans (setc c cn ch el w) = (n_chans w)(cn_channel cn \<mapsto> ch)"
  "n_loops (setc c cn ch el w) = (n_loops w)(cn_loop cn \<mapsto> el)"
  "n_tid (setc c cn ch el w) = n_tid w" "cn_strings (setc c cn ch el w) = cn_strings w"
  "cn_trace (setc c cn ch el w) = cn_trace w"
  by (simp_all add: setc_def)

lemma get_conn_simps [simp]:
  "get_conn c (setc c cn ch el w) = Inr cn"
  "get_conn c w = Inr cn \<longleftrightarrow> cn_conns w c = Some cn"
  by (simp_all add: get_conn_def)

lemma setc_reads:
  "d = cn_channel cn \<Longrightarrow> get_chan d (setc c cn ch el w) = Inr ch"
  "l = cn_loop cn \<Longrightarrow> get_loop l (setc c cn ch el w) = Inr el"
  by simp_all

lemma setc_put_conn:
  "cn_channel cn' = cn_channel cn \<Longrightarrow> cn_loop cn' = cn_loop cn \<Longrightarrow>
   put_conn c cn' (setc c cn ch el w) = setc c cn' ch el w"
  by (simp add: setc_def put_conn_def)

lemma setc_put_chan:
  "d = cn_channel cn \<Longrightarrow> put_chan d ch' (setc c cn ch el w) = setc c cn ch' el w"
  by (simp add: setc_def put_conn_def put_chan_def put_loop_def)

lemma setc_put_loop:
  "l = cn_loop cn \<Longrightarrow> put_loop l el' (setc c cn ch el w) = setc c cn ch el' w"
  by (simp add: setc_def put_conn_def put_chan_def put_loop_def)

lemma setc_queueInLoop:
  "l = cn_loop cn \<Longrightarrow>
   queueInLoop l f (setc c cn ch el w) = Inr (setc c cn ch (queued (n_tid w) f el) w)"
  by (simp add: queueInLoop_eq setc_put_loop)

lemma setc_isInLoopThread:
  "l = cn_loop cn \<Longrightarrow> isInLoopThread l (setc c cn ch el w) = Inr (threadId el = n_tid w)"
  by (simp add: isInLoopThread_def)

lemma setc_self:
  "cn_conns w c = Some cn \<Longrightarrow> n_chans w (cn_channel cn) = Some ch \<Longrightarrow> n_loops w (cn_loop cn) = Some el \<Longrightarrow>
   setc c cn ch el w = w"
  by (simp add: setc_def put_conn_def put_chan_def put_loop_def fun_upd_idem)

text \<open>The channel of a connection is on its loop, has its descriptor and calls its handlers.\<close>

definition owns :: "nat \<Rightarrow> conn \<Rightarrow> channel \<Rightarrow> bool" where
  "owns c cn ch \<longleftrightarrow> ch_loop ch = cn_loop cn \<and> ch_fd ch = sk_fd (cn_socket cn)
     \<and> readCallback ch = Some (ConnHandleRead c) \<and> writeCallback ch = Some (ConnHandleWrite c)
     \<and> closeCallback ch = Some (ConnHandleClose c) \<and> errorCallback ch = Some (ConnHandleError c)"

lemma tie_channel_simps [simp]:
  "ch_index (tie_channel n ch) = ch_index ch" "ch_fd (tie_channel n ch) = ch_fd ch"
  "ch_loop (tie_channel n ch) = ch_loop ch" "ch_events (tie_channel n ch) = ch_events ch"
  "ch_revents (tie_channel n ch) = ch_revents ch"
  "ch_tied (tie_channel n ch)" "ch_tie (tie_channel n ch) = Some n"
  by (simp_all add: tie_channel_def)

lemma owns_upd [simp]:
  "owns c cn (masked m ch) = owns c cn ch" "owns c cn (ch\<lparr>ch_index := i\<rparr>) = owns c cn ch"
  "owns c cn (tie_channel n ch) = owns c cn ch"
  by (simp_all add: owns_def tie_channel_def)

definition linked :: "nat \<Rightarrow> conn \<Rightarrow> channel \<Rightarrow> evloop \<Rightarrow> 'a conn_net_scheme \<Rightarrow> bool" where
  "linked c cn ch el w \<longleftrightarrow> cn_conns w c = Some cn \<and> n_chans w (cn_channel cn) = Some ch
     \<and> n_loops w (cn_loop cn) = Some el \<and> owns c cn ch \<and> may_add (el_poller el) ch"

definition same_place :: "conn \<Rightarrow> conn \<Rightarrow> bool" where
  "same_place cn cn' \<longleftrightarrow> cn_channel cn' = cn_channel cn \<and> cn_loop cn' = cn_loop cn
     \<and> sk_fd (cn_socket cn') = sk_fd (cn_socket cn)"

text \<open>
  The state of connection \<open>c\<close> may be put into \<open>w\<close>: the connection is still at its place, poller,
  kernel and channels agree, and the map of the poller differs at its descriptor at most.
\<close>

definition stays :: "nat \<Rightarrow> conn \<Rightarrow> int \<Rightarrow> poller \<Rightarrow> 'a conn_net_scheme \<Rightarrow> bool" where
  "stays c cn fd p w \<longleftrightarrow> (\<exists>cn0 ch0 el0. linked c cn0 ch0 el0 w \<and> same_place cn0 cn
     \<and> (\<forall>fd'. fd' \<noteq> fd \<longrightarrow> channels_map p fd' = channels_map (el_poller el0) fd'))"

definition focused :: "nat \<Rightarrow> conn \<Rightarrow> channel \<Rightarrow> evloop \<Rightarrow> 'a conn_net_scheme \<Rightarrow> bool" where
  "focused c cn ch el w \<longleftrightarrow> net_inv (setc c cn ch el w) \<and> may_add (el_poller el) ch \<and> owns c cn ch
     \<and> stays c cn (ch_fd ch) (el_poller el) w"

lemma stays_conn: "same_place cn cn' \<Longrightarrow> stays c cn fd p w \<Longrightarrow> stays c cn' fd p w"
  unfolding stays_def same_place_def by metis

lemma stays_sync: "fd = ch_fd ch \<Longrightarrow> stays c cn fd p w \<Longrightarrow> stays c cn fd (sync d ch p) w"
  unfolding stays_def sync_def by auto

lemma focused_self:
  assumes "net_inv w" "linked c cn ch el w"
  shows "focused c cn ch el w" "setc c cn ch el w = w"
proof -
  show w: "setc c cn ch el w = w" using assms(2) by (simp add: linked_def setc_self)
  show "focused c cn ch el w"
    unfolding focused_def w using assms by (auto simp: linked_def same_place_def stays_def)
qed

lemma net_inv_cong:
  "n_loops w' = n_loops w \<Longrightarrow> n_chans w' = n_chans w \<Longrightarrow> net_inv w' = net_inv w"
  by (simp add: net_inv_def)

lemma focused_conn:
  assumes "same_place cn cn'" "focused c cn ch el w"
  shows "focused c cn' ch el w"
proof -
  have "net_inv (setc c cn' ch el w) = net_inv (setc c cn ch el w)"
    by (rule net_inv_cong) (use assms(1) in \<open>simp_all add: same_place_def\<close>)
  moreover have "owns c cn' ch = owns c cn ch" using assms(1) by (simp add: owns_def same_place_def)
  ultimately show ?thesis using assms stays_conn unfolding focused_def by auto
qed

lemma focused_loop:
  assumes "el_poller el' = el_poller el" "focused c cn ch el w"
  shows "focused c cn ch el' w"
proof -
  have "setc c cn ch el' w = put_loop (cn_loop cn) el' (setc c cn ch el w)"
    by (simp add: setc_put_loop)
  then have "net_inv (setc c cn ch el' w)"
    using assms net_inv_put_loop [of "setc c cn ch el w" "cn_loop cn" el el'] by (simp add: focused_def)
  with assms show ?thesis by (simp add: focused_def)
qed

lemma focused_queued: "focused c cn ch el w \<Longrightarrow> focused c cn ch (queued t f el) w"
  by (rule focused_loop) simp_all

lemma focused_chan_ok:
  "focused c cn ch el w \<Longrightarrow> chan_ok (cn_channel cn) ch el (setc c cn ch el w)"
  by (simp add: focused_def chan_ok_def owns_def)

lemma setc_change_mask:
  assumes f: "focused c cn ch el w" and d: "d = cn_channel cn"
  shows "change_mask m d (setc c cn ch el w) = Inr (setc c cn (masked m ch) (synced d (masked m ch) el) w)"
proof -
  have "net_inv (setc c cn ch el w)" "ch_loop ch = cn_loop cn"
    using f by (simp_all add: focused_def owns_def)
  with change_mask_eq [OF _ focused_chan_ok [OF f], of m] d show ?thesis
    by (simp add: setc_put_loop setc_put_chan)
qed

lemma focused_masked:
  assumes f: "focused c cn ch el w" and d: "d = cn_channel cn"
  shows "focused c cn (masked m ch) (synced d (masked m ch) el) w"
proof -
  have l: "net_inv (setc c cn ch el w)" "ch_loop ch = cn_loop cn"
    using f by (simp_all add: focused_def owns_def)
  have "net_inv (setc c cn (masked m ch) (synced d (masked m ch) el) w)"
    using change_mask_ok(1) [OF l(1) focused_chan_ok [OF f], of m] l(2) d
    by (simp add: setc_put_loop setc_put_chan)
  with f show ?thesis
    unfolding focused_def by (simp add: stays_sync)
qed

lemma setc_chan_remove:
  assumes f: "focused c cn ch el w" and d: "d = cn_channel cn"
  shows "chan_remove d (setc c cn ch el w)
    = Inr (setc c cn (ch\<lparr>ch_index := KNew\<rparr>) (synced d (ch\<lparr>ch_index := KNew\<rparr>) el) w)"
proof -
  have "net_inv (setc c cn ch el w)" "ch_loop ch = cn_loop cn"
    using f by (simp_all add: focused_def owns_def)
  with chan_remove_eq [OF _ focused_chan_ok [OF f]] d show ?thesis
    by (simp add: setc_put_loop setc_put_chan)
qed

lemma focused_removed:
  assumes f: "focused c cn ch el w" and d: "d = cn_channel cn"
  shows "focused c cn (ch\<lparr>ch_index := KNew\<rparr>) (synced d (ch\<lparr>ch_index := KNew\<rparr>) el) w"
proof -
  have l: "net_inv (setc c cn ch el w)" "ch_loop ch = cn_loop cn"
    using f by (simp_all add: focused_def owns_def)
  have "index_ok (ch\<lparr>ch_index := KNew\<rparr>)" by (simp add: index_ok_def)
  then have "net_inv (setc c cn (ch\<lparr>ch_index := KNew\<rparr>) (synced d (ch\<lparr>ch_index := KNew\<rparr>) el) w)"
    using net_inv_sync [OF l(1) focused_chan_ok [OF f], of "ch\<lparr>ch_index := KNew\<rparr>"] l(2) d
    by (simp add: setc_put_loop setc_put_chan)
  with f show ?thesis
    unfolding focused_def by (simp add: stays_sync)
qed

lemma focused_tied:
  assumes f: "focused c cn ch el w"
  shows "focused c cn (tie_channel n ch) el w"
proof -
  have "poller_inv l (el_poller el') ((n_chans w)(cn_channel cn \<mapsto> tie_channel n ch))"
    if "poller_inv l (el_poller el') ((n_chans w)(cn_channel cn \<mapsto> ch))" for l el'
    using that by (rule poller_inv_cong) simp
  then have "net_inv (setc c cn (tie_channel n ch) el w)"
    using f unfolding focused_def net_inv_def setc_simps by blast
  with f show ?thesis unfolding focused_def
    by (simp add: may_add_def)
qed

text \<open>The rules that run the operations in focus.\<close>

lemmas setc_rules = setc_reads setc_put_conn setc_put_chan setc_queueInLoop setc_isInLoopThread
  setc_change_mask setc_chan_remove

lemma same_place_simps [simp]:
  "same_place cn cn"
  "same_place cn (cn'\<lparr>cn_state := s\<rparr>) = same_place cn cn'"
  "same_place cn (cn'\<lparr>cn_inputBuffer := b\<rparr>) = same_place cn cn'"
  "same_place cn (cn'\<lparr>cn_outputBuffer := b\<rparr>) = same_place cn cn'"
  "same_place cn (cn'\<lparr>cn_closeCallback := t\<rparr>) = same_place cn cn'"
  "sk_fd sk = sk_fd (cn_socket cn) \<Longrightarrow> same_place cn (cn\<lparr>cn_socket := sk\<rparr>)"
  by (auto simp: same_place_def)

section \<open>The invariant\<close>

definition pending_out :: "conn \<Rightarrow> byte list" where
  "pending_out cn = content (cn_outputBuffer cn)"

text \<open>The bytes handed to the kernel and the bytes that wait, in order.\<close>

definition stream :: "conn \<Rightarrow> byte list" where
  "stream cn = sk_sent (cn_socket cn) @ pending_out cn"

text \<open>
  A connection agrees with its channel: unless it is down it watches writing exactly when bytes
  wait; while it is up it watches reading; once it is down it watches nothing. The sending side
  is shut down in a closing state only.
\<close>

definition conn_local :: "conn \<Rightarrow> channel \<Rightarrow> bool" where
  "conn_local cn ch \<longleftrightarrow> wf_buffer (cn_inputBuffer cn) \<and> wf_buffer (cn_outputBuffer cn)
     \<and> (cn_state cn \<noteq> kDisconnected \<longrightarrow> (isWriting ch \<longleftrightarrow> pending_out cn \<noteq> []))
     \<and> (cn_state cn = kConnected \<or> cn_state cn = kDisconnecting \<longrightarrow> isReading ch)
     \<and> (cn_state cn = kDisconnected \<longrightarrow> isNoneEvent ch)
     \<and> (sk_fin (cn_socket cn) \<longrightarrow> cn_state cn = kDisconnecting \<or> cn_state cn = kDisconnected)"

definition conn_inv :: "'a conn_net_scheme \<Rightarrow> bool" where
  "conn_inv w \<longleftrightarrow> net_inv w
     \<and> (\<forall>c cn. cn_conns w c = Some cn \<longrightarrow> (\<exists>ch el. linked c cn ch el w \<and> conn_local cn ch))
     \<and> (\<forall>c d cn dn. cn_conns w c = Some cn \<and> cn_conns w d = Some dn \<and> c \<noteq> d \<longrightarrow>
          sk_fd (cn_socket cn) \<noteq> sk_fd (cn_socket dn))
     \<and> (\<forall>p s. cn_strings w p = Some s \<longrightarrow> length s < 2 ^ 64)"

lemma conn_invE:
  assumes "conn_inv w" "cn_conns w c = Some cn"
  obtains ch el where "linked c cn ch el w" "conn_local cn ch" "focused c cn ch el w"
    "setc c cn ch el w = w"
proof -
  obtain ch el where l: "linked c cn ch el w" "conn_local cn ch"
    using assms unfolding conn_inv_def by blast
  moreover have "net_inv w" using assms(1) by (simp add: conn_inv_def)
  ultimately show ?thesis using focused_self that by blast
qed

lemma conn_inv_net: "conn_inv w \<Longrightarrow> net_inv w"
  and conn_inv_fds: "conn_inv w \<Longrightarrow> cn_conns w c = Some cn \<Longrightarrow> cn_conns w d = Some dn \<Longrightarrow> c \<noteq> d \<Longrightarrow>
    sk_fd (cn_socket cn) \<noteq> sk_fd (cn_socket dn)"
  and conn_inv_strings: "conn_inv w \<Longrightarrow> cn_strings w p = Some s \<Longrightarrow> length s < 2 ^ 64"
  unfolding conn_inv_def by blast+

text \<open>Channels of different connections are different: each calls the handlers of its own.\<close>

lemma linked_channels:
  "linked c cn ch el w \<Longrightarrow> linked d dn dh dl w \<Longrightarrow> c \<noteq> d \<Longrightarrow> cn_channel cn \<noteq> cn_channel dn"
  by (auto simp: linked_def owns_def)

text \<open>Putting a connection into a focused and locally consistent state keeps the invariant.\<close>

lemma conn_inv_setc:
  assumes inv: "conn_inv w" and f: "focused c cn ch el w" and loc: "conn_local cn ch"
  shows "conn_inv (setc c cn ch el w)"
proof -
  obtain cn0 ch0 el0 where l0: "linked c cn0 ch0 el0 w" "same_place cn0 cn"
    "\<forall>fd. fd \<noteq> ch_fd ch \<longrightarrow> channels_map (el_poller el) fd = channels_map (el_poller el0) fd"
    using f by (auto simp: focused_def stays_def)
  have fd: "ch_fd ch = sk_fd (cn_socket cn)" "owns c cn ch" "may_add (el_poller el) ch"
    using f by (simp_all add: focused_def owns_def)
  have other: "\<exists>dh dl. linked d dn dh dl (setc c cn ch el w) \<and> conn_local dn dh"
    if d: "cn_conns w d = Some dn" "d \<noteq> c" for d dn
  proof -
    obtain dh dl where l: "linked d dn dh dl w" "conn_local dn dh"
      using inv d(1) unfolding conn_inv_def by blast
    have neq: "cn_channel dn \<noteq> cn_channel cn"
      using linked_channels [OF l(1) l0(1) d(2)] l0(2) by (simp add: same_place_def)
    have "sk_fd (cn_socket dn) \<noteq> ch_fd ch"
      using conn_inv_fds [OF inv d(1) _ d(2)] l0(1,2) fd(1) by (auto simp: linked_def same_place_def)
    then have "ch_fd dh \<noteq> ch_fd ch" using l(1) by (simp add: linked_def owns_def)
    moreover have "dl = el0" if "cn_loop dn = cn_loop cn"
      using that l(1) l0(1,2) by (simp add: linked_def same_place_def)
    ultimately have "linked d dn dh (if cn_loop dn = cn_loop cn then el else dl) (setc c cn ch el w)"
      using l(1) l0(3) neq d(2) by (auto simp: linked_def may_add_def)
    with l(2) show ?thesis by blast
  qed
  show ?thesis unfolding conn_inv_def
  proof (intro conjI allI impI)
    show "net_inv (setc c cn ch el w)" using f by (simp add: focused_def)
    fix d dn
    assume d: "cn_conns (setc c cn ch el w) d = Some dn"
    show "\<exists>dh dl. linked d dn dh dl (setc c cn ch el w) \<and> conn_local dn dh"
    proof (cases "d = c")
      case True
      with d have "dn = cn" by simp
      with True fd loc show ?thesis by (intro exI [of _ ch] exI [of _ el]) (simp add: linked_def)
    next
      case False
      with d other show ?thesis by simp
    qed
  next
    fix a b an bn
    have c0: "cn_conns w c = Some cn0" "sk_fd (cn_socket cn0) = sk_fd (cn_socket cn)"
      using l0 by (simp_all add: linked_def same_place_def)
    assume "cn_conns (setc c cn ch el w) a = Some an \<and> cn_conns (setc c cn ch el w) b = Some bn \<and> a \<noteq> b"
    then show "sk_fd (cn_socket an) \<noteq> sk_fd (cn_socket bn)"
      using conn_inv_fds [OF inv, of a _ b] c0 by (auto split: if_splits) metis+
  next
    fix p s
    assume "cn_strings (setc c cn ch el w) p = Some s"
    then show "length s < 2 ^ 64" using conn_inv_strings [OF inv] by simp
  qed
qed

text \<open>An operation leads from \<open>w\<close> to a state of connection \<open>c\<close> with the property \<open>P\<close>.\<close>

definition leads :: "nat \<Rightarrow> (conn \<Rightarrow> channel \<Rightarrow> evloop \<Rightarrow> bool) \<Rightarrow> 'a conn_net_scheme \<Rightarrow>
    'a conn_net_scheme \<Rightarrow> bool" where
  "leads c P w w' \<longleftrightarrow> (\<exists>cn ch el. w' = setc c cn ch el w \<and> focused c cn ch el w \<and> P cn ch el)"

lemma leadsI: "focused c cn ch el w \<Longrightarrow> P cn ch el \<Longrightarrow> leads c P w (setc c cn ch el w)"
  by (auto simp: leads_def)

lemma leadsE:
  assumes "leads c P w w'"
  obtains cn ch el where "w' = setc c cn ch el w" "focused c cn ch el w" "P cn ch el"
  using assms by (auto simp: leads_def)

lemma leads_mono: "leads c P w w' \<Longrightarrow> (\<And>cn ch el. P cn ch el \<Longrightarrow> Q cn ch el) \<Longrightarrow> leads c Q w w'"
  unfolding leads_def by blast

lemma ends_leads_bind:
  assumes "ends E r (leads c P w)"
    and "\<And>cn ch el. focused c cn ch el w \<Longrightarrow> P cn ch el \<Longrightarrow> ends E (f (setc c cn ch el w)) Q"
  shows "ends E (bind_res r f) Q"
  using assms by (cases r) (auto elim!: leadsE)

lemma masked_index:
  "ch_index (masked EnableWriting ch) = KAdded"
  "ch_index (masked EnableReading ch) = KAdded"
  "isReading ch \<Longrightarrow> ch_index (masked DisableWriting ch) = KAdded"
  by (auto simp: masked_def next_index_def isNoneEvent_bits isReading_bits)

section \<open>Sending\<close>

text \<open>
  \<open>taken\<close>: how many bytes of a send the kernel takes at once; \<open>refused\<close>: the direct write ends
  with a reset connection, and the data is dropped; \<open>kept\<close>: the bytes that go to the output
  buffer; \<open>completed\<close>: the direct write took everything.
\<close>

definition taken :: "conn \<Rightarrow> byte list \<Rightarrow> nat" where
  "taken cn data = (if pending_out cn \<noteq> [] then 0 else case next_write (cn_socket cn) of
       WriteRoom k \<Rightarrow> min k (length data) | WriteErr _ \<Rightarrow> 0)"

definition refused :: "conn \<Rightarrow> bool" where
  "refused cn \<longleftrightarrow> pending_out cn = []
     \<and> (next_write (cn_socket cn) = WriteErr EPIPE \<or> next_write (cn_socket cn) = WriteErr ECONNRESET)"

definition kept :: "conn \<Rightarrow> byte list \<Rightarrow> byte list" where
  "kept cn data = (if refused cn then [] else drop (taken cn data) data)"

definition completed :: "conn \<Rightarrow> byte list \<Rightarrow> bool" where
  "completed cn data \<longleftrightarrow> pending_out cn = []
     \<and> (\<exists>k. next_write (cn_socket cn) = WriteRoom k \<and> length data \<le> k)"

text \<open>
  The functors a send queues: write complete, or the high water mark when \<open>n\<close> more waiting bytes
  cross it.
\<close>

definition high_water :: "nat \<Rightarrow> conn \<Rightarrow> nat \<Rightarrow> Functor list" where
  "high_water c cn n =
     (let old = length (pending_out cn) in
      if n \<noteq> 0 \<and> old < unat (cn_highWaterMark cn) \<and> unat (cn_highWaterMark cn) \<le> old + n
        \<and> cn_highWaterMarkCallback cn \<noteq> None
      then [FHighWaterMark c (of_nat (old + n))] else [])"

definition send_notes :: "nat \<Rightarrow> conn \<Rightarrow> byte list \<Rightarrow> Functor list" where
  "send_notes c cn data =
     (if completed cn data \<and> cn_writeCompleteCallback cn \<noteq> None then [FWriteComplete c] else [])
     @ high_water c cn (length (kept cn data))"

lemma sock_write_cases:
  "sock_write data sk = (case next_write sk of
      WriteErr e \<Rightarrow> (-1, e, sk\<lparr>sk_writes := tl (sk_writes sk)\<rparr>)
    | WriteRoom k \<Rightarrow> (int (min k (length data)), 0,
        sk\<lparr>sk_writes := tl (sk_writes sk), sk_sent := sk_sent sk @ take k data\<rparr>))"
  by (auto simp: sock_write_def Let_def min_def split: write_env.splits)

definition after_write :: "byte list \<Rightarrow> sock \<Rightarrow> sock" where
  "after_write data sk = snd (snd (sock_write data sk))"

lemma after_write_simps [simp]:
  "sk_fd (after_write data sk) = sk_fd sk" "sk_fin (after_write data sk) = sk_fin sk"
  "sk_reads (after_write data sk) = sk_reads sk" "sk_writes (after_write data sk) = tl (sk_writes sk)"
  by (simp_all add: after_write_def sock_write_cases split: write_env.splits)

lemma sk_sent_after_write:
  "pending_out cn = [] \<Longrightarrow>
   sk_sent (after_write data (cn_socket cn)) = sk_sent (cn_socket cn) @ take (taken cn data) data"
  by (auto simp: after_write_def sock_write_cases taken_def min_def split: write_env.splits)

lemma direct_write_at:
  assumes "length data < 2 ^ 64" "pending_out cn = []"
  shows "direct_write c cn data (setc c cn ch el w) = Inr (taken cn data,
      of_nat (length data - taken cn data), refused cn,
      setc c (cn\<lparr>cn_socket := after_write data (cn_socket cn)\<rparr>) ch
        (if completed cn data \<and> cn_writeCompleteCallback cn \<noteq> None
         then queued (n_tid w) (FWriteComplete c) el else el) w)"
proof (cases "next_write (cn_socket cn)")
  case (WriteErr e)
  then show ?thesis using assms
    by (auto simp: direct_write_def sock_write_cases setc_rules taken_def refused_def completed_def
        after_write_def EPIPE_def ECONNRESET_def EWOULDBLOCK_def)
next
  case (WriteRoom k)
  have "(of_nat (length data) :: size_t) - of_nat (min k (length data)) = 0 \<longleftrightarrow> length data \<le> k"
  proof -
    have "(of_nat (length data) :: size_t) - of_nat (min k (length data))
        = of_nat (length data - min k (length data))" by (simp add: of_nat_diff)
    then show ?thesis using assms(1) unat_of_nat_size [of "length data - min k (length data)"]
      by (auto simp: unat_eq_zero min_def)
  qed
  then show ?thesis using assms WriteRoom
    by (auto simp: direct_write_def sock_write_cases setc_rules taken_def refused_def completed_def
        after_write_def of_nat_diff Let_def cong: if_cong)
qed

lemma readableBytes_pending: "wf_buffer (cn_outputBuffer cn) \<Longrightarrow>
    unat (readableBytes (cn_outputBuffer cn)) = length (pending_out cn)"
  by (simp add: readableBytes_nat pending_out_def)

lemma content_length_bounded: "wf_buffer b \<Longrightarrow> length (content b) < 2 ^ 64"
  using wf_bufferD [of b] length_content [of b] by linarith

text \<open>The part of a send that goes to the output buffer.\<close>

definition room_left :: "nat \<Rightarrow> buffer \<Rightarrow> buffer \<Rightarrow> bool" where
  "room_left n b b' \<longleftrightarrow> (\<forall>m. room (m + n) b \<longrightarrow> room m b')"

lemma room_left_weaken: "room_left k b b' \<Longrightarrow> k \<le> n \<Longrightarrow> room_left n b b'"
  unfolding room_left_def by (meson add_left_mono room_mono)

lemma room_left_same [simp]: "room_left n b b"
  by (auto simp: room_left_def intro: room_mono)

lemma room_left_retrieve [simp]: "room_left n b (retrieve k b)"
  by (auto simp: room_left_def intro: room_retrieve room_mono)

definition stored :: "nat \<Rightarrow> conn \<Rightarrow> channel \<Rightarrow> evloop \<Rightarrow> byte list \<Rightarrow> conn \<Rightarrow> channel \<Rightarrow> evloop \<Rightarrow> bool" where
  "stored c cn ch el rest cn' ch' el' \<longleftrightarrow>
     (\<exists>b. cn' = cn\<lparr>cn_outputBuffer := b\<rparr> \<and> wf_buffer b) \<and> pending_out cn' = pending_out cn @ rest
     \<and> isWriting ch' \<and> isReading ch' = isReading ch \<and> (ch_index ch = KAdded \<longrightarrow> ch_index ch' = KAdded)
     \<and> room_left (length rest) (cn_outputBuffer cn) (cn_outputBuffer cn')
     \<and> pendingFunctors el' = pendingFunctors el @ high_water c cn (length rest)"

text \<open>
  How appending to the output buffer can end: without a fault when the vector has room to grow,
  and else possibly at its end.
\<close>

definition takes :: "fault set \<Rightarrow> byte list \<Rightarrow> buffer \<Rightarrow> bool" where
  "takes E data b \<longleftrightarrow> ends E (append_buf data b) (\<lambda>b'. wf_buffer b' \<and> content b' = content b @ data
     \<and> room_left (length data) b b')"

lemma takesI:
  assumes "wf_buffer b" "ends E (append_buf data b) (\<lambda>b'. wf_buffer b' \<and> content b' = content b @ data)"
  shows "takes E data b"
proof (cases "append_buf data b")
  case (Inr b')
  then have "room_left (length data) b b'"
    using append_buf_room [OF assms(1) _ Inr] by (simp add: room_left_def)
  then show ?thesis using assms(2) Inr by (simp add: takes_def)
qed (use assms(2) in \<open>simp add: takes_def\<close>)

lemma takes_any: "wf_buffer b \<Longrightarrow> length data < 2 ^ 64 \<Longrightarrow> takes {OutOfRange} data b"
  by (intro takesI append_buf_safe)

lemma takes_room: "wf_buffer b \<Longrightarrow> room (length data) b \<Longrightarrow> takes E data b"
  by (rule takesI, assumption, rule ends_returns, rule returns_mono [OF append_buf_ok]) auto

lemma store_rest_at:
  assumes f: "focused c cn ch el w" and wf: "wf_buffer (cn_outputBuffer cn)"
    and rest: "rest \<noteq> []" "length rest < 2 ^ 64" and takes: "takes E rest (cn_outputBuffer cn)"
  shows "ends E (store_rest c rest (of_nat (length rest)) (setc c cn ch el w))
      (leads c (stored c cn ch el rest) w)"
proof -
  let ?out = "cn_outputBuffer cn"
  define el1 where "el1 = (if cn_highWaterMark cn \<le> readableBytes ?out + of_nat (length rest)
     \<and> readableBytes ?out < cn_highWaterMark cn \<and> cn_highWaterMarkCallback cn \<noteq> None
     then queued (n_tid w) (FHighWaterMark c (readableBytes ?out + of_nat (length rest))) el else el)"
  have f1: "focused c cn ch el1 w" using f by (simp add: el1_def focused_queued)
  have step: "store_rest c rest (of_nat (length rest)) (setc c cn ch el w) =
      bind_res (append_buf rest ?out) (\<lambda>out.
        if \<not> isWriting ch then change_mask EnableWriting (cn_channel cn) (setc c (cn\<lparr>cn_outputBuffer := out\<rparr>) ch el1 w)
        else Inr (setc c (cn\<lparr>cn_outputBuffer := out\<rparr>) ch el1 w))"
    by (auto simp: el1_def store_rest_def Let_def setc_rules cong: if_cong)
  have res: "readableBytes ?out = of_nat (length (pending_out cn))"
    by (simp flip: readableBytes_pending [OF wf])
  show ?thesis unfolding step
    using takes [unfolded takes_def]
  proof (simp only: ends_simps, elim ends_mono)
    fix b
    assume b: "wf_buffer b \<and> content b = content ?out @ rest \<and> room_left (length rest) ?out b"
    let ?cn = "cn\<lparr>cn_outputBuffer := b\<rparr>"
    have p: "pending_out ?cn = pending_out cn @ rest" using b by (simp add: pending_out_def)
    have f2: "focused c ?cn ch el1 w" using focused_conn [OF _ f1, of ?cn] by simp
    have "length (pending_out cn) + length rest < 2 ^ 64"
      using content_length_bounded [of b] b by (simp add: pending_out_def)
    then have fs: "pendingFunctors el1 = pendingFunctors el @ high_water c cn (length rest)"
      unfolding el1_def res using rest(1)
      by (simp add: high_water_def Let_def word_le_nat_alt word_less_nat_alt unat_of_nat_size flip: of_nat_add)
    show "ends E (if \<not> isWriting ch
          then change_mask EnableWriting (cn_channel cn) (setc c ?cn ch el1 w)
          else Inr (setc c ?cn ch el1 w)) (leads c (stored c cn ch el rest) w)"
    proof (cases "isWriting ch")
      case True
      then have "stored c cn ch el rest ?cn ch el1" using b p fs by (auto simp: stored_def)
      with True show ?thesis by (simp add: leadsI [OF f2])
    next
      case False
      let ?ch = "masked EnableWriting ch"
      have "stored c cn ch el rest ?cn ?ch (synced (cn_channel cn) ?ch el1)"
        using b p fs by (auto simp: stored_def isWriting_bit isReading_bits masked_index)
      moreover have "focused c ?cn ?ch (synced (cn_channel cn) ?ch el1) w"
        using focused_masked [OF f2] by simp
      ultimately show ?thesis using False by (simp add: setc_change_mask [OF f2] leadsI)
    qed
  qed
qed

text \<open>The whole of \<open>sendInLoop\<close>, on every branch.\<close>

definition io_only :: "conn \<Rightarrow> conn \<Rightarrow> bool" where
  "io_only cn cn' \<longleftrightarrow> cn' = cn\<lparr>cn_socket := cn_socket cn', cn_outputBuffer := cn_outputBuffer cn'\<rparr>
     \<and> sk_fin (cn_socket cn') = sk_fin (cn_socket cn) \<and> sk_reads (cn_socket cn') = sk_reads (cn_socket cn)"

definition sent :: "nat \<Rightarrow> conn \<Rightarrow> channel \<Rightarrow> evloop \<Rightarrow> byte list \<Rightarrow> conn \<Rightarrow> channel \<Rightarrow> evloop \<Rightarrow> bool" where
  "sent c cn ch el data cn' ch' el' \<longleftrightarrow>
     io_only cn cn' \<and> conn_local cn' ch' \<and> isReading ch' = isReading ch \<and> (ch_index ch = KAdded \<longrightarrow> ch_index ch' = KAdded)
     \<and> sk_sent (cn_socket cn') = sk_sent (cn_socket cn) @ take (taken cn data) data
     \<and> pending_out cn' = pending_out cn @ kept cn data
     \<and> sk_writes (cn_socket cn') =
         (if pending_out cn = [] then tl (sk_writes (cn_socket cn)) else sk_writes (cn_socket cn))
     \<and> room_left (length data) (cn_outputBuffer cn) (cn_outputBuffer cn')
     \<and> pendingFunctors el' = pendingFunctors el @ send_notes c cn data"

lemma sendInLoop_at:
  assumes f: "focused c cn ch el w" and loc: "conn_local cn ch" and up: "cn_state cn \<noteq> kDisconnected"
    and data: "length data < 2 ^ 64" and takes: "kept cn data = [] \<or> takes E (kept cn data) (cn_outputBuffer cn)"
  shows "ends E (sendInLoop c data (setc c cn ch el w)) (leads c (sent c cn ch el data) w)"
proof (cases "pending_out cn = []")
  case True
  define cn1 where "cn1 = cn\<lparr>cn_socket := after_write data (cn_socket cn)\<rparr>"
  define el1 where "el1 = (if completed cn data \<and> cn_writeCompleteCallback cn \<noteq> None
         then queued (n_tid w) (FWriteComplete c) el else el)"
  note none = True
  have wf: "wf_buffer (cn_outputBuffer cn)" "\<not> isWriting ch"
    using loc up True by (simp_all add: conn_local_def)
  have f1: "focused c cn1 ch el1 w"
    using focused_conn [OF _ f, of cn1] by (simp add: cn1_def el1_def focused_queued)
  have "readableBytes (cn_outputBuffer cn) = 0"
    using wf True by (simp add: readableBytes_eq_0 pending_out_def)
  then have step: "sendInLoop c data (setc c cn ch el w) =
      (if \<not> refused cn \<and> 0 < (of_nat (length data - taken cn data) :: size_t)
       then store_rest c (drop (taken cn data) data) (of_nat (length data - taken cn data)) (setc c cn1 ch el1 w)
       else Inr (setc c cn1 ch el1 w))"
    using up wf True data direct_write_at [OF data True, of c ch el w]
    by (simp add: sendInLoop_def setc_rules cn1_def el1_def)
  have pos: "0 < (of_nat (length data - taken cn data) :: size_t) \<longleftrightarrow> drop (taken cn data) data \<noteq> []"
    using data unat_of_nat_size [of "length data - taken cn data"]
    by (simp add: word_less_nat_alt not_le)
  have socket: "sk_sent (cn_socket cn1) = sk_sent (cn_socket cn) @ take (taken cn data) data"
    using sk_sent_after_write [OF True] by (simp add: cn1_def)
  have notes1: "pendingFunctors el1 = pendingFunctors el @
      (if completed cn data \<and> cn_writeCompleteCallback cn \<noteq> None then [FWriteComplete c] else [])"
    by (simp add: el1_def)
  show ?thesis
  proof (cases "kept cn data = []")
    case True
    then have "sendInLoop c data (setc c cn ch el w) = Inr (setc c cn1 ch el1 w)"
      unfolding step pos by (simp add: kept_def split: if_splits)
    moreover have "sent c cn ch el data cn1 ch el1"
      using loc socket notes1 none True
      by (auto simp: sent_def io_only_def send_notes_def high_water_def cn1_def conn_local_def pending_out_def)
    ultimately show ?thesis using leadsI [OF f1] by simp
  next
    case False
    then have k: "kept cn data = drop (taken cn data) data" "\<not> refused cn"
      by (auto simp: kept_def split: if_splits)
    have "sendInLoop c data (setc c cn ch el w) =
        store_rest c (kept cn data) (of_nat (length (kept cn data))) (setc c cn1 ch el1 w)"
      using False k unfolding step pos by simp
    moreover have "ends E (store_rest c (kept cn data) (of_nat (length (kept cn data))) (setc c cn1 ch el1 w))
      (leads c (stored c cn1 ch el1 (kept cn data)) w)"
      by (rule store_rest_at [OF f1]) (use wf False data k takes in \<open>auto simp: cn1_def\<close>)
    moreover have "sent c cn ch el data cn' ch' el'"
      if "stored c cn1 ch el1 (kept cn data) cn' ch' el'" for cn' ch' el'
    proof -
      have "high_water c cn1 n = high_water c cn n" "pending_out cn1 = pending_out cn" for n
        by (simp_all add: high_water_def cn1_def pending_out_def)
      with that loc socket notes1 none False show ?thesis
        by (auto simp: stored_def sent_def io_only_def send_notes_def cn1_def conn_local_def up kept_def
            elim!: room_left_weaken)
    qed
    ultimately show ?thesis by (auto elim!: ends_mono leads_mono)
  qed
next
  case False
  have wf: "wf_buffer (cn_outputBuffer cn)" "isWriting ch"
    using loc up False by (simp_all add: conn_local_def)
  have t: "taken cn data = 0" "kept cn data = data" "\<not> completed cn data"
    using False by (simp_all add: taken_def kept_def refused_def completed_def)
  have step: "sendInLoop c data (setc c cn ch el w) =
      (if data = [] then Inr (setc c cn ch el w)
       else store_rest c data (of_nat (length data)) (setc c cn ch el w))"
    using up wf data unat_of_nat_size [of "length data"]
    by (auto simp: sendInLoop_def setc_rules word_less_nat_alt)
  show ?thesis
  proof (cases "data = []")
    case True
    then have "sent c cn ch el data cn ch el"
      using loc t False by (auto simp: sent_def io_only_def send_notes_def high_water_def)
    with True step leadsI [OF f] show ?thesis by simp
  next
    case 2: False
    have "sent c cn ch el data cn' ch' el'" if "stored c cn ch el data cn' ch' el'" for cn' ch' el'
      using that loc t False up
      by (auto simp: stored_def sent_def io_only_def send_notes_def conn_local_def)
    with 2 show ?thesis
      unfolding step using store_rest_at [OF f wf(1) 2 data, of E] takes unfolding t(2)
      by (auto elim!: ends_mono leads_mono)
  qed
qed

section \<open>Writing out, shutting down\<close>

text \<open>How many waiting bytes the kernel takes at the next write, and whether these are all.\<close>

definition written :: "conn \<Rightarrow> nat" where
  "written cn = (case next_write (cn_socket cn) of
       WriteRoom k \<Rightarrow> min k (length (pending_out cn)) | WriteErr _ \<Rightarrow> 0)"

definition drained :: "conn \<Rightarrow> bool" where
  "drained cn \<longleftrightarrow> pending_out cn \<noteq> [] \<and> written cn = length (pending_out cn)"

definition wrote :: "nat \<Rightarrow> conn \<Rightarrow> channel \<Rightarrow> evloop \<Rightarrow> conn \<Rightarrow> channel \<Rightarrow> evloop \<Rightarrow> bool" where
  "wrote c cn ch el cn' ch' el' \<longleftrightarrow>
     cn' = cn\<lparr>cn_socket := cn_socket cn', cn_outputBuffer := cn_outputBuffer cn'\<rparr>
     \<and> conn_local cn' ch' \<and> isReading ch' = isReading ch
     \<and> (ch_index ch = KAdded \<and> isReading ch \<longrightarrow> ch_index ch' = KAdded)
     \<and> sk_sent (cn_socket cn') = sk_sent (cn_socket cn) @ take (written cn) (pending_out cn)
     \<and> pending_out cn' = drop (written cn) (pending_out cn)
     \<and> sk_writes (cn_socket cn') =
         (if pending_out cn = [] then sk_writes (cn_socket cn) else tl (sk_writes (cn_socket cn)))
     \<and> sk_reads (cn_socket cn') = sk_reads (cn_socket cn)
     \<and> room_left 0 (cn_outputBuffer cn) (cn_outputBuffer cn')
     \<and> (sk_fin (cn_socket cn') \<longleftrightarrow> sk_fin (cn_socket cn) \<or> drained cn \<and> cn_state cn = kDisconnecting)
     \<and> pendingFunctors el' = pendingFunctors el @
         (if drained cn \<and> cn_writeCompleteCallback cn \<noteq> None then [FWriteComplete c] else [])"

lemma writeFd_written:
  assumes "wf_buffer (cn_outputBuffer cn)"
  shows "\<exists>e. writeFd (next_write (cn_socket cn)) 0 (cn_outputBuffer cn) =
      ((case next_write (cn_socket cn) of WriteErr _ \<Rightarrow> -1 | WriteRoom _ \<Rightarrow> int (written cn)), e,
       take (written cn) (pending_out cn))"
  using writeFd_room [OF assms]
  by (cases "next_write (cn_socket cn)") (auto simp: written_def pending_out_def min_def)

lemma handleWrite_at:
  assumes f: "focused c cn ch el w" and loc: "conn_local cn ch" and up: "cn_state cn \<noteq> kDisconnected"
  shows "returns (handleWrite c (setc c cn ch el w)) (leads c (wrote c cn ch el) w)"
proof (cases "pending_out cn = []")
  case True
  then have "\<not> isWriting ch" using loc up by (simp add: conn_local_def)
  moreover have "wrote c cn ch el cn ch el"
    using loc True by (simp add: wrote_def drained_def)
  ultimately show ?thesis using leadsI [OF f] by (simp add: handleWrite_def setc_rules)
next
  case False
  have wf: "wf_buffer (cn_outputBuffer cn)" and wr: "isWriting ch"
    using loc up False by (simp_all add: conn_local_def)
  define sk where "sk = (cn_socket cn)\<lparr>sk_writes := tl (sk_writes (cn_socket cn)),
     sk_sent := sk_sent (cn_socket cn) @ take (written cn) (pending_out cn)\<rparr>"
  define out where "out = retrieve (of_nat (written cn)) (cn_outputBuffer cn)"
  obtain e where w: "writeFd (next_write (cn_socket cn)) 0 (cn_outputBuffer cn) =
      ((case next_write (cn_socket cn) of WriteErr _ \<Rightarrow> -1 | WriteRoom _ \<Rightarrow> int (written cn)), e,
       take (written cn) (pending_out cn))"
    using writeFd_written [OF wf] by blast
  have sk: "sk_fd sk = sk_fd (cn_socket cn)" "sk_fin sk = sk_fin (cn_socket cn)" by (simp_all add: sk_def)
  show ?thesis
  proof (cases "written cn = 0")
    case True
    let ?cn = "cn\<lparr>cn_socket := sk\<rparr>"
    have "handleWrite c (setc c cn ch el w) = Inr (setc c ?cn ch el w)"
      using wr w True
      by (simp add: handleWrite_def setc_rules sk_def split: write_env.splits)
    moreover have "wrote c cn ch el ?cn ch el"
      using loc True False sk by (auto simp: wrote_def drained_def conn_local_def pending_out_def sk_def)
    moreover have "focused c ?cn ch el w" using focused_conn [OF _ f, of ?cn] sk by simp
    ultimately show ?thesis by (simp add: leadsI)
  next
    case pos: False
    let ?cn = "cn\<lparr>cn_socket := sk, cn_outputBuffer := out\<rparr>"
    have n: "(case next_write (cn_socket cn) of WriteErr _ \<Rightarrow> -1 | WriteRoom _ \<Rightarrow> int (written cn)) = int (written cn)"
      using pos by (simp add: written_def split: write_env.splits)
    have le: "written cn \<le> length (pending_out cn)" by (simp add: written_def split: write_env.splits)
    have "length (pending_out cn) < 2 ^ 64"
      using content_length_bounded [OF wf] by (simp add: pending_out_def)
    then have out: "wf_buffer out" "pending_out ?cn = drop (written cn) (pending_out cn)"
      using le wf unat_of_nat_size [of "written cn"]
      by (simp_all add: out_def wf_retrieve content_retrieve pending_out_def)
    have left: "room_left 0 (cn_outputBuffer cn) out" by (simp add: out_def)
    have empty: "readableBytes out = 0 \<longleftrightarrow> written cn = length (pending_out cn)"
      using out le by (auto simp: readableBytes_eq_0 pending_out_def)
    have f1: "focused c ?cn ch el w"
      using focused_conn [OF _ f, of ?cn] sk by (simp add: same_place_def)
    show ?thesis
    proof (cases "written cn = length (pending_out cn)")
      case part: False
      have "handleWrite c (setc c cn ch el w) = Inr (setc c ?cn ch el w)"
        using wr w n pos part empty
        by (simp add: handleWrite_def setc_rules sk_def [symmetric] out_def [symmetric])
      moreover have "wrote c cn ch el ?cn ch el"
        using loc up part pos False sk out left le
        by (auto simp: wrote_def drained_def conn_local_def sk_def)
      ultimately show ?thesis using leadsI [OF f1] by simp
    next
      case all: True
      let ?ch = "masked DisableWriting ch"
      define el1 where "el1 = (if cn_writeCompleteCallback cn \<noteq> None
        then queued (n_tid w) (FWriteComplete c) (synced (cn_channel cn) ?ch el)
        else synced (cn_channel cn) ?ch el)"
      define cn1 where "cn1 = (if cn_state cn = kDisconnecting then ?cn\<lparr>cn_socket := shutdownWrite sk\<rparr> else ?cn)"
      have nw: "\<not> isWriting ?ch" by (simp add: isWriting_bit)
      have "handleWrite c (setc c cn ch el w) = Inr (setc c cn1 ?ch el1 w)"
        using wr w n pos all empty nw f1 unfolding sk_def out_def el1_def cn1_def
        by (simp add: handleWrite_def setc_rules shutdownInLoop_def Let_def cong: if_cong)
      moreover have "focused c cn1 ?ch el1 w"
      proof -
        have "focused c ?cn ?ch el1 w"
          using focused_masked [OF f1, of "cn_channel cn" DisableWriting] by (simp add: el1_def focused_queued)
        then show ?thesis
          by (rule focused_conn [rotated]) (simp add: cn1_def same_place_def shutdownWrite_def)
      qed
      moreover have "wrote c cn ch el cn1 ?ch el1"
        using loc up all False sk out left nw
        by (auto simp: wrote_def drained_def conn_local_def cn1_def el1_def shutdownWrite_def
            pending_out_def isReading_bits sk_def masked_index)
      ultimately show ?thesis by (simp add: leadsI)
    qed
  qed
qed

lemma handleWrite_down:
  assumes "conn_local cn ch" "cn_state cn = kDisconnected"
  shows "handleWrite c (setc c cn ch el w) = Inr (setc c cn ch el w)"
  using assms by (simp add: handleWrite_def setc_rules conn_local_def isNoneEvent_bits isWriting_bit)

lemma shutdownInLoop_at:
  "shutdownInLoop c (setc c cn ch el w) = Inr (setc c
     (if isWriting ch then cn else cn\<lparr>cn_socket := shutdownWrite (cn_socket cn)\<rparr>) ch el w)"
  by (simp add: shutdownInLoop_def setc_rules)

section \<open>What the operations never do to the loops and channels\<close>

lemma evolves_put_conn: "evolves w (put_conn c cn w)"
  by (rule evolves_net) simp_all

lemma safely_put_conn [evolving]: "safely (Inr (put_conn c cn w)) (evolves w)"
  by (simp add: evolves_put_conn)

text \<open>A step from a later state, as from one in which a connection has been updated.\<close>

lemma evolves_from: "evolves w x \<Longrightarrow> safely r (evolves x) \<Longrightarrow> safely r (evolves w)"
  by (erule safely_mono) (rule evolves_trans)

lemmas evolves_after_put_conn = evolves_from [OF evolves_put_conn]

lemma evolves_get_conn: "(\<And>cn. cn_conns w c = Some cn \<Longrightarrow> safely (f cn) (evolves w)) \<Longrightarrow>
    safely (bind_res (get_conn c w) f) (evolves w)"
  by (simp add: get_conn_def)

lemma evolves_get_chan: "(\<And>ch. n_chans w d = Some ch \<Longrightarrow> safely (f ch) (evolves w)) \<Longrightarrow>
    safely (bind_res (get_chan d w) f) (evolves w)"
  by (simp add: get_chan_def)

lemma evolves_Inr [evolving]: "safely (Inr w) (evolves w)"
  by simp

lemma evolves_if [evolving]:
  "(b \<Longrightarrow> safely r (evolves w)) \<Longrightarrow> (\<not> b \<Longrightarrow> safely r' (evolves w)) \<Longrightarrow>
   safely (if b then r else r') (evolves w)"
  by simp

lemma evolves_triple: "(\<And>a b c. safely (f a b c) (evolves w)) \<Longrightarrow>
    safely (case t of (a, b, c) \<Rightarrow> f a b c) (evolves w)"
  by (cases t) simp

lemmas evolves_reads = evolves_bind evolves_get_conn evolves_get_chan

lemma store_rest_evolves [evolving]: "safely (store_rest c rest n w) (evolves w)"
proof -
  have "safely (bind_res (append_buf rest b) (\<lambda>out.
      bind_res (get_chan d (put_conn c (g out) w)) (\<lambda>ch.
        if \<not> isWriting ch then change_mask EnableWriting d (put_conn c (g out) w)
        else Inr (put_conn c (g out) w)))) (evolves w)" for b d g and w :: "'a conn_net_scheme"
  proof (cases "append_buf rest b")
    case (Inr out)
    have "safely (bind_res (get_chan d (put_conn c (g out) w)) (\<lambda>ch.
        if \<not> isWriting ch then change_mask EnableWriting d (put_conn c (g out) w)
        else Inr (put_conn c (g out) w))) (evolves (put_conn c (g out) w))"
      by (intro evolving evolves_reads)
    from evolves_after_put_conn [OF this] Inr show ?thesis by simp
  qed simp
  then show ?thesis unfolding store_rest_def Let_def by (intro evolving evolves_reads)
qed

lemma direct_write_evolves:
  "safely (direct_write c cn data w) (\<lambda>(n, r, e, w'). evolves w w')"
  using queueInLoop_evolves [of "cn_loop cn" "FWriteComplete c"]
  by (auto simp: direct_write_def Let_def evolves_put_conn split: prod.splits
      intro: evolves_after_put_conn)

lemma sendInLoop_evolves [evolving]: "safely (sendInLoop c data w) (evolves w)"
  unfolding sendInLoop_def
proof (intro evolves_get_conn evolves_get_chan evolves_if evolves_Inr)
  fix cn ch
  have "safely (if \<not> isWriting ch \<and> readableBytes (cn_outputBuffer cn) = 0 then direct_write c cn data w
      else Inr (0, of_nat (length data), False, w)) (\<lambda>(n, r, e, w'). evolves w w')"
    using direct_write_evolves [of c cn data w] by simp
  then show "safely (bind_res (if \<not> isWriting ch \<and> readableBytes (cn_outputBuffer cn) = 0
      then direct_write c cn data w else Inr (0, of_nat (length data), False, w))
     (\<lambda>(n, r, e, w). if \<not> e \<and> r > 0 then store_rest c (drop n data) r w else Inr w)) (evolves w)"
    unfolding safely_simps
    by (rule safely_mono)
      (auto intro: evolves_from [OF _ store_rest_evolves])
qed

lemma shutdownInLoop_evolves [evolving]: "safely (shutdownInLoop c w) (evolves w)"
  unfolding shutdownInLoop_def by (intro evolving evolves_reads)

lemma tcp_send_evolves [evolving]: "safely (tcp_send c p w) (evolves w)"
proof -
  have "safely (bind_res (isInLoopThread l w) (\<lambda>here. if here then sendInLoop c data w
      else queueInLoop l f w)) (evolves w)" for l f data
    by (auto simp: isInLoopThread_def get_loop_def intro: evolving)
  then show ?thesis unfolding tcp_send_def
    by (intro evolves_get_conn) (auto intro!: evolves_if)
qed

lemma tcp_shutdown_evolves [evolving]: "safely (tcp_shutdown c w) (evolves w)"
  unfolding tcp_shutdown_def
  by (intro evolves_get_conn evolves_if evolves_Inr evolves_after_put_conn [OF runInLoop_evolves]
      shutdownInLoop_evolves)

lemma forceClose_evolves [evolving]: "safely (forceClose c w) (evolves w)"
proof -
  have "safely (forceClose_set c w) (evolves w)" unfolding forceClose_set_def
    by (intro evolving evolves_reads evolves_after_put_conn [OF queueInLoop_evolves])
  then show ?thesis by (cases "cn_conns w c") (auto simp: forceClose_def forceClose_test_def get_conn_def)
qed

lemma upd_conn_evolves [evolving]: "safely (upd_conn c f w) (evolves w)"
  unfolding upd_conn_def by (intro evolving evolves_reads)

lemma run_api_evolves [evolving]: "safely (run_api a w) (evolves w)"
  by (cases a) (auto intro: evolving evolves_net)

lemma call_app_evolves [evolving]: "safely (call_app app ev w) (evolves w)"
proof -
  let ?w = "w\<lparr>cn_trace := cn_trace w @ [ev]\<rparr>"
  have "safely (fold_res run_api (app ev ?w) ?w) (evolves ?w)"
    by (rule evolves_fold) (rule run_api_evolves)
  moreover have "evolves w ?w" by (rule evolves_net) simp_all
  ultimately show ?thesis
    unfolding call_app_def Let_def by (blast intro: safely_mono evolves_trans)
qed

lemma connectionCallback_evolves [evolving]: "safely (connectionCallback app c w) (evolves w)"
  unfolding connectionCallback_def
  by (intro evolves_get_conn) (auto intro: evolving split: option.splits user_cb.splits)

lemma messageCallback_evolves [evolving]: "safely (messageCallback app t c w) (evolves w)"
  unfolding messageCallback_def
  by (intro evolves_get_conn) (auto intro: evolving split: option.splits user_cb.splits)

lemma handleWrite_evolves [evolving]: "safely (handleWrite c w) (evolves w)"
proof -
  have *: "safely (bind_res (change_mask DisableWriting d (put_conn c cn' w)) (\<lambda>w.
      bind_res (if b then queueInLoop l f w else Inr w) (\<lambda>w.
        if b' then shutdownInLoop c w else Inr w))) (evolves w)" for d cn' b l f b'
    by (rule evolves_after_put_conn [of _ c cn']) (intro evolving evolves_reads)
  show ?thesis
    unfolding handleWrite_def Let_def
    by (intro evolves_get_conn evolves_get_chan evolves_if evolves_triple * safely_put_conn evolves_Inr)
qed

lemma connectEstablished_evolves [evolving]: "safely (connectEstablished app c w) (evolves w)"
proof -
  have tie: "evolves w (put_chan d (tie_channel c ch) w)" if "n_chans w d = Some ch" for d ch and w :: "'a conn_net_scheme"
    using that by (rule evolves_put_chan) (simp_all add: same_dispatch_def tie_channel_def)
  have *: "safely (bind_res (change_mask EnableReading d w1) (connectionCallback app c)) (evolves w1)" for d w1
    by (intro evolving evolves_reads)
  have "safely (bind_res (change_mask EnableReading d (put_chan d (tie_channel c ch) (put_conn c cn' w)))
      (connectionCallback app c)) (evolves w)" if "n_chans w d = Some ch" for d ch cn'
    by (rule evolves_from [OF evolves_trans [OF evolves_put_conn tie] *]) (use that in simp)
  then show ?thesis unfolding connectEstablished_def by (intro evolves_get_conn evolves_get_chan)
qed

lemma connectDestroyed_evolves [evolving]: "safely (connectDestroyed app c w) (evolves w)"
  unfolding connectDestroyed_def
  by (intro evolves_get_conn evolves_bind evolves_if evolves_after_put_conn [OF change_mask_evolves] evolving)

section \<open>Progress of connections\<close>

fun stage :: "StateE \<Rightarrow> nat" where
  "stage kConnecting = 0"
| "stage kConnected = 1"
| "stage kDisconnecting = 2"
| "stage kDisconnected = 3"

text \<open>
  A connection only moves forward: its state, its stream (nothing in it changes, bytes are added
  at the end), the bytes handed to the kernel, and the shutdown of its sending side.
\<close>

definition advances :: "conn \<Rightarrow> conn \<Rightarrow> bool" where
  "advances cn cn' \<longleftrightarrow> same_place cn cn' \<and> stage (cn_state cn) \<le> stage (cn_state cn')
     \<and> (\<exists>new. stream cn' = stream cn @ new)
     \<and> (\<exists>more. sk_sent (cn_socket cn') = sk_sent (cn_socket cn) @ more)
     \<and> (sk_fin (cn_socket cn) \<longrightarrow> sk_fin (cn_socket cn'))"

definition conns_advance :: "'a conn_net_scheme \<Rightarrow> 'a conn_net_scheme \<Rightarrow> bool" where
  "conns_advance w w' \<longleftrightarrow> (\<forall>c cn. cn_conns w c = Some cn \<longrightarrow>
     (\<exists>cn'. cn_conns w' c = Some cn' \<and> advances cn cn'))"

lemma advances_refl [simp]: "advances cn cn"
  by (simp add: advances_def)

lemma same_place_trans: "same_place a b \<Longrightarrow> same_place b c \<Longrightarrow> same_place a c"
  by (simp add: same_place_def)

lemma advances_trans:
  assumes ab: "advances a b" and bc: "advances b c"
  shows "advances a c"
proof -
  obtain x m where x: "stream b = stream a @ x" "sk_sent (cn_socket b) = sk_sent (cn_socket a) @ m"
    using ab unfolding advances_def by blast
  obtain y n where "stream c = stream b @ y" "sk_sent (cn_socket c) = sk_sent (cn_socket b) @ n"
    using bc unfolding advances_def by blast
  with x have "stream c = stream a @ (x @ y)" "sk_sent (cn_socket c) = sk_sent (cn_socket a) @ (m @ n)"
    by simp_all
  moreover have "same_place a c" "stage (cn_state a) \<le> stage (cn_state c)"
    "sk_fin (cn_socket a) \<longrightarrow> sk_fin (cn_socket c)"
    using ab bc same_place_trans unfolding advances_def by (blast, linarith, blast)
  ultimately show ?thesis unfolding advances_def by blast
qed

lemma conns_advance_refl [simp]: "conns_advance w w"
  by (simp add: conns_advance_def)

lemma conns_advance_trans: "conns_advance a b \<Longrightarrow> conns_advance b c \<Longrightarrow> conns_advance a c"
  unfolding conns_advance_def using advances_trans by blast

text \<open>
  The contract of every operation: it ends with the invariant, all connections moved forward
  and the loops and channels as \<open>evolves\<close> says, or with a fault of \<open>E\<close>.
\<close>

definition good :: "fault set \<Rightarrow> 'a conn_net_scheme \<Rightarrow> 'a conn_net_scheme res \<Rightarrow> bool" where
  "good E w r \<longleftrightarrow> ends E r (\<lambda>w'. conn_inv w' \<and> conns_advance w w' \<and> evolves w w')"

lemma good_Inr: "conn_inv w \<Longrightarrow> good E w (Inr w)"
  by (simp add: good_def)

lemma good_mono: "good E w r \<Longrightarrow> E \<subseteq> F \<Longrightarrow> good F w r"
  by (cases r) (auto simp: good_def)

lemma good_from:
  assumes "good E x r" "conns_advance w x" "evolves w x"
  shows "good E w r"
  using assms unfolding good_def
  by (elim ends_mono) (blast intro: conns_advance_trans evolves_trans)

lemma good_bind:
  assumes "good E w r"
    and "\<And>x. conn_inv x \<Longrightarrow> conns_advance w x \<Longrightarrow> evolves w x \<Longrightarrow> good E x (f x)"
  shows "good E w (bind_res r f)"
proof (cases r)
  case (Inr x)
  with assms(1) have "conn_inv x" "conns_advance w x" "evolves w x" by (simp_all add: good_def)
  with assms(2) have "good E w (f x)" by (blast intro: good_from)
  with Inr show ?thesis by simp
qed (use assms(1) in \<open>simp add: good_def\<close>)

lemma good_fold:
  assumes "conn_inv w" "\<And>x w. x \<in> set xs \<Longrightarrow> conn_inv w \<Longrightarrow> good E w (f x w)"
  shows "good E w (fold_res f xs w)"
  using assms
proof (induction xs arbitrary: w)
  case Nil
  then show ?case by (simp add: good_Inr)
next
  case (Cons x xs)
  then show ?case unfolding fold_res.simps by (intro good_bind) auto
qed

lemma ends_safely_conj: "ends E r P \<Longrightarrow> safely r Q \<Longrightarrow> ends E r (\<lambda>x. P x \<and> Q x)"
  by (cases r) auto

lemma conns_advance_setc:
  "cn_conns w c = Some cn \<Longrightarrow> advances cn cn' \<Longrightarrow> conns_advance w (setc c cn' ch' el' w)"
  by (simp add: conns_advance_def)

lemma good_leads:
  assumes inv: "conn_inv w" and cn: "cn_conns w c = Some cn"
    and r: "ends E r (leads c P w)" and ev: "safely r (evolves w)"
    and P: "\<And>cn' ch' el'. P cn' ch' el' \<Longrightarrow> conn_local cn' ch' \<and> advances cn cn'"
  shows "good E w r"
  unfolding good_def using ends_safely_conj [OF r ev]
proof (rule ends_mono)
  fix w'
  assume *: "leads c P w w' \<and> evolves w w'"
  then obtain cn' ch' el' where w': "w' = setc c cn' ch' el' w" "focused c cn' ch' el' w"
    "P cn' ch' el'" by (auto elim: leadsE)
  with P have "conn_local cn' ch'" "advances cn cn'" by blast+
  with w' * show "conn_inv w' \<and> conns_advance w w' \<and> evolves w w'"
    using conn_inv_setc [OF inv w'(2)] conns_advance_setc [OF cn] by simp
qed

text \<open>An update of the fields that neither the channel nor the loop depend on.\<close>

lemma good_put_conn:
  assumes inv: "conn_inv w" and cn: "cn_conns w c = Some cn" and adv: "advances cn cn'"
    and loc: "\<And>ch. conn_local cn ch \<Longrightarrow> conn_local cn' ch"
  shows "good E w (Inr (put_conn c cn' w))"
proof -
  obtain ch el where l: "conn_local cn ch" "focused c cn ch el w" "setc c cn ch el w = w"
    using inv cn by (rule conn_invE)
  have place: "same_place cn cn'" using adv by (simp add: advances_def)
  then have "put_conn c cn' w = setc c cn' ch el w"
    using setc_put_conn [of cn' cn c ch el w] l(3) by (simp add: same_place_def)
  moreover have "focused c cn' ch el w" by (rule focused_conn [OF place l(2)])
  ultimately show ?thesis
    using conn_inv_setc [OF inv, of c cn' ch el] loc l(1) conns_advance_setc [OF cn adv] evolves_put_conn [of w c cn']
    by (simp add: good_def)
qed

lemma conn_inv_put_loop:
  assumes "conn_inv w" "n_loops w l = Some el" "el_poller el' = el_poller el"
  shows "conn_inv (put_loop l el' w)"
proof -
  have "linked c cn ch (if cn_loop cn = l then el' else e) (put_loop l el' w)" if "linked c cn ch e w" for c cn ch e
    using that assms(2,3) by (auto simp: linked_def)
  then show ?thesis using assms net_inv_put_loop [of w l el el'] unfolding conn_inv_def
    by simp metis
qed

lemma queueInLoop_good:
  assumes "conn_inv w" "n_loops w l \<noteq> None"
  shows "good E w (queueInLoop l f w)"
proof -
  obtain el where el: "n_loops w l = Some el" using assms(2) by blast
  have "conn_inv (put_loop l (queued (n_tid w) f el) w)"
    by (rule conn_inv_put_loop [OF assms(1) el]) simp
  then show ?thesis using el
    by (simp add: good_def queueInLoop_eq evolves_put_loop conns_advance_def)
qed

section \<open>The calls of the application\<close>

lemma sent_stream:
  assumes "sent c cn ch el data cn' ch' el'"
  shows "stream cn' = stream cn @ (if refused cn then [] else data)"
proof -
  have s: "sk_sent (cn_socket cn') = sk_sent (cn_socket cn) @ take (taken cn data) data"
    "pending_out cn' = pending_out cn @ kept cn data"
    using assms by (simp_all add: sent_def)
  show ?thesis
  proof (cases "refused cn")
    case True
    then have "taken cn data = 0" by (auto simp: refused_def taken_def)
    with s True show ?thesis by (simp add: stream_def kept_def)
  next
    case False
    then show ?thesis using s by (auto simp: stream_def kept_def taken_def)
  qed
qed

lemma io_only_state:
  assumes "io_only cn cn'"
  shows "cn_state cn' = cn_state cn"
proof -
  have eq: "cn' = cn\<lparr>cn_socket := cn_socket cn', cn_outputBuffer := cn_outputBuffer cn'\<rparr>"
    using assms by (simp only: io_only_def)
  show ?thesis by (subst eq) simp
qed

lemma sent_advances: "sent c cn ch el data cn' ch' el' \<Longrightarrow> same_place cn cn' \<Longrightarrow> advances cn cn'"
  using sent_stream [of c cn ch el data cn' ch' el'] io_only_state [of cn cn']
  by (simp add: advances_def sent_def io_only_def)

lemma leads_place:
  "focused c cn ch el w \<Longrightarrow> cn_conns w c = Some cn0 \<Longrightarrow> same_place cn0 cn"
  by (auto simp: focused_def stays_def linked_def)

lemma leads_conj_place:
  "cn_conns w c = Some cn0 \<Longrightarrow> leads c P w w' \<Longrightarrow> leads c (\<lambda>cn ch el. P cn ch el \<and> same_place cn0 cn) w w'"
  unfolding leads_def using leads_place by blast

lemma sendInLoop_good:
  assumes inv: "conn_inv w" and cn: "cn_conns w c = Some cn" and data: "length data < 2 ^ 64"
  shows "good {OutOfRange} w (sendInLoop c data w)"
proof (cases "cn_state cn = kDisconnected")
  case True
  then show ?thesis using cn inv by (simp add: sendInLoop_def get_conn_def good_Inr)
next
  case False
  obtain ch el where l: "conn_local cn ch" "focused c cn ch el w" "setc c cn ch el w = w"
    using inv cn by (rule conn_invE)
  have kept_fits: "takes {OutOfRange} (kept cn data) (cn_outputBuffer cn)"
    using l(1) data by (intro takes_any) (auto simp: conn_local_def kept_def intro: le_less_trans [OF diff_le_self])
  have "ends {OutOfRange} (sendInLoop c data w)
      (leads c (\<lambda>cn' ch' el'. sent c cn ch el data cn' ch' el' \<and> same_place cn cn') w)"
    using sendInLoop_at [OF l(2,1) False data disjI2 [OF kept_fits]] unfolding l(3)
    by (rule ends_mono) (rule leads_conj_place [OF cn])
  then show ?thesis
    by (rule good_leads [OF inv cn _ sendInLoop_evolves]) (auto simp: sent_def intro: sent_advances)
qed

lemma conn_loop_live:
  assumes "conn_inv w" "cn_conns w c = Some cn"
  obtains el where "n_loops w (cn_loop cn) = Some el"
  using conn_invE [OF assms] unfolding linked_def by metis

lemma tcp_send_good:
  assumes inv: "conn_inv w" and cn: "cn_conns w c = Some cn" and str: "cn_strings w p = Some data"
  shows "good {OutOfRange} w (tcp_send c p w)"
proof -
  obtain el where el: "n_loops w (cn_loop cn) = Some el" using inv cn by (rule conn_loop_live)
  have "good {OutOfRange} w (sendInLoop c data w)"
    by (rule sendInLoop_good [OF inv cn conn_inv_strings [OF inv str]])
  moreover have "good {OutOfRange} w (queueInLoop (cn_loop cn) (FSendInLoop c p (of_nat (length data))) w)"
    using inv el by (simp add: queueInLoop_good)
  ultimately show ?thesis
    using str cn el inv by (simp add: tcp_send_def get_conn_def isInLoopThread_def good_Inr)
qed

lemma shutdownInLoop_good:
  assumes inv: "conn_inv w" and cn: "cn_conns w c = Some cn"
    and st: "cn_state cn = kDisconnecting \<or> cn_state cn = kDisconnected"
  shows "good E w (shutdownInLoop c w)"
proof -
  obtain ch el where l: "linked c cn ch el w" "conn_local cn ch" using inv cn by (rule conn_invE)
  let ?cn = "cn\<lparr>cn_socket := shutdownWrite (cn_socket cn)\<rparr>"
  have "good E w (Inr (put_conn c ?cn w))"
    by (rule good_put_conn [OF inv cn])
      (use st in \<open>auto simp: advances_def stream_def pending_out_def shutdownWrite_def conn_local_def same_place_def\<close>)
  then show ?thesis using l(1) inv
    by (simp add: shutdownInLoop_def get_conn_def linked_def good_Inr)
qed

lemma put_state_good:
  assumes inv: "conn_inv w" and cn: "cn_conns w c = Some cn"
    and st: "cn_state cn = kConnected \<or> cn_state cn = kDisconnecting"
  shows "good E w (Inr (put_conn c (cn\<lparr>cn_state := kDisconnecting\<rparr>) w))"
  by (rule good_put_conn [OF inv cn])
    (use st in \<open>auto simp: advances_def stream_def pending_out_def conn_local_def\<close>)

lemma good_InrD: "good E w (Inr x) \<Longrightarrow> conn_inv x \<and> conns_advance w x \<and> evolves w x"
  by (simp add: good_def)

lemma tcp_shutdown_good:
  assumes inv: "conn_inv w" and cn: "cn_conns w c = Some cn"
  shows "good E w (tcp_shutdown c w)"
proof (cases "cn_state cn = kConnected")
  case True
  let ?cn = "cn\<lparr>cn_state := kDisconnecting\<rparr>" and ?w = "put_conn c (cn\<lparr>cn_state := kDisconnecting\<rparr>) w"
  have 1: "conn_inv ?w" "conns_advance w ?w" "evolves w ?w"
    using good_InrD [OF put_state_good [OF inv cn, of E]] True by simp_all
  have c: "cn_conns ?w c = Some ?cn" by simp
  obtain el where el: "n_loops ?w (cn_loop cn) = Some el" using conn_loop_live [OF 1(1) c] by auto
  have "good E ?w (runInLoop (cn_loop cn) (FShutdownInLoop c) (shutdownInLoop c) ?w)"
    using el shutdownInLoop_good [OF 1(1) c, of E] queueInLoop_good [OF 1(1), of "cn_loop cn" E]
    by (simp add: runInLoop_def isInLoopThread_def)
  then show ?thesis using good_from [OF _ 1(2,3)] True cn by (simp add: tcp_shutdown_def get_conn_def)
next
  case False
  then show ?thesis using cn inv by (simp add: tcp_shutdown_def get_conn_def good_Inr)
qed

lemma forceClose_good:
  assumes inv: "conn_inv w" and cn: "cn_conns w c = Some cn"
  shows "good E w (forceClose c w)"
proof (cases "cn_state cn = kConnected \<or> cn_state cn = kDisconnecting")
  case True
  let ?cn = "cn\<lparr>cn_state := kDisconnecting\<rparr>" and ?w = "put_conn c (cn\<lparr>cn_state := kDisconnecting\<rparr>) w"
  have 1: "conn_inv ?w" "conns_advance w ?w" "evolves w ?w"
    using good_InrD [OF put_state_good [OF inv cn True, of E]] by simp_all
  have c: "cn_conns ?w c = Some ?cn" by simp
  obtain el where el: "n_loops ?w (cn_loop cn) = Some el" using conn_loop_live [OF 1(1) c] by auto
  have "good E ?w (queueInLoop (cn_loop cn) (FForceCloseInLoop c) ?w)"
    using el queueInLoop_good [OF 1(1), of "cn_loop cn" E] by simp
  then show ?thesis using good_from [OF _ 1(2,3)] True cn by (simp add: forceClose_defs get_conn_def)
next
  case False
  then show ?thesis using cn inv by (simp add: forceClose_defs get_conn_def good_Inr)
qed

lemma take_input_good:
  assumes inv: "conn_inv w" and cn: "cn_conns w c = Some cn"
    and b: "\<And>b. wf_buffer b \<Longrightarrow> wf_buffer (f b)"
  shows "good E w (upd_conn c (\<lambda>cn. cn\<lparr>cn_inputBuffer := f (cn_inputBuffer cn)\<rparr>) w)"
proof -
  have "good E w (Inr (put_conn c (cn\<lparr>cn_inputBuffer := f (cn_inputBuffer cn)\<rparr>) w))"
    by (rule good_put_conn [OF inv cn])
      (auto simp: advances_def stream_def pending_out_def conn_local_def b)
  then show ?thesis using cn by (simp add: upd_conn_def get_conn_def)
qed

lemma conn_inv_strings_upd:
  assumes "conn_inv w" "\<And>s. v = Some s \<Longrightarrow> length s < 2 ^ 64"
  shows "conn_inv (w\<lparr>cn_strings := (cn_strings w)(p := v)\<rparr>)"
proof -
  have "net_inv (w\<lparr>cn_strings := (cn_strings w)(p := v)\<rparr>) = net_inv w"
    by (rule net_inv_cong) simp_all
  moreover have "linked c cn ch el (w\<lparr>cn_strings := (cn_strings w)(p := v)\<rparr>) = linked c cn ch el w" for c cn ch el
    by (simp add: linked_def)
  ultimately show ?thesis using assms unfolding conn_inv_def by simp
qed

lemma run_api_good:
  assumes inv: "conn_inv w" and E: "{OutOfRange, BadAlloc, Misuse} \<subseteq> E"
  shows "good E w (run_api a w)"
proof (cases a)
  case (NewString p s)
  then show ?thesis
    using conn_inv_strings_upd [OF inv, of "Some s" p] E
    by (simp add: good_def conns_advance_def evolves_net)
next
  case (FreeString p)
  then show ?thesis
    using conn_inv_strings_upd [OF inv, of None p]
    by (simp add: good_def conns_advance_def evolves_net)
next
  case (Send c p)
  have "good E w (tcp_send c p w)" if "cn_conns w c = Some cn" "cn_strings w p = Some s" for cn s
    using good_mono [OF tcp_send_good [OF inv that], of E] E by blast
  then show ?thesis using Send E by (auto simp: good_def)
qed (use E tcp_shutdown_good [OF inv] forceClose_good [OF inv] take_input_good [OF inv] wf_retrieve
    wf_retrieveAll in \<open>auto simp: good_def\<close>)

lemma conn_inv_trace: "conn_inv w \<Longrightarrow> conn_inv (w\<lparr>cn_trace := t\<rparr>)"
proof -
  assume inv: "conn_inv w"
  have "net_inv (w\<lparr>cn_trace := t\<rparr>) = net_inv w" by (rule net_inv_cong) simp_all
  moreover have "linked c cn ch el (w\<lparr>cn_trace := t\<rparr>) = linked c cn ch el w" for c cn ch el by (simp add: linked_def)
  ultimately show ?thesis using inv unfolding conn_inv_def by simp
qed

lemma call_app_good:
  assumes inv: "conn_inv w" and E: "{OutOfRange, BadAlloc, Misuse} \<subseteq> E"
  shows "good E w (call_app app ev w)"
proof -
  let ?w = "w\<lparr>cn_trace := cn_trace w @ [ev]\<rparr>"
  have "conn_inv ?w" by (rule conn_inv_trace [OF inv])
  then have "good E ?w (fold_res run_api (app ev ?w) ?w)"
    by (rule good_fold) (rule run_api_good [OF _ E])
  then show ?thesis
    unfolding call_app_def Let_def by (rule good_from) (simp_all add: conns_advance_def evolves_net)
qed

end
