(* ===== verification/Connection_World.thy ===== *)
theory Connection_World
  imports Connection
begin

text \<open>
  All connections together: the contract a connection asks of the application and of its owner
  (the locale \<open>connection_world\<close>), what its handlers and functors keep under this contract, and
  the reachable states of a net of connections.
\<close>

section \<open>State changes of a connection\<close>

lemma close_state_good:
  assumes inv: "conn_inv w" and cn: "cn_conns w c = Some cn"
  shows "good E w (change_mask DisableAll (cn_channel cn) (put_conn c (cn\<lparr>cn_state := kDisconnected\<rparr>) w))"
proof -
  obtain ch el where l: "conn_local cn ch" "focused c cn ch el w" "setc c cn ch el w = w"
    using inv cn by (rule conn_invE)
  let ?cn = "cn\<lparr>cn_state := kDisconnected\<rparr>" and ?ch = "masked DisableAll ch"
  have f: "focused c ?cn ch el w" using focused_conn [OF _ l(2), of ?cn] by simp
  have p: "put_conn c ?cn w = setc c ?cn ch el w"
    using setc_put_conn [of ?cn cn c ch el w] l(3) by simp
  have "stage s \<le> 3" for s by (cases s) simp_all
  then have "conn_local ?cn ?ch \<and> advances cn ?cn"
    using l(1) by (auto simp: conn_local_def isNoneEvent_bits advances_def stream_def pending_out_def)
  then have "leads c (\<lambda>cn' ch' el'. conn_local cn' ch' \<and> advances cn cn') w
      (setc c ?cn ?ch (synced (cn_channel cn) ?ch el) w)"
    using focused_masked [OF f, of "cn_channel cn" DisableAll] by (intro leadsI) simp_all
  then have "ends E (change_mask DisableAll (cn_channel cn) (put_conn c ?cn w))
      (leads c (\<lambda>cn' ch' el'. conn_local cn' ch' \<and> advances cn cn') w)"
    unfolding p by (simp add: setc_change_mask [OF f])
  then show ?thesis
    by (rule good_leads [OF inv cn _ evolves_after_put_conn [OF change_mask_evolves]]) blast
qed

lemma establish_state_good:
  assumes inv: "conn_inv w" and cn: "cn_conns w c = Some cn" and st: "cn_state cn = kConnecting"
    and ch: "n_chans w (cn_channel cn) = Some ch"
  shows "good E w (change_mask EnableReading (cn_channel cn)
     (put_chan (cn_channel cn) (tie_channel c ch) (put_conn c (cn\<lparr>cn_state := kConnected\<rparr>) w)))"
proof -
  obtain el where l: "conn_local cn ch" "focused c cn ch el w" "setc c cn ch el w = w"
    using conn_invE [OF inv cn] ch unfolding linked_def by (metis option.sel)
  let ?cn = "cn\<lparr>cn_state := kConnected\<rparr>" and ?tied = "tie_channel c ch"
  let ?ch = "masked EnableReading ?tied"
  have f: "focused c ?cn ?tied el w"
    using focused_tied [OF focused_conn [OF _ l(2), of ?cn]] by simp
  have p: "put_chan (cn_channel cn) ?tied (put_conn c ?cn w) = setc c ?cn ?tied el w"
    using setc_put_conn [of ?cn cn c ch el w] setc_put_chan [of "cn_channel cn" ?cn ?tied c ch el w] l(3)
    by simp
  have "conn_local ?cn ?ch \<and> advances cn ?cn"
    using l(1) st by (auto simp: conn_local_def isReading_bits isWriting_bit advances_def stream_def
        pending_out_def)
  then have "leads c (\<lambda>cn' ch' el'. conn_local cn' ch' \<and> advances cn cn') w
      (setc c ?cn ?ch (synced (cn_channel cn) ?ch el) w)"
    using focused_masked [OF f, of "cn_channel cn" EnableReading] by (intro leadsI) simp_all
  then have 1: "ends E (change_mask EnableReading (cn_channel cn) (put_chan (cn_channel cn) ?tied (put_conn c ?cn w)))
      (leads c (\<lambda>cn' ch' el'. conn_local cn' ch' \<and> advances cn cn') w)"
    unfolding p by (simp add: setc_change_mask [OF f])
  have "evolves w (put_chan (cn_channel cn) ?tied (put_conn c ?cn w))"
    using ch by (intro evolves_trans [OF evolves_put_conn evolves_put_chan]) (simp_all add: same_dispatch_def tie_channel_def)
  from good_leads [OF inv cn 1 evolves_from [OF this change_mask_evolves]] show ?thesis by blast
qed

lemma remove_good:
  assumes inv: "conn_inv w" and cn: "cn_conns w c = Some cn"
  shows "good E w (chan_remove (cn_channel cn) w)"
proof -
  obtain ch el where l: "conn_local cn ch" "focused c cn ch el w" "setc c cn ch el w = w"
    using inv cn by (rule conn_invE)
  let ?ch = "ch\<lparr>ch_index := KNew\<rparr>"
  have "conn_local cn ?ch"
    using l(1) by (simp add: conn_local_def isReading_bits isWriting_bit isNoneEvent_bits)
  then have "leads c (\<lambda>cn' ch' el'. conn_local cn' ch' \<and> advances cn cn') w
      (setc c cn ?ch (synced (cn_channel cn) ?ch el) w)"
    using focused_removed [OF l(2)] by (intro leadsI) simp_all
  then have "ends E (chan_remove (cn_channel cn) w)
      (leads c (\<lambda>cn' ch' el'. conn_local cn' ch' \<and> advances cn cn') w)"
    using setc_chan_remove [OF l(2) refl] l(3) by simp
  then show ?thesis by (rule good_leads [OF inv cn _ chan_remove_evolves]) blast
qed

lemma send_functor_good:
  assumes inv: "conn_inv w" and cn: "cn_conns w c = Some cn"
    and str: "cn_strings w p = Some s" "unat len \<le> length s"
  shows "good {OutOfRange} w (send_functor c p len w)"
proof -
  have "length (take (unat len) s) < 2 ^ 64" using conn_inv_strings [OF inv str(1)] by simp
  from sendInLoop_good [OF inv cn this] str show ?thesis by (simp add: send_functor_def)
qed

lemma set_close_good:
  assumes inv: "conn_inv w" and cn: "cn_conns w c = Some cn"
  shows "good E w (upd_conn c (\<lambda>cn. cn\<lparr>cn_closeCallback := Some t\<rparr>) w)"
proof -
  have "good E w (Inr (put_conn c (cn\<lparr>cn_closeCallback := Some t\<rparr>) w))"
    by (rule good_put_conn [OF inv cn])
      (auto simp: advances_def stream_def pending_out_def conn_local_def)
  then show ?thesis using cn by (simp add: upd_conn_def get_conn_def)
qed

section \<open>When functors and handlers may run\<close>

text \<open>
  What holds of a functor of a connection when its turn comes: the bound connection is alive, it
  is established once and before anything else, its sending side is shut down in a closing state,
  and the string of a cross-thread send still exists. Handlers run for live connections.
\<close>

fun functor_ok :: "Functor \<Rightarrow> 'a conn_net_scheme \<Rightarrow> bool" where
  "functor_ok (FConnectEstablished c) w = (\<exists>cn. cn_conns w c = Some cn \<and> cn_state cn = kConnecting)"
| "functor_ok (FConnectDestroyed c) w = (cn_conns w c \<noteq> None)"
| "functor_ok (FForceCloseInLoop c) w = (cn_conns w c \<noteq> None)"
| "functor_ok (FSendInLoop c p len) w =
     (cn_conns w c \<noteq> None \<and> (\<exists>s. cn_strings w p = Some s \<and> unat len \<le> length s))"
| "functor_ok (FShutdownInLoop c) w = (\<exists>cn. cn_conns w c = Some cn
     \<and> (cn_state cn = kDisconnecting \<or> cn_state cn = kDisconnected))"
| "functor_ok (FSetCloseCallback c t) w = (cn_conns w c \<noteq> None)"
| "functor_ok (FWriteComplete c) w = True"
| "functor_ok (FHighWaterMark c n) w = True"
| "functor_ok f w = False"

fun handler_conn :: "handler \<Rightarrow> nat option" where
  "handler_conn (ConnHandleRead c) = Some c"
| "handler_conn (ConnHandleWrite c) = Some c"
| "handler_conn (ConnHandleClose c) = Some c"
| "handler_conn (ConnHandleError c) = Some c"
| "handler_conn h = None"

section \<open>The contract with the application and the owner\<close>

text \<open>
  \<open>keep\<close> is what the owner needs of the rest of the state (its own loop alive); it is stable
  under all operations. \<open>E\<close> are the faults that the application, the owner and the buffers can
  cause.
\<close>

locale connection_world =
  fixes app :: "app_event \<Rightarrow> 'a conn_net_scheme \<Rightarrow> api list"
    and close :: "close_target \<Rightarrow> nat \<Rightarrow> 'a conn_net_scheme \<Rightarrow> 'a conn_net_scheme res"
    and keep :: "'a conn_net_scheme \<Rightarrow> bool"
    and E :: "fault set"
  assumes app_good: "conn_inv w \<Longrightarrow> good E w (call_app app ev w)"
    and close_good: "conn_inv w \<Longrightarrow> keep w \<Longrightarrow> cn_conns w c \<noteq> None \<Longrightarrow> good E w (close t c w)"
    and keep_evolves: "keep w \<Longrightarrow> evolves w w' \<Longrightarrow> keep w'"
    and faults: "{OutOfRange, BadFunctionCall} \<subseteq> E"
begin

lemma live_later: "cn_conns w c \<noteq> None \<Longrightarrow> conns_advance w w' \<Longrightarrow> cn_conns w' c \<noteq> None"
  by (auto simp: conns_advance_def)

lemma connectionCallback_good:
  assumes inv: "conn_inv w" and cn: "cn_conns w c = Some cn"
  shows "good E w (connectionCallback app c w)"
  using cn app_good [OF inv] faults good_Inr [OF inv]
  by (auto simp: connectionCallback_def get_conn_def good_def split: option.splits user_cb.splits)

lemma messageCallback_good:
  assumes inv: "conn_inv w" and cn: "cn_conns w c = Some cn"
  shows "good E w (messageCallback app t c w)"
  using cn app_good [OF inv] faults take_input_good [OF inv cn, of retrieveAll E] wf_retrieveAll
  by (auto simp: messageCallback_def get_conn_def good_def split: option.splits user_cb.splits)

lemma closeCallback_good:
  assumes inv: "conn_inv w" and keep: "keep w" and cn: "cn_conns w c = Some cn"
  shows "good E w (closeCallback_call close c w)"
  using cn close_good [OF inv keep, of c] faults
  by (auto simp: closeCallback_call_def get_conn_def good_def split: option.splits)

lemma handleClose_good:
  assumes inv: "conn_inv w" and keep: "keep w" and cn: "cn_conns w c = Some cn"
  shows "good E w (handleClose app close c w)"
proof -
  have "good E x (bind_res (connectionCallback app c x) (closeCallback_call close c))"
    if x: "conn_inv x" "conns_advance w x" "evolves w x" for x
  proof (rule good_bind)
    obtain cx where "cn_conns x c = Some cx" using live_later [OF _ x(2), of c] cn by auto
    then show "good E x (connectionCallback app c x)" by (rule connectionCallback_good [OF x(1)])
    fix y
    assume y: "conn_inv y" "conns_advance x y" "evolves x y"
    obtain cy where "cn_conns y c = Some cy"
      using live_later [OF _ conns_advance_trans [OF x(2) y(2)], of c] cn by auto
    moreover have "keep y" using keep x(3) y(3) by (blast intro: keep_evolves)
    ultimately show "good E y (closeCallback_call close c y)" by (intro closeCallback_good y(1))
  qed
  with good_bind [OF close_state_good [OF inv cn]] cn show ?thesis
    by (simp add: handleClose_def get_conn_def)
qed

lemma forceCloseInLoop_good:
  assumes inv: "conn_inv w" and keep: "keep w" and cn: "cn_conns w c = Some cn"
  shows "good E w (forceCloseInLoop app close c w)"
  using cn handleClose_good [OF inv keep cn] good_Inr [OF inv]
  by (simp add: forceCloseInLoop_def get_conn_def)

lemma handleRead_good:
  assumes inv: "conn_inv w" and keep: "keep w" and cn: "cn_conns w c = Some cn"
  shows "good E w (handleRead app close t c w)"
proof -
  obtain ch el where l: "conn_local cn ch" using inv cn by (rule conn_invE)
  have step: "good E w (if n > 0 then messageCallback app t c (put_conn c cn' w)
       else if n = 0 then handleClose app close c (put_conn c cn' w) else handleError c (put_conn c cn' w))"
    if b: "wf_buffer b" and cn': "cn' = cn\<lparr>cn_inputBuffer := b,
        cn_socket := (cn_socket cn)\<lparr>sk_reads := tl (sk_reads (cn_socket cn))\<rparr>\<rparr>" for n :: int and b cn'
  proof -
    let ?w = "put_conn c cn' w"
    have "good E w (Inr ?w)"
      by (rule good_put_conn [OF inv cn])
        (use b in \<open>auto simp: cn' advances_def same_place_def stream_def pending_out_def conn_local_def\<close>)
    then have 1: "conn_inv ?w" "conns_advance w ?w" "evolves w ?w" by (auto dest: good_InrD)
    have 2: "cn_conns ?w c = Some cn'" by simp
    have "good E ?w (if n > 0 then messageCallback app t c ?w
       else if n = 0 then handleClose app close c ?w else handleError c ?w)"
      using messageCallback_good [OF 1(1) 2] handleClose_good [OF 1(1) _ 2] keep_evolves [OF keep 1(3)]
        good_Inr [OF 1(1)]
      by (simp add: handleError_def get_conn_def)
    then show ?thesis by (rule good_from [OF _ 1(2,3)])
  qed
  have "wf_buffer (cn_inputBuffer cn)" using l by (simp add: conn_local_def)
  from readFd_safe [OF this, of "next_read (cn_socket cn)" 0] show ?thesis
    using cn faults step
    by (cases "readFd (next_read (cn_socket cn)) 0 (cn_inputBuffer cn)")
      (auto simp: handleRead_def get_conn_def Let_def good_def)
qed

lemma handleWrite_good:
  assumes inv: "conn_inv w" and cn: "cn_conns w c = Some cn"
  shows "good E w (handleWrite c w)"
proof -
  obtain ch el where l: "conn_local cn ch" "focused c cn ch el w" "setc c cn ch el w = w"
    using inv cn by (rule conn_invE)
  show ?thesis
  proof (cases "cn_state cn = kDisconnected")
    case True
    with handleWrite_down [OF l(1), of c el w] l(3) inv show ?thesis by (simp add: good_Inr)
  next
    case False
    have "ends E (handleWrite c w) (leads c (\<lambda>cn' ch' el'. wrote c cn ch el cn' ch' el' \<and> same_place cn cn') w)"
      using handleWrite_at [OF l(2,1) False, THEN ends_returns] unfolding l(3)
      by (rule ends_mono) (rule leads_conj_place [OF cn])
    then show ?thesis
    proof (rule good_leads [OF inv cn _ handleWrite_evolves])
      fix cn' ch' el'
      assume *: "wrote c cn ch el cn' ch' el' \<and> same_place cn cn'"
      then have "cn' = cn\<lparr>cn_socket := cn_socket cn', cn_outputBuffer := cn_outputBuffer cn'\<rparr>"
        by (simp only: wrote_def)
      then have "cn_state cn' = cn_state cn" by (rule ssubst) simp
      moreover have "stream cn' = stream cn" using * by (simp add: wrote_def stream_def)
      ultimately show "conn_local cn' ch' \<and> advances cn cn'" using * by (auto simp: wrote_def advances_def)
    qed
  qed
qed

lemma connectEstablished_good:
  assumes inv: "conn_inv w" and cn: "cn_conns w c = Some cn" and st: "cn_state cn = kConnecting"
  shows "good E w (connectEstablished app c w)"
proof -
  obtain ch el where l: "linked c cn ch el w" using inv cn by (rule conn_invE)
  then have ch: "n_chans w (cn_channel cn) = Some ch" by (simp add: linked_def)
  have "good E x (connectionCallback app c x)" if x: "conn_inv x" "conns_advance w x" for x
    using live_later [OF _ x(2), of c] cn connectionCallback_good [OF x(1)] by auto
  with good_bind [OF establish_state_good [OF inv cn st ch]] show ?thesis
    using cn ch by (simp add: connectEstablished_def get_conn_def)
qed

lemma connectDestroyed_good:
  assumes inv: "conn_inv w" and cn: "cn_conns w c = Some cn"
  shows "good E w (connectDestroyed app c w)"
proof -
  have callback: "good E x (connectionCallback app c x)" if x: "conn_inv x" "conns_advance w x" for x
    using live_later [OF _ x(2), of c] cn connectionCallback_good [OF x(1)] by auto
  have remove: "good E x (chan_remove (cn_channel cn) x)" if x: "conn_inv x" "conns_advance w x" for x
  proof -
    obtain cx where "cn_conns x c = Some cx" "advances cn cx"
      using x(2) cn unfolding conns_advance_def by blast
    then show ?thesis using remove_good [OF x(1), of c cx E] by (simp add: advances_def same_place_def)
  qed
  show ?thesis
  proof (cases "cn_state cn = kConnected")
    case True
    then show ?thesis
      using good_bind [OF good_bind [OF close_state_good [OF inv cn] callback] remove] cn
      by (simp add: connectDestroyed_def get_conn_def)
  next
    case False
    then show ?thesis using remove [OF inv] cn by (simp add: connectDestroyed_def get_conn_def)
  qed
qed

lemma run_functor_good:
  assumes inv: "conn_inv w" and keep: "keep w" and ok: "functor_ok f w"
  shows "good E w (run_conn_functor app close other f w)"
proof (cases f)
  case (FConnectEstablished c)
  with ok connectEstablished_good [OF inv] show ?thesis by (auto simp: run_conn_functor_def)
next
  case (FConnectDestroyed c)
  with ok connectDestroyed_good [OF inv] show ?thesis by (auto simp: run_conn_functor_def)
next
  case (FForceCloseInLoop c)
  with ok forceCloseInLoop_good [OF inv keep] show ?thesis by (auto simp: run_conn_functor_def)
next
  case (FSendInLoop c p len)
  with ok send_functor_good [OF inv, THEN good_mono] faults show ?thesis by (auto simp: run_conn_functor_def)
next
  case (FShutdownInLoop c)
  with ok shutdownInLoop_good [OF inv] show ?thesis by (auto simp: run_conn_functor_def)
next
  case (FSetCloseCallback c t)
  with ok set_close_good [OF inv] show ?thesis by (auto simp: run_conn_functor_def)
qed (use ok app_good [OF inv] in \<open>simp_all add: run_conn_functor_def\<close>)

lemma run_handler_good:
  assumes inv: "conn_inv w" and keep: "keep w" and c: "handler_conn h = Some c" "cn_conns w c = Some cn"
  shows "good E w (run_conn_handler app close other t h w)"
  using c handleRead_good [OF inv keep] handleWrite_good [OF inv] handleClose_good [OF inv keep] good_Inr [OF inv]
  by (cases h) (auto simp: run_conn_handler_def handleError_def get_conn_def)

text \<open>A list of handlers of one connection, run one after the other.\<close>

lemma run_handlers_good:
  assumes "conn_inv w" "keep w" "cn_conns w c = Some cn" "\<forall>h \<in> set hs. handler_conn h = Some c"
  shows "good E w (fold_res (run_conn_handler app close other t) hs w)"
  using assms
proof (induction hs arbitrary: w cn)
  case Nil
  then show ?case by (simp add: good_Inr)
next
  case (Cons h hs)
  show ?case unfolding fold_res.simps
  proof (rule good_bind)
    show "good E w (run_conn_handler app close other t h w)"
      using Cons.prems by (intro run_handler_good) auto
    fix x
    assume x: "conn_inv x" "conns_advance w x" "evolves w x"
    obtain cx where "cn_conns x c = Some cx" using Cons.prems(3) x(2) unfolding conns_advance_def by blast
    then show "good E x (fold_res (run_conn_handler app close other t) hs x)"
      using Cons.prems x by (intro Cons.IH) (auto intro: keep_evolves)
  qed
qed

end

text \<open>The handlers of a connection's channel are its own.\<close>

lemma owns_fired: "owns c cn ch \<Longrightarrow> h \<in> set (fired ch) \<Longrightarrow> handler_conn h = Some c"
  by (auto simp: owns_def fired_def split: if_splits)

section \<open>New connections\<close>

lemma wf_new_buffer [simp]: "wf_buffer (mk_buffer kInitialSize)"
  by (rule wf_mk_buffer) (simp add: kInitialSize_def)

lemma net_inv_new_chan:
  assumes inv: "net_inv w" and d: "n_chans w d = None" and ch: "ch_index ch = KNew"
  shows "net_inv (put_chan d ch w)"
proof -
  have "poller_inv l p ((n_chans w)(d \<mapsto> ch))" if "poller_inv l p (n_chans w)" for l p
    using that by (rule poller_inv_cong) (use d ch in simp)
  then show ?thesis using inv by (simp add: net_inv_def del: fun_upd_apply)
qed

definition fd_free :: "int \<Rightarrow> nat \<Rightarrow> 'a conn_net_scheme \<Rightarrow> bool" where
  "fd_free fd l w \<longleftrightarrow> (\<forall>c cn. cn_conns w c = Some cn \<longrightarrow> sk_fd (cn_socket cn) \<noteq> fd)
     \<and> (\<exists>el. n_loops w l = Some el \<and> channels_map (el_poller el) fd = None)"

lemma new_conn_good:
  assumes inv: "conn_inv w" and fresh: "cn_conns w c = None" "n_chans w d = None"
    and free: "fd_free (sk_fd sk) l w" and fin: "\<not> sk_fin sk"
  shows "good E w (new_conn c d l name sk la pa w)"
proof -
  let ?cn = "mk_conn l name sk d la pa" and ?ch = "conn_channel l c (sk_fd sk)"
  let ?w = "put_conn c ?cn (put_chan d ?ch w)"
  obtain el where el: "n_loops w l = Some el" "channels_map (el_poller el) (sk_fd sk) = None"
    and fds: "\<And>b bn. cn_conns w b = Some bn \<Longrightarrow> sk_fd (cn_socket bn) \<noteq> sk_fd sk"
    using free by (auto simp: fd_free_def)
  have new: "linked c ?cn ?ch el ?w" "conn_local ?cn ?ch"
    using el by (simp_all add: linked_def owns_def mk_conn_def conn_channel_def mk_channel_def may_add_def
        conn_local_def pending_out_def isWriting_bit)
      (use fin in \<open>simp_all\<close>)
  have old: "linked b bn ch e ?w" if "linked b bn ch e w" for b bn ch e
    using that fresh by (auto simp: linked_def)
  have "net_inv (put_chan d ?ch w)"
    using conn_inv_net [OF inv] fresh(2) by (rule net_inv_new_chan) (simp add: conn_channel_def mk_channel_def KNew_def)
  then have net: "net_inv ?w" by (subst net_inv_cong [of ?w "put_chan d ?ch w"]) simp_all
  have "conn_inv ?w" unfolding conn_inv_def
  proof (intro conjI allI impI net)
    fix b bn
    assume b: "cn_conns ?w b = Some bn"
    show "\<exists>ch el. linked b bn ch el ?w \<and> conn_local bn ch"
    proof (cases "b = c")
      case True
      with b new show ?thesis by auto
    next
      case False
      with b inv old show ?thesis unfolding conn_inv_def by (simp del: not_None_eq) blast
    qed
  next
    fix a b an bn
    assume "cn_conns ?w a = Some an \<and> cn_conns ?w b = Some bn \<and> a \<noteq> b"
    then show "sk_fd (cn_socket an) \<noteq> sk_fd (cn_socket bn)"
      using fds conn_inv_fds [OF inv] by (auto simp: mk_conn_def split: if_splits) metis+
  next
    fix p s
    assume "cn_strings ?w p = Some s"
    then show "length s < 2 ^ 64" using conn_inv_strings [OF inv] by simp
  qed
  moreover have "conns_advance w ?w" using fresh by (auto simp: conns_advance_def)
  moreover have "evolves w ?w" using fresh by (auto simp: evolves_def)
  ultimately show ?thesis using fresh by (simp add: good_def new_conn_def)
qed

section \<open>A sample\<close>

text \<open>One loop in thread 1 and one established connection, with nothing sent yet.\<close>

definition quiet :: "app_event \<Rightarrow> 'a conn_net_scheme \<Rightarrow> api list" where
  "quiet ev w = []"

definition sample_sock :: "write_env list \<Rightarrow> sock" where
  "sample_sock ws = \<lparr>sk_fd = 7, sk_opts = [], sk_reads = [], sk_writes = ws, sk_sent = [], sk_fin = False\<rparr>"

definition sample_start :: conn_net where
  "sample_start = \<lparr>n_tid = 1, n_chans = Map.empty,
     n_loops = [1 \<mapsto> mk_loop 1 (mk_poller (\<lambda>_ _. False)) 3 4], n_loopInThisThread = [1 \<mapsto> 1],
     cn_conns = Map.empty, cn_strings = Map.empty, cn_trace = []\<rparr>"

definition sample_addr :: sockaddr_in where
  "sample_addr = \<lparr>sin_family = AF_INET, sin_port = htons 80, s_addr = 0x0100007F\<rparr>"

definition sample_conn :: "write_env list \<Rightarrow> conn" where
  "sample_conn ws = (mk_conn 1 ''c'' (sample_sock ws) 6 sample_addr sample_addr)
     \<lparr>cn_connectionCallback := Some DefaultCb, cn_messageCallback := Some DefaultCb,
      cn_writeCompleteCallback := Some UserCb, cn_highWaterMarkCallback := Some UserCb,
      cn_highWaterMark := 4\<rparr>"

definition sample_base :: "write_env list \<Rightarrow> conn_net" where
  "sample_base ws = put_conn 5 (sample_conn ws) (put_chan 6 (conn_channel 1 5 7) sample_start)"

definition sample_world :: "write_env list \<Rightarrow> conn_net" where
  "sample_world ws = (case connectEstablished quiet 5 (sample_base ws) of Inr w \<Rightarrow> w | Inl _ \<Rightarrow> sample_start)"

lemma sample_start_inv: "conn_inv sample_start"
proof -
  have "poller_inv 1 (mk_poller (\<lambda>_ _. False)) Map.empty" by (rule poller_inv_mk_poller) simp
  then show ?thesis by (simp add: conn_inv_def net_inv_def sample_start_def mk_loop_def)
qed

lemma sample_base_inv: "conn_inv (sample_base ws)"
proof -
  let ?cn = "mk_conn 1 ''c'' (sample_sock ws) 6 sample_addr sample_addr"
  let ?w = "put_conn 5 ?cn (put_chan 6 (conn_channel 1 5 7) sample_start)"
  have fd: "sk_fd (sample_sock ws) = 7" by (simp add: sample_sock_def)
  have "fd_free 7 1 sample_start" by (simp add: fd_free_def sample_start_def mk_loop_def mk_poller_def)
  then have "good {} sample_start (new_conn 5 6 1 ''c'' (sample_sock ws) sample_addr sample_addr sample_start)"
    by (intro new_conn_good sample_start_inv) (simp_all add: sample_start_def sample_sock_def)
  then have "conn_inv ?w"
    by (simp add: good_def new_conn_def sample_start_def fd)
  moreover have "put_conn 5 (sample_conn ws) ?w = sample_base ws"
    by (simp add: put_conn_def sample_base_def)
  moreover have "good {} ?w (Inr (put_conn 5 (sample_conn ws) ?w))"
    by (rule good_put_conn [OF \<open>conn_inv ?w\<close>, of 5 ?cn])
      (simp_all add: advances_def sample_conn_def stream_def pending_out_def same_place_def conn_local_def)
  ultimately show ?thesis by (simp add: good_def)
qed

definition sample_up :: "write_env list \<Rightarrow> conn" where
  "sample_up ws = (sample_conn ws)\<lparr>cn_state := kConnected\<rparr>"

definition sample_channel :: channel where
  "sample_channel = masked EnableReading (tie_channel 5 (conn_channel 1 5 7))"

definition sample_evloop :: evloop where
  "sample_evloop = synced 6 sample_channel (mk_loop 1 (mk_poller (\<lambda>_ _. False)) 3 4)"

lemma sample_conn_place [simp]:
  "cn_channel (sample_conn ws) = 6" "cn_loop (sample_conn ws) = 1"
  "cn_channel (sample_up ws) = 6" "cn_loop (sample_up ws) = 1"
  by (simp_all add: sample_up_def sample_conn_def mk_conn_def)

lemma sample_world_focus:
  "focused 5 (sample_up ws) sample_channel sample_evloop (sample_base ws)"
  and sample_world_eq: "sample_world ws = setc 5 (sample_up ws) sample_channel sample_evloop (sample_base ws)"
proof -
  let ?el = "mk_loop 1 (mk_poller (\<lambda>_ _. False)) 3 4" and ?ch = "conn_channel 1 5 7"
  have cn: "cn_conns (sample_base ws) 5 = Some (sample_conn ws)" by (simp add: sample_base_def)
  have base: "n_chans (sample_base ws) 6 = Some ?ch" "n_loops (sample_base ws) 1 = Some ?el"
    by (simp_all add: sample_base_def sample_start_def)
  obtain ch el where "linked 5 (sample_conn ws) ch el (sample_base ws)"
     "focused 5 (sample_conn ws) ch el (sample_base ws)" "setc 5 (sample_conn ws) ch el (sample_base ws) = sample_base ws"
    using sample_base_inv cn by (rule conn_invE)
  then have f: "focused 5 (sample_conn ws) ?ch ?el (sample_base ws)"
    "setc 5 (sample_conn ws) ?ch ?el (sample_base ws) = sample_base ws"
    using base by (simp_all add: linked_def)
  have f2: "focused 5 (sample_up ws) (tie_channel 5 ?ch) ?el (sample_base ws)"
    using focused_tied [OF focused_conn [OF _ f(1), of "sample_up ws"]] by (simp add: sample_up_def)
  from focused_masked [OF f2, of 6 EnableReading]
  show "focused 5 (sample_up ws) sample_channel sample_evloop (sample_base ws)"
    by (simp add: sample_evloop_def sample_channel_def)
  have "connectEstablished quiet 5 (setc 5 (sample_conn ws) ?ch ?el (sample_base ws))
      = Inr (setc 5 (sample_up ws) sample_channel sample_evloop (sample_base ws))"
    using f2 by (simp add: connectEstablished_def setc_rules sample_up_def sample_channel_def
        sample_evloop_def connectionCallback_def) (simp add: sample_conn_def)
  then show "sample_world ws = setc 5 (sample_up ws) sample_channel sample_evloop (sample_base ws)"
    unfolding f(2) by (simp add: sample_world_def)
qed

lemma quiet_good: "conn_inv w \<Longrightarrow> good E w (call_app quiet ev w)"
proof -
  assume inv: "conn_inv w"
  have "good {OutOfRange, BadAlloc, Misuse} w (call_app quiet ev w)" by (rule call_app_good [OF inv]) simp
  then show ?thesis by (simp add: good_def call_app_def quiet_def)
qed

lemma sample_local: "conn_local (sample_up ws) sample_channel"
  by (simp add: conn_local_def sample_channel_def isReading_bits isWriting_bit sample_up_def
      sample_conn_def mk_conn_def sample_sock_def pending_out_def conn_channel_def mk_channel_def)

lemma sample_world_inv: "conn_inv (sample_world ws)"
  unfolding sample_world_eq by (rule conn_inv_setc [OF sample_base_inv sample_world_focus sample_local])

lemma sample_world_simps [simp]:
  "cn_conns (sample_world ws) 5 = Some (sample_up ws)"
  "n_chans (sample_world ws) 6 = Some sample_channel"
  "n_loops (sample_world ws) 1 = Some sample_evloop"
  "n_tid (sample_world ws) = 1" "cn_trace (sample_world ws) = []" "cn_strings (sample_world ws) p = None"
  by (simp_all add: sample_world_eq sample_base_def sample_start_def)

lemma sample_world_loop [simp]: "n_loops (sample_world ws) (Suc 0) = Some sample_evloop"
  using sample_world_simps(3) by (simp only: One_nat_def)

end
