(* ===== verification/Connection_Properties.thy ===== *)
theory Connection_Properties
  imports Connection_World
begin

text \<open>
  What a connection promises: the outcome of a send and of a write event on every branch, the
  graceful shutdown, the order of a close, and what goes wrong with calls from other threads.
\<close>

section \<open>Reading a focused result\<close>

lemma leads_reads:
  assumes "leads c P w w'" "cn_conns w c = Some cn" "conn_inv w"
    and "\<And>cn' ch' el'. P cn' ch' el' \<Longrightarrow> conn_local cn' ch'"
  shows "\<exists>cn' ch' el'. cn_conns w' c = Some cn' \<and> n_chans w' (cn_channel cn) = Some ch'
     \<and> n_loops w' (cn_loop cn) = Some el' \<and> P cn' ch' el' \<and> conn_inv w'"
proof -
  obtain cn' ch' el' where *: "w' = setc c cn' ch' el' w" "focused c cn' ch' el' w" "P cn' ch' el'"
    using assms(1) by (rule leadsE)
  then have "same_place cn cn'" using leads_place [OF _ assms(2)] by blast
  moreover have "conn_inv w'" using * assms(3,4) conn_inv_setc by blast
  ultimately show ?thesis using * by (simp add: same_place_def)
qed

section \<open>Sending\<close>

lemma sendInLoop_sends:
  assumes "conn_inv w" "cn_conns w c = Some cn" "cn_state cn \<noteq> kDisconnected"
    and "n_loops w (cn_loop cn) = Some el"
    and "length data < 2 ^ 64" "room (length data) (cn_outputBuffer cn)"
  obtains ch cn' ch' el' where "sendInLoop c data w = Inr (setc c cn' ch' el' w)" "sent c cn ch el data cn' ch' el'"
    "conn_inv (setc c cn' ch' el' w)" "same_place cn cn'"
proof -
  obtain ch el1 where l: "linked c cn ch el1 w" "conn_local cn ch" "focused c cn ch el1 w" "setc c cn ch el1 w = w"
    using assms(1,2) by (rule conn_invE)
  then have el: "el1 = el" using assms(4) by (simp add: linked_def)
  have wf: "wf_buffer (cn_outputBuffer cn)" using l(2) by (simp add: conn_local_def)
  have "takes {} (kept cn data) (cn_outputBuffer cn)"
    using wf assms(6) by (intro takes_room) (auto simp: room_def kept_def intro: le_less_trans [OF add_left_mono [OF diff_le_self]])
  from sendInLoop_at [OF l(3,2) assms(3,5) disjI2 [OF this]]
  obtain w' where w': "sendInLoop c data w = Inr w'" "leads c (sent c cn ch el data) w w'"
    unfolding l(4) unfolding el by (auto simp: returns_iff)
  obtain cn' ch' el' where *: "w' = setc c cn' ch' el' w" "focused c cn' ch' el' w" "sent c cn ch el data cn' ch' el'"
    using w'(2) by (rule leadsE)
  have "same_place cn cn'" using leads_place [OF *(2) assms(2)] .
  moreover have "conn_inv (setc c cn' ch' el' w)" using * assms(1) by (intro conn_inv_setc) (simp_all add: sent_def)
  ultimately show thesis using w'(1) * by (intro that [of cn' ch' el' ch]) simp_all
qed

text \<open>
  C17. What \<open>sendInLoop\<close> does on a connection that is not down, whatever its state and whatever
  the kernel answers: with nothing waiting, the kernel takes a prefix at once (\<open>taken\<close>); the rest
  goes behind the waiting bytes (\<open>kept\<close>), unless the kernel reports a reset connection, when it is
  dropped; the functors for write completion and the high water mark are queued exactly when due,
  and the channel then watches writing exactly when bytes wait. With room in the buffer no branch
  fails.
\<close>

theorem sendInLoop_outcome:
  assumes "conn_inv w" "cn_conns w c = Some cn" "cn_state cn \<noteq> kDisconnected"
    and "n_loops w (cn_loop cn) = Some el"
    and "length data < 2 ^ 64" "room (length data) (cn_outputBuffer cn)"
  shows "returns (sendInLoop c data w) (\<lambda>w'. conn_inv w' \<and> (\<exists>cn' ch' el'.
     cn_conns w' c = Some cn' \<and> n_chans w' (cn_channel cn) = Some ch' \<and> n_loops w' (cn_loop cn) = Some el'
     \<and> cn_state cn' = cn_state cn
     \<and> sk_sent (cn_socket cn') = sk_sent (cn_socket cn) @ take (taken cn data) data
     \<and> pending_out cn' = pending_out cn @ kept cn data
     \<and> (isWriting ch' \<longleftrightarrow> pending_out cn' \<noteq> [])
     \<and> pendingFunctors el' = pendingFunctors el @ send_notes c cn data))"
proof -
  obtain ch cn' ch' el' where *: "sendInLoop c data w = Inr (setc c cn' ch' el' w)" "sent c cn ch el data cn' ch' el'"
    "conn_inv (setc c cn' ch' el' w)" "same_place cn cn'"
    using assms by (rule sendInLoop_sends)
  have "cn_state cn' = cn_state cn" using *(2) by (intro io_only_state) (simp add: sent_def)
  with * assms(3) show ?thesis by (auto simp: sent_def conn_local_def same_place_def)
qed

text \<open>
  Six bytes with room for two in the kernel: two are sent, four wait, and the mark of four is
  reached.
\<close>

lemma sample_up_simps [simp]:
  "pending_out (sample_up ws) = []" "cn_state (sample_up ws) = kConnected"
  "cn_socket (sample_up ws) = (sample_sock ws)\<lparr>sk_opts := [(SO_KEEPALIVE, 1)]\<rparr>" "cn_highWaterMark (sample_up ws) = 4"
  "cn_writeCompleteCallback (sample_up ws) = Some UserCb"
  "cn_highWaterMarkCallback (sample_up ws) = Some UserCb"
  "cn_outputBuffer (sample_up ws) = mk_buffer kInitialSize"
  by (simp_all add: sample_up_def sample_conn_def mk_conn_def pending_out_def sample_sock_def setKeepAlive_def setsockopt_def)

lemma sample_evloop_simps [simp]:
  "pendingFunctors sample_evloop = []" "threadId sample_evloop = 1" "el_calling sample_evloop = False"
  by (simp_all add: sample_evloop_def mk_loop_def)

lemma room_new_buffer: "n < 2 ^ 63 \<Longrightarrow> room n (mk_buffer kInitialSize)"
  by (simp add: room_def mk_buffer_def kInitialSize_def kCheapPrepend_def)

theorem sendInLoop_outcome_witness:
  "returns (sendInLoop 5 [1, 2, 3, 4, 5, 6] (sample_world [WriteRoom 2])) (\<lambda>w'. \<exists>cn'.
     cn_conns w' 5 = Some cn' \<and> sk_sent (cn_socket cn') = [1, 2] \<and> pending_out cn' = [3, 4, 5, 6]
     \<and> (\<exists>el'. n_loops w' 1 = Some el' \<and> pendingFunctors el' = [FHighWaterMark 5 4]))"
proof -
  let ?w = "sample_world [WriteRoom 2]" and ?cn = "sample_up [WriteRoom 2]" and ?d = "[1, 2, 3, 4, 5, 6] :: byte list"
  have n: "taken ?cn ?d = 2" "kept ?cn ?d = [3, 4, 5, 6]"
    by (simp_all add: taken_def kept_def refused_def next_write_def sample_sock_def)
  then have "send_notes 5 ?cn ?d = [FHighWaterMark 5 4]"
    by (simp add: send_notes_def completed_def high_water_def next_write_def sample_sock_def)
  moreover have "returns (sendInLoop 5 ?d ?w) (\<lambda>w'. conn_inv w' \<and> (\<exists>cn' ch' el'.
     cn_conns w' 5 = Some cn' \<and> n_chans w' (cn_channel ?cn) = Some ch' \<and> n_loops w' (cn_loop ?cn) = Some el'
     \<and> cn_state cn' = cn_state ?cn
     \<and> sk_sent (cn_socket cn') = sk_sent (cn_socket ?cn) @ take (taken ?cn ?d) ?d
     \<and> pending_out cn' = pending_out ?cn @ kept ?cn ?d
     \<and> (isWriting ch' \<longleftrightarrow> pending_out cn' \<noteq> [])
     \<and> pendingFunctors el' = pendingFunctors sample_evloop @ send_notes 5 ?cn ?d))"
    by (rule sendInLoop_outcome [OF sample_world_inv]) (simp_all add: room_new_buffer)
  ultimately show ?thesis using n
    by (auto simp: sample_sock_def elim!: returns_mono)
qed

section \<open>Writing out\<close>

definition wrote_state :: "nat \<Rightarrow> conn \<Rightarrow> evloop \<Rightarrow> 'a conn_net_scheme \<Rightarrow> conn \<Rightarrow> channel \<Rightarrow> evloop \<Rightarrow> bool" where
  "wrote_state c cn el w' cn' ch' el' \<longleftrightarrow> conn_inv w'
     \<and> cn_conns w' c = Some cn' \<and> n_chans w' (cn_channel cn) = Some ch' \<and> n_loops w' (cn_loop cn) = Some el'
     \<and> cn_state cn' = cn_state cn
     \<and> sk_sent (cn_socket cn') = sk_sent (cn_socket cn) @ take (written cn) (pending_out cn)
     \<and> pending_out cn' = drop (written cn) (pending_out cn)
     \<and> sk_writes (cn_socket cn') =
         (if pending_out cn = [] then sk_writes (cn_socket cn) else tl (sk_writes (cn_socket cn)))
     \<and> (isWriting ch' \<longleftrightarrow> pending_out cn' \<noteq> [])
     \<and> (sk_fin (cn_socket cn') \<longleftrightarrow> sk_fin (cn_socket cn) \<or> drained cn \<and> cn_state cn = kDisconnecting)
     \<and> pendingFunctors el' = pendingFunctors el
         @ (if drained cn \<and> cn_writeCompleteCallback cn \<noteq> None then [FWriteComplete c] else [])"

lemma handleWrite_writes:
  assumes "conn_inv w" "cn_conns w c = Some cn" "cn_state cn \<noteq> kDisconnected"
    and "n_loops w (cn_loop cn) = Some el"
  obtains ch cn' ch' el' where "handleWrite c w = Inr (setc c cn' ch' el' w)" "wrote c cn ch el cn' ch' el'"
    "conn_inv (setc c cn' ch' el' w)" "same_place cn cn'"
proof -
  obtain ch el1 where l: "linked c cn ch el1 w" "conn_local cn ch" "focused c cn ch el1 w" "setc c cn ch el1 w = w"
    using assms(1,2) by (rule conn_invE)
  then have el: "el1 = el" using assms(4) by (simp add: linked_def)
  obtain w' where w': "handleWrite c w = Inr w'" "leads c (wrote c cn ch el) w w'"
    using handleWrite_at [OF l(3,2) assms(3)] unfolding l(4) unfolding el by (auto simp: returns_iff)
  obtain cn' ch' el' where *: "w' = setc c cn' ch' el' w" "focused c cn' ch' el' w" "wrote c cn ch el cn' ch' el'"
    using w'(2) by (rule leadsE)
  have "same_place cn cn'" using leads_place [OF *(2) assms(2)] .
  moreover have "conn_inv (setc c cn' ch' el' w)" using * assms(1) by (intro conn_inv_setc) (simp_all add: wrote_def)
  ultimately show thesis using w'(1) * by (intro that [of cn' ch' el' ch]) simp_all
qed

lemma wrote_conn:
  assumes "wrote c cn ch el cn' ch' el'"
  obtains sk b where "cn' = cn\<lparr>cn_socket := sk, cn_outputBuffer := b\<rparr>"
proof -
  have "cn' = cn\<lparr>cn_socket := cn_socket cn', cn_outputBuffer := cn_outputBuffer cn'\<rparr>"
    using assms by (simp only: wrote_def)
  then show thesis by (rule that)
qed

lemma handleWrite_reads:
  assumes "conn_inv w" "cn_conns w c = Some cn" "cn_state cn \<noteq> kDisconnected"
    and "n_loops w (cn_loop cn) = Some el"
  shows "returns (handleWrite c w) (\<lambda>w'. \<exists>cn' ch' el'. wrote_state c cn el w' cn' ch' el')"
proof -
  obtain ch cn' ch' el' where *: "handleWrite c w = Inr (setc c cn' ch' el' w)" "wrote c cn ch el cn' ch' el'"
    "conn_inv (setc c cn' ch' el' w)" "same_place cn cn'" using assms by (rule handleWrite_writes)
  have "cn_state cn' = cn_state cn" using *(2) by (auto elim!: wrote_conn)
  then have "wrote_state c cn el (setc c cn' ch' el' w) cn' ch' el'"
    using * assms(3) by (simp add: wrote_state_def wrote_def conn_local_def same_place_def)
  then show ?thesis unfolding *(1) by auto
qed

text \<open>
  C18. A write event on a connection that is not down hands the kernel the waiting bytes in order, as
  many as it takes, and keeps the rest; when the last one has gone the channel stops watching
  writing, the write-complete functor is queued, and a connection that is closing shuts its
  sending side down now and not earlier. Nothing is lost and no branch fails.
\<close>

theorem handleWrite_outcome:
  assumes "conn_inv w" "cn_conns w c = Some cn" "cn_state cn \<noteq> kDisconnected"
    and "n_loops w (cn_loop cn) = Some el"
  shows "returns (handleWrite c w) (\<lambda>w'. conn_inv w' \<and> (\<exists>cn' ch' el'.
     cn_conns w' c = Some cn' \<and> n_chans w' (cn_channel cn) = Some ch' \<and> n_loops w' (cn_loop cn) = Some el'
     \<and> cn_state cn' = cn_state cn
     \<and> sk_sent (cn_socket cn') = sk_sent (cn_socket cn) @ take (written cn) (pending_out cn)
     \<and> pending_out cn' = drop (written cn) (pending_out cn)
     \<and> sk_writes (cn_socket cn') =
         (if pending_out cn = [] then sk_writes (cn_socket cn) else tl (sk_writes (cn_socket cn)))
     \<and> (isWriting ch' \<longleftrightarrow> pending_out cn' \<noteq> [])
     \<and> (sk_fin (cn_socket cn') \<longleftrightarrow> sk_fin (cn_socket cn) \<or> drained cn \<and> cn_state cn = kDisconnecting)
     \<and> pendingFunctors el' = pendingFunctors el
         @ (if drained cn \<and> cn_writeCompleteCallback cn \<noteq> None then [FWriteComplete c] else [])))"
  using handleWrite_reads [OF assms]
proof (rule returns_mono)
  fix w'
  assume "\<exists>cn' ch' el'. wrote_state c cn el w' cn' ch' el'"
  then show "conn_inv w' \<and> (\<exists>cn' ch' el'.
     cn_conns w' c = Some cn' \<and> n_chans w' (cn_channel cn) = Some ch' \<and> n_loops w' (cn_loop cn) = Some el'
     \<and> cn_state cn' = cn_state cn
     \<and> sk_sent (cn_socket cn') = sk_sent (cn_socket cn) @ take (written cn) (pending_out cn)
     \<and> pending_out cn' = drop (written cn) (pending_out cn)
     \<and> sk_writes (cn_socket cn') =
         (if pending_out cn = [] then sk_writes (cn_socket cn) else tl (sk_writes (cn_socket cn)))
     \<and> (isWriting ch' \<longleftrightarrow> pending_out cn' \<noteq> [])
     \<and> (sk_fin (cn_socket cn') \<longleftrightarrow> sk_fin (cn_socket cn) \<or> drained cn \<and> cn_state cn = kDisconnecting)
     \<and> pendingFunctors el' = pendingFunctors el
         @ (if drained cn \<and> cn_writeCompleteCallback cn \<noteq> None then [FWriteComplete c] else []))"
    unfolding wrote_state_def by blast
qed

text \<open>The sample in state \<open>st\<close> with three bytes waiting.\<close>

definition waiting_buffer :: buffer where
  "waiting_buffer = \<lparr>vec = replicate 8 0 @ [1, 2, 3], readerIndex = 8, writerIndex = 11\<rparr>"

definition waiting_conn :: "StateE \<Rightarrow> write_env list \<Rightarrow> conn" where
  "waiting_conn st ws = (sample_up ws)\<lparr>cn_state := st, cn_outputBuffer := waiting_buffer\<rparr>"

definition waiting_channel :: channel where
  "waiting_channel = masked EnableWriting sample_channel"

definition waiting_world :: "StateE \<Rightarrow> write_env list \<Rightarrow> conn_net" where
  "waiting_world st ws = setc 5 (waiting_conn st ws) waiting_channel
     (synced 6 waiting_channel sample_evloop) (sample_base ws)"

lemma waiting_buffer_simps [simp]: "wf_buffer waiting_buffer" "content waiting_buffer = [1, 2, 3]"
  by (simp_all add: waiting_buffer_def wf_buffer_def content_def segment_def)

lemma waiting_conn_simps [simp]:
  "pending_out (waiting_conn st ws) = [1, 2, 3]" "cn_state (waiting_conn st ws) = st"
  "cn_channel (waiting_conn st ws) = 6" "cn_loop (waiting_conn st ws) = 1"
  "cn_socket (waiting_conn st ws) = (sample_sock ws)\<lparr>sk_opts := [(SO_KEEPALIVE, 1)]\<rparr>"
  "cn_writeCompleteCallback (waiting_conn st ws) = Some UserCb"
  by (simp_all add: waiting_conn_def pending_out_def)

lemma waiting_world_simps [simp]:
  "cn_conns (waiting_world st ws) 5 = Some (waiting_conn st ws)"
  "n_chans (waiting_world st ws) 6 = Some waiting_channel"
  "n_loops (waiting_world st ws) (Suc 0) = Some (synced 6 waiting_channel sample_evloop)"
  "n_tid (waiting_world st ws) = 1" "cn_strings (waiting_world st ws) p = None"
  by (simp_all add: waiting_world_def sample_base_def sample_start_def)

lemma waiting_world_inv:
  assumes "st = kConnected \<or> st = kDisconnecting"
  shows "conn_inv (waiting_world st ws)"
  unfolding waiting_world_def
proof (rule conn_inv_setc [OF sample_base_inv])
  have "focused 5 (sample_up ws) waiting_channel (synced 6 waiting_channel sample_evloop) (sample_base ws)"
    using focused_masked [OF sample_world_focus, of 6 ws EnableWriting] by (simp add: waiting_channel_def)
  then show "focused 5 (waiting_conn st ws) waiting_channel (synced 6 waiting_channel sample_evloop) (sample_base ws)"
    by (rule focused_conn [rotated]) (simp add: waiting_conn_def)
  show "conn_local (waiting_conn st ws) waiting_channel"
    using assms sample_local [of ws]
    by (auto simp: conn_local_def waiting_conn_def waiting_channel_def isReading_bits isWriting_bit
        isNoneEvent_bits pending_out_def)
qed

theorem handleWrite_outcome_witness:
  "returns (handleWrite 5 (waiting_world kDisconnecting [WriteRoom 2, WriteErr 4])) (\<lambda>w'. \<exists>cn'.
     cn_conns w' 5 = Some cn' \<and> sk_sent (cn_socket cn') = [1, 2] \<and> pending_out cn' = [3]
     \<and> sk_writes (cn_socket cn') = [WriteErr 4] \<and> \<not> sk_fin (cn_socket cn'))"
proof -
  let ?cn = "waiting_conn kDisconnecting [WriteRoom 2, WriteErr 4]"
  have "written ?cn = 2" "\<not> drained ?cn"
    by (simp_all add: written_def drained_def next_write_def sample_sock_def)
  then show ?thesis
    using handleWrite_outcome [OF waiting_world_inv waiting_world_simps(1) [of kDisconnecting "[WriteRoom 2, WriteErr 4]"],
        where el = "synced 6 waiting_channel sample_evloop"]
    by (auto simp: sample_sock_def elim!: returns_mono)
qed

section \<open>Graceful shutdown\<close>

text \<open>The write events of a connection: \<open>n\<close> calls of \<open>handleWrite\<close>.\<close>

definition write_events :: "nat \<Rightarrow> nat \<Rightarrow> 'a conn_net_scheme \<Rightarrow> 'a conn_net_scheme res" where
  "write_events n c = fold_res (\<lambda>_. handleWrite c) (replicate n ())"

fun write_room :: "write_env list \<Rightarrow> nat" where
  "write_room [] = 0"
| "write_room (WriteRoom k # ws) = k + write_room ws"
| "write_room (WriteErr e # ws) = write_room ws"

lemma drained_iff: "drained cn \<longleftrightarrow> pending_out cn \<noteq> [] \<and> drop (written cn) (pending_out cn) = []"
proof -
  have "written cn \<le> length (pending_out cn)" by (simp add: written_def split: write_env.splits)
  then show ?thesis by (auto simp: drained_def)
qed

definition flushed :: "conn \<Rightarrow> byte list \<Rightarrow> bool" where
  "flushed cn s \<longleftrightarrow> pending_out cn = [] \<and> sk_sent (cn_socket cn) = s \<and> sk_fin (cn_socket cn)"

lemma write_events_flush:
  assumes "conn_inv w" "cn_conns w c = Some cn" "cn_state cn = kDisconnecting"
    and "length (pending_out cn) \<le> write_room (take n (sk_writes (cn_socket cn)))"
    and "pending_out cn \<noteq> [] \<and> \<not> sk_fin (cn_socket cn) \<or> pending_out cn = [] \<and> sk_fin (cn_socket cn)"
  shows "returns (write_events n c w) (\<lambda>w'. conn_inv w' \<and> (\<exists>cn'. cn_conns w' c = Some cn'
     \<and> cn_state cn' = kDisconnecting \<and> flushed cn' (stream cn)))"
  using assms
proof (induction n arbitrary: w cn)
  case 0
  then show ?case by (auto simp: write_events_def flushed_def stream_def)
next
  case (Suc n)
  obtain el where "n_loops w (cn_loop cn) = Some el" using Suc.prems(1,2) by (rule conn_loop_live)
  then obtain w1 cn1 ch1 el1 where 1: "handleWrite c w = Inr w1" "wrote_state c cn el w1 cn1 ch1 el1"
    using handleWrite_reads [OF Suc.prems(1,2)] Suc.prems(3) by (auto simp: returns_iff)
  have stream: "stream cn1 = stream cn" using 1(2) by (simp add: wrote_state_def stream_def)
  have room: "length (pending_out cn1) \<le> write_room (take n (sk_writes (cn_socket cn1)))"
  proof (cases "pending_out cn = []")
    case True
    then show ?thesis using 1(2) by (simp add: wrote_state_def)
  next
    case False
    then have "sk_writes (cn_socket cn) \<noteq> []" "\<not> sk_fin (cn_socket cn)"
      using Suc.prems(4,5) by auto
    then obtain e es where ws: "sk_writes (cn_socket cn) = e # es" "next_write (cn_socket cn) = e"
      by (cases "sk_writes (cn_socket cn)") (auto simp: next_write_def)
    then show ?thesis using False Suc.prems(4) 1(2)
      by (cases e) (auto simp: wrote_state_def written_def)
  qed
  have "pending_out cn1 \<noteq> [] \<and> \<not> sk_fin (cn_socket cn1) \<or> pending_out cn1 = [] \<and> sk_fin (cn_socket cn1)"
    using Suc.prems(3,5) 1(2) by (auto simp: wrote_state_def drained_iff simp del: drop_eq_Nil)
  then have "returns (write_events n c w1) (\<lambda>w'. conn_inv w' \<and> (\<exists>cn'. cn_conns w' c = Some cn'
     \<and> cn_state cn' = kDisconnecting \<and> flushed cn' (stream cn1)))"
    using 1(2) Suc.prems(3) by (intro Suc.IH room) (simp_all add: wrote_state_def)
  then show ?case using 1(1) stream by (simp add: write_events_def)
qed

text \<open>The state right after \<open>shutdown\<close> in the connection's own thread.\<close>

definition closing :: "conn \<Rightarrow> conn" where
  "closing cn = cn\<lparr>cn_state := kDisconnecting,
     cn_socket := (if pending_out cn = [] then shutdownWrite (cn_socket cn) else cn_socket cn)\<rparr>"

lemma tcp_shutdown_here:
  assumes "conn_inv w" "cn_conns w c = Some cn" "cn_state cn = kConnected"
    and "n_loops w (cn_loop cn) = Some el" "threadId el = n_tid w"
  shows "tcp_shutdown c w = Inr (put_conn c (closing cn) w)" "conn_inv (put_conn c (closing cn) w)"
    "\<not> sk_fin (cn_socket cn)"
proof -
  obtain ch el1 where l: "linked c cn ch el1 w" "conn_local cn ch" using assms(1,2) by (rule conn_invE)
  then have ch: "n_chans w (cn_channel cn) = Some ch" "isWriting ch \<longleftrightarrow> pending_out cn \<noteq> []"
    using assms(3) by (simp_all add: linked_def conn_local_def)
  have twice: "put_conn c x (put_conn c y w) = put_conn c x w" for x y by (simp add: put_conn_def)
  have "tcp_shutdown c w = shutdownInLoop c (put_conn c (cn\<lparr>cn_state := kDisconnecting\<rparr>) w)"
    using assms by (simp add: tcp_shutdown_def get_conn_def runInLoop_def isInLoopThread_def)
  also have "\<dots> = Inr (put_conn c (closing cn) w)"
    using ch by (auto simp: shutdownInLoop_def get_conn_def closing_def twice)
  finally show eq: "tcp_shutdown c w = Inr (put_conn c (closing cn) w)" .
  show "conn_inv (put_conn c (closing cn) w)"
    using tcp_shutdown_good [OF assms(1,2), of "{}"] unfolding eq by (auto dest: good_InrD)
  show "\<not> sk_fin (cn_socket cn)" using l(2) assms(3) by (simp add: conn_local_def)
qed

text \<open>
  C7. A graceful shutdown called in the connection's thread: once the kernel has taken as many bytes
  as wait, over any number of partial writes and failures, every waiting byte has been sent, in
  order, and only then the sending side is shut down.
\<close>

theorem shutdown_delivers_everything:
  assumes "conn_inv w" "cn_conns w c = Some cn" "cn_state cn = kConnected"
    and "n_loops w (cn_loop cn) = Some el" "threadId el = n_tid w"
    and "length (pending_out cn) \<le> write_room (take n (sk_writes (cn_socket cn)))"
  shows "returns (bind_res (tcp_shutdown c w) (write_events n c)) (\<lambda>w'. \<exists>cn'.
     cn_conns w' c = Some cn' \<and> cn_state cn' = kDisconnecting \<and> pending_out cn' = []
     \<and> sk_sent (cn_socket cn') = sk_sent (cn_socket cn) @ pending_out cn \<and> sk_fin (cn_socket cn'))"
proof -
  note here = tcp_shutdown_here [OF assms(1-5)]
  have "returns (write_events n c (put_conn c (closing cn) w)) (\<lambda>w'. conn_inv w' \<and> (\<exists>cn'.
     cn_conns w' c = Some cn' \<and> cn_state cn' = kDisconnecting \<and> flushed cn' (stream (closing cn))))"
    by (rule write_events_flush [OF here(2), of c "closing cn"])
      (use assms(6) here(3) in \<open>auto simp: closing_def shutdownWrite_def pending_out_def\<close>)
  moreover have "stream (closing cn) = sk_sent (cn_socket cn) @ pending_out cn"
    by (simp add: closing_def stream_def pending_out_def shutdownWrite_def)
  ultimately show ?thesis unfolding here(1) by (auto simp: flushed_def elim!: returns_mono)
qed

theorem shutdown_delivers_everything_witness:
  "returns (bind_res (tcp_shutdown 5 (waiting_world kConnected [WriteRoom 2, WriteErr 4, WriteRoom 9]))
      (write_events 3 5)) (\<lambda>w'. \<exists>cn'. cn_conns w' 5 = Some cn'
     \<and> sk_sent (cn_socket cn') = [1, 2, 3] \<and> sk_fin (cn_socket cn'))"
  using shutdown_delivers_everything [OF waiting_world_inv waiting_world_simps(1) [of kConnected "[WriteRoom 2, WriteErr 4, WriteRoom 9]"],
      where el = "synced 6 waiting_channel sample_evloop" and n = 3]
  by (auto simp: sample_sock_def elim!: returns_mono)

section \<open>Closing\<close>

text \<open>
  C19. The close of a connection: before any callback runs, the connection is down, its channel
  watches nothing, in the kernel as well, and the invariant holds; then the connection callback
  of the user runs, and after it the close callback of the owner, whatever the two do.
\<close>

theorem handleClose_outcome:
  assumes "conn_inv w" "cn_conns w c = Some cn"
  shows "\<exists>w1 ch1 el1. conn_inv w1 \<and> cn_conns w1 c = Some (cn\<lparr>cn_state := kDisconnected\<rparr>)
     \<and> n_chans w1 (cn_channel cn) = Some ch1 \<and> isNoneEvent ch1
     \<and> n_loops w1 (cn_loop cn) = Some el1 \<and> watched (el_poller el1) (cn_channel cn) ch1 = 0
     \<and> handleClose app close c w = bind_res (connectionCallback app c w1) (closeCallback_call close c)"
proof -
  obtain ch el where l: "linked c cn ch el w" "conn_local cn ch" "focused c cn ch el w" "setc c cn ch el w = w"
    using assms by (rule conn_invE)
  let ?cn = "cn\<lparr>cn_state := kDisconnected\<rparr>" and ?ch = "masked DisableAll ch"
  let ?el = "synced (cn_channel cn) ?ch el"
  let ?w = "setc c ?cn ?ch ?el w"
  have f: "focused c ?cn ch el w" using focused_conn [OF _ l(3), of ?cn] by simp
  have p: "put_conn c ?cn w = setc c ?cn ch el w"
    using setc_put_conn [of ?cn cn c ch el w] l(4) by simp
  have step: "change_mask DisableAll (cn_channel cn) (put_conn c ?cn w) = Inr ?w"
    unfolding p by (simp add: setc_change_mask [OF f])
  have "conn_inv ?w" using close_state_good [OF assms, of "{}"] unfolding step by (auto dest: good_InrD)
  moreover have "isNoneEvent ?ch" by (simp add: isNoneEvent_bits)
  moreover from this have "ch_events ?ch = 0" by (simp add: isNoneEvent_def kNoneEvent_def)
  then have "watched (el_poller ?el) (cn_channel cn) ?ch = 0"
    by (simp add: watched_def sync_def sync_kernel_def)
  moreover have "handleClose app close c w = bind_res (connectionCallback app c ?w) (closeCallback_call close c)"
    using assms(2) step by (simp add: handleClose_def get_conn_def)
  ultimately show ?thesis
    by (intro exI [of _ ?w] exI [of _ ?ch] exI [of _ ?el]) simp
qed

theorem handleClose_outcome_witness:
  "\<exists>w1. cn_conns w1 5 = Some ((waiting_conn kConnected [])\<lparr>cn_state := kDisconnected\<rparr>)
     \<and> handleClose quiet (\<lambda>t c w. Inr w) 5 (waiting_world kConnected [])
       = bind_res (connectionCallback quiet 5 w1) (closeCallback_call (\<lambda>t c w. Inr w) 5)"
proof -
  have "conn_inv (waiting_world kConnected [])" by (rule waiting_world_inv) simp
  from handleClose_outcome [OF this waiting_world_simps(1), of quiet "\<lambda>t c w. Inr w"] show ?thesis by blast
qed

section \<open>Calls from other threads\<close>

text \<open>
  C35. \<open>send\<close> from another thread queues a functor with the pointer into the caller's string, not its
  bytes. If the caller frees the string before the loop runs the functor, the functor reads freed
  memory; if the memory is used again for another string of at least that length, that one's bytes
  are sent.
\<close>

theorem cross_thread_send_dangles:
  assumes "cn_conns w c = Some cn" "cn_state cn = kConnected" "cn_strings w p = Some s"
    and "n_loops w (cn_loop cn) = Some el" "threadId el \<noteq> n_tid w"
    and "length s \<le> length s'" "length s' < 2 ^ 64"
  shows "\<exists>w1 el1. tcp_send c p w = Inr w1 \<and> n_loops w1 (cn_loop cn) = Some el1
     \<and> pendingFunctors el1 = pendingFunctors el @ [FSendInLoop c p (of_nat (length s))] \<and> 0 < wakeups el1
     \<and> bind_res (run_api (FreeString p) w1) (run_conn_functor app close other (FSendInLoop c p (of_nat (length s))))
         = Inl UseAfterFree
     \<and> bind_res (fold_res run_api [FreeString p, NewString p s'] w1)
           (run_conn_functor app close other (FSendInLoop c p (of_nat (length s))))
         = bind_res (fold_res run_api [FreeString p, NewString p s'] w1) (sendInLoop c (take (length s) s'))"
proof -
  let ?f = "FSendInLoop c p (of_nat (length s))"
  let ?w = "put_loop (cn_loop cn) (queued (n_tid w) ?f el) w"
  have n: "unat (of_nat (length s) :: size_t) = length s" using assms(6,7) by (simp add: unat_of_nat_size)
  have "tcp_send c p w = Inr ?w"
    using assms(1-5) by (simp add: tcp_send_def get_conn_def isInLoopThread_def queueInLoop_eq)
  moreover have "0 < wakeups (queued (n_tid w) ?f el)"
    using assms(5) by (intro queued_wakes) (simp add: needs_wakeup_def)
  ultimately show ?thesis
    using assms(6,7) n
    by (intro exI [of _ ?w] exI [of _ "queued (n_tid w) ?f el"])
      (simp add: run_conn_functor_def send_functor_def)
qed

text \<open>The sample seen from thread 2, which owns a string.\<close>

definition other_thread :: conn_net where
  "other_thread = (sample_world [WriteRoom 9])
     \<lparr>cn_strings := (cn_strings (sample_world [WriteRoom 9]))(9 \<mapsto> [1, 2])\<rparr>\<lparr>n_tid := 2\<rparr>"

lemma other_thread_simps [simp]:
  "cn_conns other_thread 5 = Some (sample_up [WriteRoom 9])"
  "n_loops other_thread (Suc 0) = Some sample_evloop" "n_tid other_thread = 2"
  "cn_strings other_thread 9 = Some [1, 2]"
  by (simp_all add: other_thread_def)

theorem cross_thread_send_dangles_witness:
  "\<exists>w1. tcp_send 5 9 other_thread = Inr w1
     \<and> bind_res (run_api (FreeString 9) w1)
         (run_conn_functor quiet (\<lambda>t c w. Inr w) (\<lambda>f w. Inr w) (FSendInLoop 5 9 2)) = Inl UseAfterFree"
  using cross_thread_send_dangles [of other_thread 5 "sample_up [WriteRoom 9]" 9 "[1, 2]" sample_evloop
      "[1, 2]" quiet "\<lambda>t c w. Inr w" "\<lambda>f w. Inr w"]
  by auto

lemma conn_inv_tid: "conn_inv w \<Longrightarrow> conn_inv (w\<lparr>n_tid := t\<rparr>)"
proof -
  assume inv: "conn_inv w"
  have "net_inv (w\<lparr>n_tid := t\<rparr>) = net_inv w" by (rule net_inv_cong) simp_all
  moreover have "linked c cn ch el (w\<lparr>n_tid := t\<rparr>) = linked c cn ch el w" for c cn ch el
    by (simp add: linked_def)
  ultimately show ?thesis using inv unfolding conn_inv_def by simp
qed

lemma sendInLoop_after_fin:
  assumes "conn_inv w" "cn_conns w c = Some cn" "cn_state cn = kDisconnecting"
    and "sk_fin (cn_socket cn)" "pending_out cn = []" "length data < 2 ^ 64"
  shows "returns (sendInLoop c data w) (\<lambda>w'. \<exists>cn'. cn_conns w' c = Some cn'
     \<and> sk_fin (cn_socket cn') \<and> stream cn' = stream cn)"
proof -
  obtain ch el where l: "conn_local cn ch" "focused c cn ch el w" "setc c cn ch el w = w"
    using assms(1,2) by (rule conn_invE)
  have r: "refused cn" using assms(4,5) by (simp add: refused_def next_write_def)
  then have "kept cn data = []" by (simp add: kept_def)
  with sendInLoop_at [OF l(2,1) _ assms(6), of "{}"] assms(3)
  have "returns (sendInLoop c data w) (leads c (sent c cn ch el data) w)" unfolding l(3) by simp
  then show ?thesis
  proof (rule returns_mono)
    fix w'
    assume "leads c (sent c cn ch el data) w w'"
    then obtain cn' ch' el' where w': "w' = setc c cn' ch' el' w" and s: "sent c cn ch el data cn' ch' el'"
      by (rule leadsE)
    have "sk_fin (cn_socket cn')" using s assms(4) by (simp add: sent_def io_only_def)
    with w' sent_stream [OF s] r
    show "\<exists>cn'. cn_conns w' c = Some cn' \<and> sk_fin (cn_socket cn') \<and> stream cn' = stream cn" by simp
  qed
qed

text \<open>
  C36. A shutdown in the connection's own thread overtakes a \<open>send\<close> that another thread made before it
  and that still waits in the queue: the sending side is shut down at once, and the functor of the
  earlier send then finds it shut and drops its bytes, without an error to the caller.
\<close>

theorem shutdown_overtakes_queued_send:
  assumes "conn_inv w" "cn_conns w c = Some cn" "cn_state cn = kConnected" "pending_out cn = []"
    and "n_loops w (cn_loop cn) = Some el" "threadId el \<noteq> n_tid w" "cn_strings w p = Some s"
  shows "returns (bind_res (tcp_send c p w) (\<lambda>w1. bind_res (tcp_shutdown c (w1\<lparr>n_tid := threadId el\<rparr>))
       (run_conn_functor app close other (FSendInLoop c p (of_nat (length s))))))
     (\<lambda>w'. \<exists>cn'. cn_conns w' c = Some cn' \<and> sk_fin (cn_socket cn') \<and> stream cn' = stream cn)"
proof -
  let ?f = "FSendInLoop c p (of_nat (length s))"
  let ?el = "queued (n_tid w) ?f el"
  let ?w1 = "put_loop (cn_loop cn) ?el w"
  let ?w2 = "?w1\<lparr>n_tid := threadId el\<rparr>"
  have len: "length s < 2 ^ 64" using conn_inv_strings [OF assms(1,7)] .
  have send: "tcp_send c p w = Inr ?w1"
    using assms by (simp add: tcp_send_def get_conn_def isInLoopThread_def queueInLoop_eq)
  have "conn_inv ?w1" using assms(1,5) by (rule conn_inv_put_loop) simp
  then have inv: "conn_inv ?w2" by (rule conn_inv_tid)
  note here = tcp_shutdown_here [OF inv, of c cn ?el]
  have down: "tcp_shutdown c ?w2 = Inr (put_conn c (closing cn) ?w2)" "conn_inv (put_conn c (closing cn) ?w2)"
    using assms(2,3) by (intro here; simp)+
  have "returns (sendInLoop c s (put_conn c (closing cn) ?w2)) (\<lambda>w'. \<exists>cn'. cn_conns w' c = Some cn'
     \<and> sk_fin (cn_socket cn') \<and> stream cn' = stream (closing cn))"
    by (rule sendInLoop_after_fin [OF down(2)]) (use assms(4) len in \<open>simp_all add: closing_def shutdownWrite_def pending_out_def\<close>)
  moreover have "stream (closing cn) = stream cn"
    by (simp add: closing_def stream_def pending_out_def shutdownWrite_def)
  ultimately show ?thesis
    using assms(7) len by (simp add: send down(1) run_conn_functor_def send_functor_def unat_of_nat_size)
qed

lemma other_thread_inv: "conn_inv other_thread"
  unfolding other_thread_def
  by (rule conn_inv_tid, rule conn_inv_strings_upd [OF sample_world_inv]) simp

theorem shutdown_overtakes_queued_send_witness:
  "returns (bind_res (tcp_send 5 9 other_thread) (\<lambda>w1. bind_res (tcp_shutdown 5 (w1\<lparr>n_tid := 1\<rparr>))
       (run_conn_functor quiet (\<lambda>t c w. Inr w) (\<lambda>f w. Inr w) (FSendInLoop 5 9 2))))
     (\<lambda>w'. \<exists>cn'. cn_conns w' 5 = Some cn' \<and> sk_fin (cn_socket cn') \<and> stream cn' = [])"
  using shutdown_overtakes_queued_send [OF other_thread_inv other_thread_simps(1), of sample_evloop 9
      "[1, 2]" quiet "\<lambda>t c w. Inr w" "\<lambda>f w. Inr w"]
  by (simp add: stream_def sample_sock_def)

end
