(* ===== verification/EventLoopThreadPool.thy ===== *)
theory EventLoopThreadPool
  imports TcpConnection
begin

text \<open>
  EventLoopThreadPool.h and EventLoopThreadPool.cc, with the part of EventLoopThread and Thread
  that a started pool rests on: \<open>startLoop\<close> returns when the new thread has constructed its loop
  and run the thread-init callback (the hand-over itself is in the theory EventLoopThread).
\<close>

section \<open>The class\<close>

record pool =
  baseLoop :: nat
  pool_name :: string
  pool_started :: bool
  numThreads :: int
  next_loop :: nat
  pool_threads :: "string list"
  pool_loops :: "nat list"

definition mk_pool :: "nat \<Rightarrow> string \<Rightarrow> pool" where
  "mk_pool loop nm = \<lparr>baseLoop = loop, pool_name = nm, pool_started = False, numThreads = 0,
     next_loop = 0, pool_threads = [], pool_loops = []\<rparr>"

definition setThreadNum :: "int \<Rightarrow> pool \<Rightarrow> pool" where
  "setThreadNum n p = p\<lparr>numThreads := n\<rparr>"

text \<open>
  What the system and the allocator give a new thread: its id, the addresses of its loop and its
  wakeup channel, the eventfd, whether MUDUO_USE_POLL is set, and the kernel's refusals.
\<close>

record thread_env =
  te_tid :: nat
  te_loop :: nat
  te_chan :: nat
  te_fd :: int
  te_use_poll :: bool
  te_epollfd :: int
  te_refuse :: "ctl_op \<Rightarrow> int \<Rightarrow> bool"

definition in_thread :: "nat \<Rightarrow> ('a net_scheme \<Rightarrow> 'a net_scheme res) \<Rightarrow> 'a net_scheme \<Rightarrow> 'a net_scheme res" where
  "in_thread t f w = bind_res (f (w\<lparr>n_tid := t\<rparr>)) (\<lambda>w'. Inr (w'\<lparr>n_tid := n_tid w\<rparr>))"

text \<open>The thread's function up to \<open>loop()\<close>: the loop on its stack, then the callback.\<close>

definition threadInit :: "(app_event \<Rightarrow> 'a conn_net_scheme \<Rightarrow> api list) \<Rightarrow> user_cb option \<Rightarrow> nat \<Rightarrow>
    'a conn_net_scheme \<Rightarrow> 'a conn_net_scheme res" where
  "threadInit app cb l w = (if cb = None then Inr w else call_app app (OnThreadInit l) w)"

definition startLoop :: "(app_event \<Rightarrow> 'a conn_net_scheme \<Rightarrow> api list) \<Rightarrow> user_cb option \<Rightarrow> thread_env \<Rightarrow>
    'a conn_net_scheme \<Rightarrow> 'a conn_net_scheme res" where
  "startLoop app cb te w = in_thread (te_tid te)
     (\<lambda>w. bind_res (new_loop (te_use_poll te) (te_epollfd te) (te_refuse te) (te_loop te) (te_chan te) (te_fd te) w)
            (threadInit app cb (te_loop te))) w"

definition pool_start :: "(app_event \<Rightarrow> 'a conn_net_scheme \<Rightarrow> api list) \<Rightarrow> user_cb option \<Rightarrow>
    (nat \<Rightarrow> thread_env) \<Rightarrow> pool \<times> 'a conn_net_scheme \<Rightarrow> (pool \<times> 'a conn_net_scheme) res" where
  "pool_start app cb env = (\<lambda>(p, w).
     bind_res (fold_res (\<lambda>i (p, w).
         let t = snprintf (length (pool_name p) + 32) (pool_name p @ decimal i);
             p = p\<lparr>pool_threads := pool_threads p @ [t]\<rparr> in
         bind_res (startLoop app cb (env i) w)
           (\<lambda>w. Inr (p\<lparr>pool_loops := pool_loops p @ [te_loop (env i)]\<rparr>, w)))
       [0..<nat (numThreads p)] (p\<lparr>pool_started := True\<rparr>, w))
     (\<lambda>(p, w). if numThreads p = 0
       then bind_res (threadInit app cb (baseLoop p) w) (\<lambda>w. Inr (p, w)) else Inr (p, w)))"

text \<open>\<open>loops_[next_]\<close> is an access to a \<open>std::vector\<close>.\<close>

definition getNextLoop :: "pool \<Rightarrow> (nat \<times> pool) res" where
  "getNextLoop p =
     (if pool_loops p = [] then Inr (baseLoop p, p)
      else if next_loop p < length (pool_loops p)
      then let loop = pool_loops p ! next_loop p; nxt = next_loop p + 1 in
        Inr (loop, p\<lparr>next_loop := if nxt \<ge> length (pool_loops p) then 0 else nxt\<rparr>)
      else Inl OutOfRange)"

definition getAllLoops :: "pool \<Rightarrow> nat list" where
  "getAllLoops p = (if pool_loops p = [] then [baseLoop p] else pool_loops p)"

section \<open>Round robin\<close>

definition pool_inv :: "pool \<Rightarrow> bool" where
  "pool_inv p \<longleftrightarrow> (pool_loops p = [] \<or> next_loop p < length (pool_loops p))"

lemma pool_inv_mk_pool [simp]: "pool_inv (mk_pool l s)"
  by (simp add: pool_inv_def mk_pool_def)

text \<open>The loops of \<open>n\<close> calls of \<open>getNextLoop\<close>.\<close>

fun next_loops :: "nat \<Rightarrow> pool \<Rightarrow> (nat list \<times> pool) res" where
  "next_loops 0 p = Inr ([], p)"
| "next_loops (Suc n) p = bind_res (getNextLoop p) (\<lambda>(l, p).
     bind_res (next_loops n p) (\<lambda>(ls, p). Inr (l # ls, p)))"

definition turn :: "pool \<Rightarrow> nat" where
  "turn p = (if pool_loops p = [] then 0 else next_loop p)"

lemma getNextLoop_ok:
  assumes "pool_inv p"
  shows "getNextLoop p = Inr (getAllLoops p ! turn p,
     p\<lparr>next_loop := if pool_loops p = [] then next_loop p else (next_loop p + 1) mod length (pool_loops p)\<rparr>)"
proof (cases "pool_loops p = []")
  case True
  then show ?thesis by (simp add: getNextLoop_def getAllLoops_def turn_def)
next
  case False
  with assms have lt: "next_loop p < length (pool_loops p)" by (simp add: pool_inv_def)
  then have "(if length (pool_loops p) \<le> Suc (next_loop p) then 0 else Suc (next_loop p))
      = Suc (next_loop p) mod length (pool_loops p)"
    by (cases "Suc (next_loop p) = length (pool_loops p)") simp_all
  with False lt show ?thesis by (simp add: getNextLoop_def getAllLoops_def turn_def Let_def)
qed

lemma next_loops_ok:
  assumes "pool_inv p"
  shows "returns (next_loops n p) (\<lambda>(ls, p'). pool_inv p' \<and> getAllLoops p' = getAllLoops p
     \<and> ls = map (\<lambda>i. getAllLoops p ! ((turn p + i) mod length (getAllLoops p))) [0..<n])"
  using assms
proof (induction n arbitrary: p)
  case 0
  then show ?case by simp
next
  case (Suc n)
  let ?p = "p\<lparr>next_loop := if pool_loops p = [] then next_loop p else (next_loop p + 1) mod length (pool_loops p)\<rparr>"
  have inv: "pool_inv ?p" using Suc.prems by (auto simp: pool_inv_def)
  have all: "getAllLoops ?p = getAllLoops p" by (simp add: getAllLoops_def)
  have lt: "turn p < length (getAllLoops p)"
    using Suc.prems by (auto simp: turn_def getAllLoops_def pool_inv_def)
  have "turn ?p = (turn p + 1) mod length (getAllLoops p)" by (simp add: turn_def getAllLoops_def)
  then have "(turn ?p + i) mod length (getAllLoops p) = (turn p + Suc i) mod length (getAllLoops p)" for i
    by (simp add: mod_add_left_eq)
  then have "map (\<lambda>i. getAllLoops p ! ((turn p + i) mod length (getAllLoops p))) [0..<Suc n]
      = getAllLoops p ! turn p # map (\<lambda>i. getAllLoops p ! ((turn ?p + i) mod length (getAllLoops p))) [0..<n]"
    using lt by (simp add: upt_conv_Cons map_Suc_upt [symmetric] del: upt_Suc)
  with Suc.IH [OF inv] show ?case
    unfolding next_loops.simps getNextLoop_ok [OF Suc.prems] all
    by (auto simp: returns_iff)
qed

text \<open>
  C23. \<open>getNextLoop\<close> hands out the loops in turn: from any state of a pool, the \<open>n\<close>-th of a row of
  calls gives the loop \<open>n\<close> places after the next one, counted round the list; a pool without
  threads always gives the base loop. No call reads outside the vector.
\<close>

theorem getNextLoop_round_robin:
  assumes "pool_inv p"
  shows "returns (next_loops n p) (\<lambda>(ls, p'). pool_inv p' \<and> getAllLoops p' = getAllLoops p
     \<and> ls = map (\<lambda>i. getAllLoops p ! ((turn p + i) mod length (getAllLoops p))) [0..<n])"
  by (rule next_loops_ok [OF assms])

theorem getNextLoop_round_robin_witness:
  "returns (next_loops 5 ((mk_pool 1 ''p'')\<lparr>pool_loops := [11, 12, 13], next_loop := 1\<rparr>))
     (\<lambda>(ls, p'). ls = [12, 13, 11, 12, 13])"
proof -
  let ?p = "(mk_pool 1 ''p'')\<lparr>pool_loops := [11, 12, 13], next_loop := 1\<rparr>"
  have "pool_inv ?p" by (simp add: pool_inv_def)
  moreover have "map (\<lambda>i. getAllLoops ?p ! ((turn ?p + i) mod length (getAllLoops ?p))) [0..<5] = [12, 13, 11, 12, 13]"
    by (simp add: upt_conv_Cons getAllLoops_def turn_def)
  ultimately show ?thesis using getNextLoop_round_robin [of ?p 5] by (auto elim!: returns_mono)
qed

end
