(* ===== verification/TcpServer.thy ===== *)
theory TcpServer
  imports EventLoopThreadPool
begin

text \<open>
  Acceptor.h, Acceptor.cc, TcpServer.h, TcpServer.cc and the listening part of Socket.cc: the
  server accepts connections in its loop, gives each to a loop of its pool, keeps them in a map by
  name, and removes them in two steps, first from the map in its own loop, then from the poller in
  the loop of the connection.
\<close>

section \<open>State\<close>

record acceptor =
  acceptSocket :: int
  acceptOptions :: "(sockopt \<times> int) list"
  acceptChannel :: nat
  newConnectionCallback :: bool
  listenning :: bool

text \<open>
  One answer of \<open>accept4\<close>: an errno, or a socket with the behaviour of its peer, the peer's
  address, the local address as \<open>getsockname\<close> gives it (zeros when it fails), and the places of
  the two objects the server then allocates for it.
\<close>

datatype accept_env = AcceptErr int
  | Accepted (acc_sock: sock) (acc_peer: sockaddr_in) (acc_local: sockaddr_in) (acc_conn: nat) (acc_chan: nat)

text \<open>
  \<open>server_id\<close> are the members that the constructor fixes, \<open>server\<close> the ones that change.
  \<open>connections_\<close> maps names to connections.
\<close>

record server_id =
  sv_loop :: nat
  sv_ipPort :: string
  sv_name :: string

record server =
  sv_acceptor :: acceptor
  sv_pool :: pool
  sv_connectionCallback :: "user_cb option"
  sv_messageCallback :: "user_cb option"
  sv_writeCompleteCallback :: "user_cb option"
  sv_threadInitCallback :: "user_cb option"
  sv_started :: int
  sv_nextConnId :: int
  sv_connections :: "string \<Rightarrow> nat option"

record server_net = conn_net +
  sv :: server
  sv_accepts :: "accept_env list"

definition upd_server :: "(server \<Rightarrow> server) \<Rightarrow> 'a server_net_scheme \<Rightarrow> 'a server_net_scheme" where
  "upd_server f w = w\<lparr>sv := f (sv w)\<rparr>"

section \<open>Acceptor\<close>

text \<open>The answer of the next \<open>accept\<close>.\<close>

definition next_accept :: "'a server_net_scheme \<Rightarrow> accept_env" where
  "next_accept w = (case sv_accepts w of [] \<Rightarrow> AcceptErr EWOULDBLOCK | e # _ \<Rightarrow> e)"

text \<open>
  The constructor with the socket \<open>fd\<close> (negative: \<open>socket\<close> failed), \<open>bound\<close> the success of
  \<open>bind\<close>, and the channel at \<open>d\<close>.
\<close>

definition new_acceptor :: "nat \<Rightarrow> int \<Rightarrow> bool \<Rightarrow> nat \<Rightarrow> 'a net_scheme \<Rightarrow> (acceptor \<times> 'a net_scheme) res" where
  "new_acceptor l fd bound d w =
     (if fd < 0 then Inl (LogFatal ''listen socket create err'')
      else if n_chans w d \<noteq> None then Inl BadAlloc
      else bind_res (bindAddress bound w) (\<lambda>w.
        Inr (\<lparr>acceptSocket = fd, acceptOptions = setReusePort True (setReuseAddr True []), acceptChannel = d, newConnectionCallback = False, listenning = False\<rparr>,
          put_chan d (setReadCallback AcceptorHandleRead (mk_channel l fd)) w)))"

definition destroy_acceptor :: "acceptor \<Rightarrow> 'a net_scheme \<Rightarrow> 'a net_scheme res" where
  "destroy_acceptor a w =
     bind_res (change_mask DisableAll (acceptChannel a) w) (\<lambda>w.
     bind_res (chan_remove (acceptChannel a) w) (\<lambda>w.
       Inr (w\<lparr>n_chans := (n_chans w)(acceptChannel a := None)\<rparr>)))"

text \<open>\<open>listen\<close>: \<open>ok\<close> is the success of the system call.\<close>

definition acceptor_listen :: "bool \<Rightarrow> 'a server_net_scheme \<Rightarrow> 'a server_net_scheme res" where
  "acceptor_listen ok w =
     (let w = upd_server (\<lambda>s. s\<lparr>sv_acceptor := (sv_acceptor s)\<lparr>listenning := True\<rparr>\<rparr>) w in
      bind_res (socket_listen ok w) (\<lambda>w. change_mask EnableReading (acceptChannel (sv_acceptor (sv w))) w))"

text \<open>\<open>handleRead\<close>; \<open>callback\<close> is what calling \<open>newConnectionCallback_\<close> does.\<close>

definition acceptor_handleRead ::
    "(sock \<Rightarrow> sockaddr_in \<Rightarrow> sockaddr_in \<Rightarrow> nat \<Rightarrow> nat \<Rightarrow> 'a server_net_scheme \<Rightarrow> 'a server_net_scheme res) \<Rightarrow>
     'a server_net_scheme \<Rightarrow> 'a server_net_scheme res" where
  "acceptor_handleRead callback w =
     (let a = next_accept w; w = w\<lparr>sv_accepts := tl (sv_accepts w)\<rparr> in
      case a of
        AcceptErr e \<Rightarrow> Inr w
      | Accepted sk peer local c d \<Rightarrow>
          if newConnectionCallback (sv_acceptor (sv w)) then callback sk peer local c d w
          else Inr w)"

section \<open>The server\<close>

definition new_server :: "nat \<Rightarrow> sockaddr_in \<Rightarrow> string \<Rightarrow> int \<Rightarrow> bool \<Rightarrow> nat \<Rightarrow> 'a conn_net_scheme \<Rightarrow>
    (server_id \<times> server \<times> 'a conn_net_scheme) res" where
  "new_server l listenAddr nameArg fd bound d w =
     bind_res (new_acceptor l fd bound d w) (\<lambda>(a, w).
       Inr (\<lparr>sv_loop = l, sv_ipPort = toIpPort listenAddr, sv_name = nameArg\<rparr>,
            \<lparr>sv_acceptor = a\<lparr>newConnectionCallback := True\<rparr>, sv_pool = mk_pool l nameArg,
             sv_connectionCallback = None, sv_messageCallback = None,
             sv_writeCompleteCallback = None, sv_threadInitCallback = None,
             sv_started = 0, sv_nextConnId = 1, sv_connections = Map.empty\<rparr>, w))"

text \<open>The setters, before the server is started.\<close>

definition setThreadInitcallback :: "user_cb option \<Rightarrow> server \<Rightarrow> server" where
  "setThreadInitcallback cb s = s\<lparr>sv_threadInitCallback := cb\<rparr>"

definition setConnectionCallback :: "user_cb option \<Rightarrow> server \<Rightarrow> server" where
  "setConnectionCallback cb s = s\<lparr>sv_connectionCallback := cb\<rparr>"

definition setMessageCallback :: "user_cb option \<Rightarrow> server \<Rightarrow> server" where
  "setMessageCallback cb s = s\<lparr>sv_messageCallback := cb\<rparr>"

definition setWriteCompleteCallback :: "user_cb option \<Rightarrow> server \<Rightarrow> server" where
  "setWriteCompleteCallback cb s = s\<lparr>sv_writeCompleteCallback := cb\<rparr>"

definition server_setThreadNum :: "int \<Rightarrow> server \<Rightarrow> server" where
  "server_setThreadNum n s = s\<lparr>sv_pool := setThreadNum n (sv_pool s)\<rparr>"

text \<open>\<open>start\<close>: \<open>env\<close> are the threads of the pool, \<open>ok\<close> the success of \<open>listen\<close>.\<close>

definition server_start :: "(app_event \<Rightarrow> 'a server_net_scheme \<Rightarrow> api list) \<Rightarrow> server_id \<Rightarrow>
    (nat \<Rightarrow> thread_env) \<Rightarrow> bool \<Rightarrow> 'a server_net_scheme \<Rightarrow> 'a server_net_scheme res" where
  "server_start app sid env ok w =
     (let started = sv_started (sv w); w = upd_server (\<lambda>s. s\<lparr>sv_started := started + 1\<rparr>) w in
      if started = 0
      then bind_res (pool_start app (sv_threadInitCallback (sv w)) env (sv_pool (sv w), w)) (\<lambda>(p, w).
        runInLoop (sv_loop sid) FListen (acceptor_listen ok) (upd_server (\<lambda>s. s\<lparr>sv_pool := p\<rparr>) w))
      else Inr w)"

definition connName :: "server_id \<Rightarrow> int \<Rightarrow> string" where
  "connName sid i = sv_name sid @ snprintf 64 (''-'' @ sv_ipPort sid @ ''#'' @ decimal_int i)"

text \<open>The callbacks that the server sets on a new connection.\<close>

definition configured :: "server \<Rightarrow> conn \<Rightarrow> conn" where
  "configured s cn = conn_setCloseCallback ServerRemove
     (conn_setWriteCompleteCallback (sv_writeCompleteCallback s)
     (conn_setMessageCallback (sv_messageCallback s)
     (conn_setConnectionCallback (sv_connectionCallback s) cn)))"

text \<open>\<open>++nextConnId_\<close> past the range of \<open>int\<close> is undefined behaviour.\<close>

definition newConnection :: "(app_event \<Rightarrow> 'a server_net_scheme \<Rightarrow> api list) \<Rightarrow> server_id \<Rightarrow> sock \<Rightarrow>
    sockaddr_in \<Rightarrow> sockaddr_in \<Rightarrow> nat \<Rightarrow> nat \<Rightarrow> 'a server_net_scheme \<Rightarrow> 'a server_net_scheme res" where
  "newConnection app sid sk peer local c d w =
     bind_res (getNextLoop (sv_pool (sv w))) (\<lambda>(ioLoop, p).
       let i = sv_nextConnId (sv w); nm = connName sid i in
       if i = 2 ^ 31 - 1 then Inl SignedOverflow
       else
         let w = upd_server (\<lambda>s. s\<lparr>sv_pool := p, sv_nextConnId := i + 1\<rparr>) w in
         bind_res (new_conn c d ioLoop nm sk local peer w) (\<lambda>w.
         bind_res (upd_conn c (configured (sv w))
             (upd_server (\<lambda>s. s\<lparr>sv_connections := (sv_connections s)(nm \<mapsto> c)\<rparr>) w))
           (runInLoop ioLoop (FConnectEstablished c) (connectEstablished app c))))"

definition removeConnectionInLoop :: "nat \<Rightarrow> 'a server_net_scheme \<Rightarrow> 'a server_net_scheme res" where
  "removeConnectionInLoop c w =
     bind_res (get_conn c w) (\<lambda>cn.
       queueInLoop (cn_loop cn) (FConnectDestroyed c)
         (upd_server (\<lambda>s. s\<lparr>sv_connections := (sv_connections s)(cn_name cn := None)\<rparr>) w))"

definition removeConnection :: "server_id \<Rightarrow> nat \<Rightarrow> 'a server_net_scheme \<Rightarrow> 'a server_net_scheme res" where
  "removeConnection sid c w =
     runInLoop (sv_loop sid) (FRemoveConnectionInLoop c) (removeConnectionInLoop c) w"

text \<open>
  The body of the destructor; \<open>order\<close> lists the entries of the map in the order in which the
  hash table has them.
\<close>

definition destroy_server :: "(app_event \<Rightarrow> 'a server_net_scheme \<Rightarrow> api list) \<Rightarrow> string list \<Rightarrow>
    'a server_net_scheme \<Rightarrow> 'a server_net_scheme res" where
  "destroy_server app order w =
     fold_res (\<lambda>nm w. bind_res (deref NullPointer (sv_connections (sv w) nm)) (\<lambda>c.
        let w = upd_server (\<lambda>s. s\<lparr>sv_connections := (sv_connections s)(nm := None)\<rparr>) w in
        bind_res (get_conn c w) (\<lambda>cn.
          runInLoop (cn_loop cn) (FConnectDestroyed c) (connectDestroyed app c) w)))
       order w"

section \<open>Handlers and functors of a server\<close>

text \<open>
  The close callback of a server's connections; no other target is bound in a server. The same
  holds of the handlers of timers and connectors and their functors.
\<close>

definition server_close :: "server_id \<Rightarrow> close_target \<Rightarrow> nat \<Rightarrow> 'a server_net_scheme \<Rightarrow>
    'a server_net_scheme res" where
  "server_close sid t c w = (if t = ServerRemove then removeConnection sid c w else Inr w)"

definition run_server_handler :: "(app_event \<Rightarrow> 'a server_net_scheme \<Rightarrow> api list) \<Rightarrow> server_id \<Rightarrow>
    timestamp \<Rightarrow> handler \<Rightarrow> 'a server_net_scheme \<Rightarrow> 'a server_net_scheme res" where
  "run_server_handler app sid = run_conn_handler app (server_close sid) (\<lambda>h w. case h of
       AcceptorHandleRead \<Rightarrow> acceptor_handleRead (newConnection app sid) w
     | _ \<Rightarrow> Inr w)"

definition run_server_functor :: "(app_event \<Rightarrow> 'a server_net_scheme \<Rightarrow> api list) \<Rightarrow> server_id \<Rightarrow> bool \<Rightarrow>
    Functor \<Rightarrow> 'a server_net_scheme \<Rightarrow> 'a server_net_scheme res" where
  "run_server_functor app sid ok = run_conn_functor app (server_close sid) (\<lambda>f w. case f of
       FRemoveConnectionInLoop c \<Rightarrow> removeConnectionInLoop c w
     | FListen \<Rightarrow> acceptor_listen ok w
     | FUser n \<Rightarrow> call_app app (OnUser n) w
     | _ \<Rightarrow> Inr w)"

end
