(* ===== verification/Server.thy ===== *)
theory Server
  imports TcpServer Connection_Properties
begin

text \<open>
  The contracts of the library's interfaces, discharged on the server: its close callback and its
  application form a \<open>connection_world\<close>, its functors are run by the loop (\<open>functor_runner\<close>) and
  its handlers called by the channels (\<open>handler_runner\<close>). Then what the server does with a new and
  with a closed connection.
\<close>

section \<open>Operations of the server and the connections\<close>

lemma conn_inv_cong:
  assumes "n_loops w' = n_loops w" "n_chans w' = n_chans w" "cn_conns w' = cn_conns w"
    "cn_strings w' = cn_strings w"
  shows "conn_inv w' = conn_inv w"
proof -
  have "linked c cn ch el w' = linked c cn ch el w" for c cn ch el using assms by (simp add: linked_def)
  then show ?thesis using assms net_inv_cong [OF assms(1,2)] unfolding conn_inv_def by simp
qed

lemma upd_server_simps [simp]:
  "n_loops (upd_server f w) = n_loops w" "n_chans (upd_server f w) = n_chans w"
  "n_tid (upd_server f w) = n_tid w" "cn_conns (upd_server f w) = cn_conns w"
  "cn_strings (upd_server f w) = cn_strings w" "cn_trace (upd_server f w) = cn_trace w"
  "sv (upd_server f w) = f (sv w)" "sv_accepts (upd_server f w) = sv_accepts w"
  by (simp_all add: upd_server_def)

lemma evolves_upd_server: "evolves w (upd_server f w)"
  by (rule evolves_net) simp_all

lemma good_upd_server:
  assumes "conn_inv w" "conn_inv (upd_server f w) \<Longrightarrow> good E (upd_server f w) r"
  shows "good E w r"
proof -
  have "conn_inv (upd_server f w)" using assms(1) conn_inv_cong [of "upd_server f w" w] by simp
  then have "good E (upd_server f w) r" by (rule assms(2))
  then show ?thesis by (rule good_from) (simp_all add: conns_advance_def evolves_upd_server)
qed

lemma removeConnectionInLoop_evolves [evolving]: "safely (removeConnectionInLoop c w) (evolves w)"
  unfolding removeConnectionInLoop_def
  by (intro evolves_get_conn evolves_from [OF evolves_upd_server queueInLoop_evolves])

lemma removeConnection_evolves [evolving]: "safely (removeConnection sid c w) (evolves w)"
  unfolding removeConnection_def by (intro evolving)

lemma server_close_evolves [evolving]: "safely (server_close sid t c w) (evolves w)"
  by (simp add: server_close_def removeConnection_evolves)

lemma removeConnectionInLoop_good:
  assumes "conn_inv w" "cn_conns w c = Some cn"
  shows "good E w (removeConnectionInLoop c w)"
proof -
  obtain el where "n_loops w (cn_loop cn) = Some el" using assms by (rule conn_loop_live)
  then have "good E w (queueInLoop (cn_loop cn) (FConnectDestroyed c)
      (upd_server (\<lambda>s. s\<lparr>sv_connections := (sv_connections s)(cn_name cn := None)\<rparr>) w))"
    by (intro good_upd_server [OF assms(1), of "\<lambda>s. s\<lparr>sv_connections := (sv_connections s)(cn_name cn := None)\<rparr>"]
        queueInLoop_good) simp_all
  then show ?thesis using assms(2) by (simp add: removeConnectionInLoop_def get_conn_def)
qed

lemma removeConnection_good:
  assumes "conn_inv w" "n_loops w (sv_loop sid) \<noteq> None" "cn_conns w c = Some cn"
  shows "good E w (removeConnection sid c w)"
  using assms removeConnectionInLoop_good [OF assms(1,3)] queueInLoop_good [OF assms(1,2)]
  by (auto simp: removeConnection_def runInLoop_def isInLoopThread_def)

section \<open>The contracts\<close>

abbreviation app_faults :: "fault set" where
  "app_faults \<equiv> {OutOfRange, BadAlloc, BadFunctionCall, Misuse}"

interpretation sw: connection_world app "server_close sid" "\<lambda>w. n_loops w (sv_loop sid) \<noteq> None" app_faults
  for app :: "app_event \<Rightarrow> 'a server_net_scheme \<Rightarrow> api list" and sid :: server_id
proof unfold_locales
  show "good app_faults w (call_app app ev w)" if "conn_inv w" for w :: "'a server_net_scheme" and ev
    by (rule call_app_good [OF that]) simp
  show "good app_faults w (server_close sid t c w)"
    if "conn_inv w" "n_loops w (sv_loop sid) \<noteq> None" "cn_conns w c \<noteq> None" for w :: "'a server_net_scheme" and t c
    using that removeConnection_good [of w sid c] good_Inr [OF that(1)] by (auto simp: server_close_def)
  show "n_loops w' (sv_loop sid) \<noteq> None"
    if "n_loops w (sv_loop sid) \<noteq> None" "evolves w w'" for w w' :: "'a server_net_scheme"
    using that unfolding evolves_def by blast
qed simp

text \<open>Handlers and functors that call the close callback.\<close>

lemma closeCallback_evolves:
  assumes "\<And>t w. safely (close t c w) (evolves w)"
  shows "safely (closeCallback_call close c w) (evolves w)"
  unfolding closeCallback_call_def
  by (rule evolves_get_conn) (auto simp: assms split: option.splits)

lemma handleClose_evolves:
  assumes "\<And>t w. safely (close t c w) (evolves w)"
  shows "safely (handleClose app close c w) (evolves w)"
proof -
  have *: "safely (bind_res (change_mask DisableAll d w) (\<lambda>w. bind_res (connectionCallback app c w)
      (closeCallback_call close c))) (evolves w)" for d and w :: "'a conn_net_scheme"
    by (intro evolves_bind change_mask_evolves connectionCallback_evolves closeCallback_evolves assms)
  then show ?thesis
    unfolding handleClose_def by (intro evolves_get_conn evolves_after_put_conn [OF *])
qed

lemma forceCloseInLoop_evolves:
  assumes "\<And>t w. safely (close t c w) (evolves w)"
  shows "safely (forceCloseInLoop app close c w) (evolves w)"
  unfolding forceCloseInLoop_def
  by (intro evolves_get_conn evolves_if handleClose_evolves assms evolves_Inr)

lemma handleRead_evolves:
  assumes "\<And>t w. safely (close t c w) (evolves w)"
  shows "safely (handleRead app close t c w) (evolves w)"
proof -
  have step: "safely (if n > 0 then messageCallback app t c (put_conn c cn' w)
      else if n = 0 then handleClose app close c (put_conn c cn' w)
      else handleError c (put_conn c cn' w)) (evolves w)" for n :: int and cn'
    by (rule evolves_after_put_conn [of _ c cn'])
      (intro evolves_if messageCallback_evolves handleClose_evolves assms, simp add: handleError_def get_conn_def)
  show ?thesis unfolding handleRead_def Let_def
  proof (rule evolves_get_conn)
    fix cn
    show "safely (bind_res (readFd (next_read (cn_socket cn)) 0 (cn_inputBuffer cn)) (\<lambda>(n, saveErrno, b).
        if n > 0 then messageCallback app t c (put_conn c (cn\<lparr>cn_inputBuffer := b, cn_socket :=
            (cn_socket cn)\<lparr>sk_reads := tl (sk_reads (cn_socket cn))\<rparr>\<rparr>) w)
        else if n = 0 then handleClose app close c (put_conn c (cn\<lparr>cn_inputBuffer := b, cn_socket :=
            (cn_socket cn)\<lparr>sk_reads := tl (sk_reads (cn_socket cn))\<rparr>\<rparr>) w)
        else handleError c (put_conn c (cn\<lparr>cn_inputBuffer := b, cn_socket :=
            (cn_socket cn)\<lparr>sk_reads := tl (sk_reads (cn_socket cn))\<rparr>\<rparr>) w))) (evolves w)"
      using step by (cases "readFd (next_read (cn_socket cn)) 0 (cn_inputBuffer cn)") auto
  qed
qed

lemma acceptor_listen_evolves [evolving]: "safely (acceptor_listen ok w) (evolves w)"
proof (cases ok)
  case True
  show ?thesis unfolding acceptor_listen_def Let_def socket_listen_def
    by (simp add: True evolves_from [OF evolves_upd_server change_mask_evolves])
qed (simp add: acceptor_listen_def socket_listen_def Let_def)

lemma send_functor_evolves [evolving]: "safely (send_functor c p len w) (evolves w)"
  unfolding send_functor_def using sendInLoop_evolves by (auto intro: evolves_if)

interpretation sf: functor_runner "run_server_functor app sid ok"
  for app :: "app_event \<Rightarrow> 'a server_net_scheme \<Rightarrow> api list" and sid ok
proof
  show "safely (run_server_functor app sid ok f w) (evolves w)" for f and w :: "'a server_net_scheme"
    by (cases f) (simp_all add: run_server_functor_def run_conn_functor_def connectEstablished_evolves
        connectDestroyed_evolves send_functor_evolves shutdownInLoop_evolves call_app_evolves
        upd_conn_evolves removeConnectionInLoop_evolves acceptor_listen_evolves
        forceCloseInLoop_evolves server_close_evolves)
qed

lemma new_conn_evolves: "safely (new_conn c d l nm sk la pa w) (evolves w)"
  by (auto simp: new_conn_def evolves_def)

lemma newConnection_evolves [evolving]: "safely (newConnection app sid sk peer local c d w) (evolves w)"
proof -
  have run: "safely (bind_res (upd_conn c g w) (runInLoop l f (connectEstablished app c))) (evolves w)"
    for g l f and w :: "'a server_net_scheme"
    by (intro evolves_bind upd_conn_evolves runInLoop_evolves connectEstablished_evolves)
  have conn: "safely (bind_res (new_conn c d l nm sk local peer w) (\<lambda>w. bind_res
      (upd_conn c (g w) (upd_server h w)) (runInLoop l f (connectEstablished app c)))) (evolves w)"
    for g h l nm f and w :: "'a server_net_scheme"
    by (intro evolves_bind new_conn_evolves evolves_from [OF evolves_upd_server run])
  show ?thesis unfolding newConnection_def Let_def
    by (cases "getNextLoop (sv_pool (sv w))")
      (auto simp del: safely_simps(3) intro: evolves_from [OF evolves_upd_server conn])
qed

lemma acceptor_handleRead_evolves [evolving]:
  "safely (acceptor_handleRead (newConnection app sid) w) (evolves w)"
proof -
  have "evolves w (w\<lparr>sv_accepts := tl (sv_accepts w)\<rparr>)" by (rule evolves_net) simp_all
  then show ?thesis unfolding acceptor_handleRead_def Let_def
    by (auto intro: evolves_from [OF _ newConnection_evolves] split: accept_env.split)
qed

text \<open>
  All handlers but the one of the wakeup channel keep the preorder; that one only resets the
  counter.
\<close>

lemma run_server_handler_evolves:
  "\<forall>l. h \<noteq> LoopHandleRead l \<Longrightarrow> safely (run_server_handler app sid t h w) (evolves w)"
  by (cases h) (simp_all add: run_server_handler_def run_conn_handler_def handleRead_evolves
      handleWrite_evolves handleClose_evolves server_close_evolves acceptor_handleRead_evolves
      handleError_def get_conn_def)

interpretation sh: handler_runner "run_server_handler app sid t"
  for app :: "app_event \<Rightarrow> 'a server_net_scheme \<Rightarrow> api list" and sid t
proof
  fix w w' :: "'a server_net_scheme" and c ch h
  assume c: "n_chans w c = Some ch" and r: "run_server_handler app sid t h w = Inr w'"
  show "\<exists>ch'. n_chans w' c = Some ch' \<and> same_dispatch ch ch'"
  proof (cases "\<exists>l. h = LoopHandleRead l")
    case True
    with r have "n_chans w' = n_chans w"
      by (auto simp: run_server_handler_def run_conn_handler_def loop_handleRead_def bind_res_Inr_iff)
    with c show ?thesis by simp
  next
    case False
    with r have "evolves w w'" using run_server_handler_evolves [of h app sid t w] by simp
    with c show ?thesis unfolding evolves_def by blast
  qed
qed

section \<open>Events\<close>

lemma event_runs_fired:
  assumes "n_chans w d = Some ch"
  shows "handleEvent (get_chan d) (run_server_handler app sid t) conn_alive w =
    (if ch_tied ch \<and> (ch_tie ch = None \<or> \<not> conn_alive (the (ch_tie ch)) w) then Inr w
     else fold_res (run_server_handler app sid t) (fired ch) w)"
  using assms sh.chan.handleEventWithGuard_fired [of d w ch app sid t]
  by (auto simp: handleEvent_def split: option.splits)

section \<open>A sample server\<close>

text \<open>The loop in thread 1 with the acceptor's channel at 8; the pool has no threads.\<close>

definition sample_id :: server_id where
  "sample_id = \<lparr>sv_loop = 1, sv_ipPort = ''127.0.0.1:80'', sv_name = ''s''\<rparr>"

definition sample_server :: "user_cb option \<Rightarrow> server" where
  "sample_server cb = \<lparr>sv_acceptor = \<lparr>acceptSocket = 8, acceptOptions = [(SO_REUSEADDR, 1), (SO_REUSEPORT, 1)], acceptChannel = 8, newConnectionCallback = True, listenning = False\<rparr>,
     sv_pool = mk_pool 1 ''s'', sv_connectionCallback = cb, sv_messageCallback = cb,
     sv_writeCompleteCallback = None, sv_threadInitCallback = None, sv_started = 0, sv_nextConnId = 1,
     sv_connections = Map.empty\<rparr>"

definition sample_net :: "user_cb option \<Rightarrow> accept_env list \<Rightarrow> server_net" where
  "sample_net cb accepts = \<lparr>n_tid = 1,
     n_chans = [8 \<mapsto> (mk_channel 1 8)\<lparr>readCallback := Some AcceptorHandleRead\<rparr>],
     n_loops = [1 \<mapsto> mk_loop 1 (mk_poller (\<lambda>_ _. False)) 3 4], n_loopInThisThread = [1 \<mapsto> 1],
     cn_conns = Map.empty, cn_strings = Map.empty, cn_trace = [], sv = sample_server cb, sv_accepts = accepts\<rparr>"

lemma sample_net_simps [simp]:
  "n_tid (sample_net cb acs) = 1" "cn_conns (sample_net cb acs) = Map.empty"
  "n_chans (sample_net cb acs) = [8 \<mapsto> (mk_channel 1 8)\<lparr>readCallback := Some AcceptorHandleRead\<rparr>]"
  "n_loops (sample_net cb acs) = [1 \<mapsto> mk_loop 1 (mk_poller (\<lambda>_ _. False)) 3 4]"
  "sv (sample_net cb acs) = sample_server cb" "sv_accepts (sample_net cb acs) = acs"
  "cn_strings (sample_net cb acs) = Map.empty"
  by (simp_all add: sample_net_def)

lemma sample_net_inv: "conn_inv (sample_net cb acs)"
proof -
  have "poller_inv 1 (mk_poller (\<lambda>_ _. False)) [8 \<mapsto> (mk_channel 1 8)\<lparr>readCallback := Some AcceptorHandleRead\<rparr>]"
    by (rule poller_inv_mk_poller) (auto simp: mk_channel_def KNew_def split: if_splits)
  then show ?thesis by (simp add: conn_inv_def net_inv_def mk_loop_def)
qed

text \<open>
  C22. Any event report of a live connection, with any answers of the kernel and any calls of the
  application in its callbacks, leaves poller, kernel, channels and connections in agreement; each
  connection only moves forward: its stream of sent and waiting bytes is extended at the end and
  never changed, and its state never goes back. The only faults are those of the application (an
  empty callback, a dangling pointer or a failing allocation of its own) and of a buffer at the end
  of its range.
\<close>

theorem connection_event_safe:
  assumes "conn_inv w" "n_loops w (sv_loop sid) \<noteq> None" "cn_conns w c = Some cn"
  shows "ends app_faults (handleEvent (get_chan (cn_channel cn)) (run_server_handler app sid t) conn_alive w)
     (\<lambda>w'. conn_inv w' \<and> (\<forall>d dn. cn_conns w d = Some dn \<longrightarrow> (\<exists>dn'. cn_conns w' d = Some dn'
        \<and> (\<exists>new. stream dn' = stream dn @ new) \<and> stage (cn_state dn) \<le> stage (cn_state dn'))))"
proof -
  obtain ch el where l: "linked c cn ch el w" using assms(1,3) by (rule conn_invE)
  then have ch: "n_chans w (cn_channel cn) = Some ch" and own: "owns c cn ch" by (simp_all add: linked_def)
  have "\<forall>h \<in> set (fired ch). handler_conn h = Some c" using owns_fired [OF own] by blast
  from sw.run_handlers_good [OF assms this]
  have good: "good app_faults w (fold_res (run_server_handler app sid t) (fired ch) w)"
    unfolding run_server_handler_def .
  have adv: "\<exists>dn'. cn_conns w' d = Some dn' \<and> (\<exists>new. stream dn' = stream dn @ new)
      \<and> stage (cn_state dn) \<le> stage (cn_state dn')"
    if "conns_advance w w'" "cn_conns w d = Some dn" for w' :: "'a server_net_scheme" and d dn
    using that unfolding conns_advance_def advances_def by blast
  show ?thesis
    unfolding event_runs_fired [OF ch]
    using good adv good_Inr [OF assms(1), of app_faults] by (auto simp: good_def elim!: ends_mono)
qed

text \<open>Connection 5 is up and its channel reports \<open>r\<close>.\<close>

lemma focused_revents:
  assumes f: "focused c cn ch el w"
  shows "focused c cn (ch\<lparr>ch_revents := r\<rparr>) el w"
proof -
  have "poller_inv l (el_poller el') ((n_chans w)(cn_channel cn \<mapsto> ch\<lparr>ch_revents := r\<rparr>))"
    if "poller_inv l (el_poller el') ((n_chans w)(cn_channel cn \<mapsto> ch))" for l el'
    using that by (rule poller_inv_cong) simp
  then have "net_inv (setc c cn (ch\<lparr>ch_revents := r\<rparr>) el w)"
    using f unfolding focused_def net_inv_def setc_simps by blast
  moreover have "owns c cn (ch\<lparr>ch_revents := r\<rparr>) = owns c cn ch" "may_add p (ch\<lparr>ch_revents := r\<rparr>) = may_add p ch" for p
    by (simp_all add: owns_def may_add_def)
  ultimately show ?thesis using f unfolding focused_def by simp
qed

definition sample_up_conn :: "read_env list \<Rightarrow> write_env list \<Rightarrow> conn" where
  "sample_up_conn rs ws = (sample_up ws)\<lparr>cn_socket := (sample_sock ws)\<lparr>sk_reads := rs\<rparr>,
     cn_closeCallback := Some ServerRemove\<rparr>"

definition sample_up_world :: "read_env list \<Rightarrow> write_env list \<Rightarrow> mask \<Rightarrow> conn_net" where
  "sample_up_world rs ws r =
     setc 5 (sample_up_conn rs ws) (sample_channel\<lparr>ch_revents := r\<rparr>) sample_evloop (sample_base ws)"

lemma sample_up_world_inv: "conn_inv (sample_up_world rs ws r)"
proof -
  have "same_place (sample_up ws) (sample_up_conn rs ws)"
    by (simp add: same_place_def sample_up_conn_def sample_up_def sample_conn_def mk_conn_def sample_sock_def)
  then have "focused 5 (sample_up_conn rs ws) (sample_channel\<lparr>ch_revents := r\<rparr>) sample_evloop (sample_base ws)"
    using focused_revents [OF focused_conn [OF _ sample_world_focus]] by blast
  moreover have "conn_local (sample_up_conn rs ws) (sample_channel\<lparr>ch_revents := r\<rparr>)"
    using sample_local [of ws]
    by (simp add: conn_local_def sample_up_conn_def sample_up_def isReading_def isWriting_def isNoneEvent_def
        pending_out_def sample_sock_def)
  ultimately show ?thesis
    unfolding sample_up_world_def by (rule conn_inv_setc [OF sample_base_inv])
qed

definition sample_up_server :: "read_env list \<Rightarrow> write_env list \<Rightarrow> mask \<Rightarrow> server_net" where
  "sample_up_server rs ws r = conn_net.extend (sample_up_world rs ws r)
     (server_net.fields ((sample_server None)\<lparr>sv_connections := [''c'' \<mapsto> 5]\<rparr>) [])"

lemma sample_up_server_simps [simp]:
  "cn_conns (sample_up_server rs ws r) 5 = Some (sample_up_conn rs ws)"
  "n_loops (sample_up_server rs ws r) (Suc 0) = Some sample_evloop"
  "conn_inv (sample_up_server rs ws r)"
proof -
  have "conn_inv (sample_up_server rs ws r) = conn_inv (sample_up_world rs ws r)"
    using conn_inv_cong [of "sample_up_world rs ws r" "sample_up_world rs ws r"]
    by (simp add: conn_inv_def linked_def net_inv_def sample_up_server_def conn_net.defs server_net.defs)
  then show "conn_inv (sample_up_server rs ws r)" using sample_up_world_inv by simp
qed (simp_all add: sample_up_server_def conn_net.defs sample_up_world_def sample_up_conn_def)

text \<open>The peer hangs up while the loop is in the read handler of the connection.\<close>

theorem connection_event_safe_witness:
  "ends app_faults (handleEvent (get_chan 6) (run_server_handler quiet sample_id invalid) conn_alive
      (sample_up_server [ReadData []] [] 1))
     (\<lambda>w'. conn_inv w' \<and> (\<exists>dn'. cn_conns w' 5 = Some dn' \<and> 1 \<le> stage (cn_state dn')))"
proof -
  have "cn_channel (sample_up_conn [ReadData []] []) = 6" by (simp add: sample_up_conn_def)
  then have "ends app_faults (handleEvent (get_chan 6) (run_server_handler quiet sample_id invalid) conn_alive
      (sample_up_server [ReadData []] [] 1))
     (\<lambda>w'. conn_inv w' \<and> (\<forall>d dn. cn_conns (sample_up_server [ReadData []] [] 1) d = Some dn \<longrightarrow>
        (\<exists>dn'. cn_conns w' d = Some dn' \<and> (\<exists>new. stream dn' = stream dn @ new)
          \<and> stage (cn_state dn) \<le> stage (cn_state dn'))))"
    using connection_event_safe [of "sample_up_server [ReadData []] [] 1" sample_id 5
        "sample_up_conn [ReadData []] []" quiet invalid]
    by (simp add: sample_id_def)
  then show ?thesis
    by (rule ends_mono) (auto dest!: spec [of _ 5] simp: sample_up_conn_def sample_up_def)
qed

end
