(* ===== verification/Calm.thy ===== *)
theory Calm
  imports Connection_World
begin

text \<open>
  What the calls of the application cannot change. The life of a connection (established, closed,
  removed, destroyed) is driven by the library alone; the relation \<open>calm\<close> says that a piece of a
  run leaves it where it is: the same connections in the same kind of state, the same channels with
  the same registration, those of no connection untouched, and only functors queued that do not drive it either.
\<close>

section \<open>Definitions\<close>

text \<open>The kind of a state: before, during and after the connection is up.\<close>

datatype kind = Young | Up | Down

fun kind_of :: "StateE \<Rightarrow> kind" where
  "kind_of kConnecting = Young"
| "kind_of kConnected = Up"
| "kind_of kDisconnecting = Up"
| "kind_of kDisconnected = Down"

definition same_conn :: "conn \<Rightarrow> conn \<Rightarrow> bool" where
  "same_conn cn cn' \<longleftrightarrow> same_place cn cn' \<and> cn_name cn' = cn_name cn
     \<and> cn_closeCallback cn' = cn_closeCallback cn \<and> kind_of (cn_state cn') = kind_of (cn_state cn)"

text \<open>Functors that the application's calls may queue in loop \<open>l\<close>.\<close>

definition lives_on :: "nat \<Rightarrow> nat \<Rightarrow> 'a conn_net_scheme \<Rightarrow> bool" where
  "lives_on c l w \<longleftrightarrow> (\<exists>cn. cn_conns w c = Some cn \<and> cn_loop cn = l)"

fun benign :: "nat \<Rightarrow> 'a conn_net_scheme \<Rightarrow> Functor \<Rightarrow> bool" where
  "benign l w (FWriteComplete c) = True"
| "benign l w (FHighWaterMark c n) = True"
| "benign l w (FForceCloseInLoop c) = lives_on c l w"
| "benign l w f = False"

definition same_conns :: "'a conn_net_scheme \<Rightarrow> 'a conn_net_scheme \<Rightarrow> bool" where
  "same_conns w w' \<longleftrightarrow> (\<forall>c. rel_option same_conn (cn_conns w c) (cn_conns w' c))"

definition no_conn_chan :: "nat \<Rightarrow> 'a conn_net_scheme \<Rightarrow> bool" where
  "no_conn_chan d w \<longleftrightarrow> (\<forall>c cn. cn_conns w c = Some cn \<longrightarrow> cn_channel cn \<noteq> d)"

definition other_chans :: "'a conn_net_scheme \<Rightarrow> 'a conn_net_scheme \<Rightarrow> bool" where
  "other_chans w w' \<longleftrightarrow> (\<forall>d. no_conn_chan d w \<longrightarrow> n_chans w' d = n_chans w d)"

definition same_chan :: "channel \<Rightarrow> channel \<Rightarrow> bool" where
  "same_chan ch ch' \<longleftrightarrow> ch_index ch' = ch_index ch"

definition same_chans :: "'a net_scheme \<Rightarrow> 'a net_scheme \<Rightarrow> bool" where
  "same_chans w w' \<longleftrightarrow> (\<forall>d. rel_option same_chan (n_chans w d) (n_chans w' d))"

definition queues :: "(nat \<Rightarrow> Functor \<Rightarrow> bool) \<Rightarrow> 'a net_scheme \<Rightarrow> 'a net_scheme \<Rightarrow> bool" where
  "queues P w w' \<longleftrightarrow> (\<forall>l. rel_option (\<lambda>el el'.
     \<exists>new. pendingFunctors el' = pendingFunctors el @ new \<and> (\<forall>f \<in> set new. P l f))
     (n_loops w l) (n_loops w' l))"

definition calm :: "'a conn_net_scheme \<Rightarrow> 'a conn_net_scheme \<Rightarrow> bool" where
  "calm w w' \<longleftrightarrow> evolves w w' \<and> conn_net.more w' = conn_net.more w
     \<and> same_conns w w' \<and> same_chans w w' \<and> other_chans w w' \<and> queues (\<lambda>l. benign l w) w w'"

section \<open>A preorder\<close>

lemma same_conn_refl [simp]: "same_conn cn cn"
  by (simp add: same_conn_def)

lemma same_conn_trans: "same_conn a b \<Longrightarrow> same_conn b c \<Longrightarrow> same_conn a c"
  using same_place_trans unfolding same_conn_def by metis

lemma same_chan_refl [simp]: "same_chan ch ch"
  by (simp add: same_chan_def)

lemma same_chan_trans: "same_chan a b \<Longrightarrow> same_chan b c \<Longrightarrow> same_chan a c"
  by (simp add: same_chan_def)

lemma rel_option_trans:
  assumes "rel_option R a b" "rel_option S b c" "\<And>x y z. R x y \<Longrightarrow> S y z \<Longrightarrow> T x z"
  shows "rel_option T a c"
  using assms by (cases a; cases b; cases c) auto

lemma same_conns_refl [simp]: "same_conns w w"
  by (simp add: same_conns_def option.rel_refl)

lemma same_chans_refl [simp]: "same_chans w w"
  by (simp add: same_chans_def option.rel_refl)

lemma same_conns_cong: "cn_conns w' = cn_conns w \<Longrightarrow> same_conns w w'"
  by (simp add: same_conns_def option.rel_refl)

lemma same_chans_cong: "n_chans w' = n_chans w \<Longrightarrow> same_chans w w'"
  by (simp add: same_chans_def option.rel_refl)

lemma other_chans_cong [simp]: "n_chans w' = n_chans w \<Longrightarrow> other_chans w w'"
  by (simp add: other_chans_def)

lemma queues_cong: "n_loops w' = n_loops w \<Longrightarrow> queues P w w'"
  by (auto simp: queues_def intro!: option.rel_refl)

lemma queues_refl [simp]: "queues P w w"
  by (rule queues_cong) simp

lemma queues_trans:
  assumes "queues P a b" "queues Q b c" "\<And>l f. Q l f \<Longrightarrow> P l f"
  shows "queues P a c"
  unfolding queues_def
proof
  fix l
  show "rel_option (\<lambda>el el'. \<exists>new. pendingFunctors el' = pendingFunctors el @ new
      \<and> (\<forall>f \<in> set new. P l f)) (n_loops a l) (n_loops c l)"
    by (rule rel_option_trans [OF assms(1) [unfolded queues_def, rule_format]
          assms(2) [unfolded queues_def, rule_format]]) (fastforce dest: assms(3))
qed

lemma queues_mono: "queues P w w' \<Longrightarrow> (\<And>l f. P l f \<Longrightarrow> Q l f) \<Longrightarrow> queues Q w w'"
  unfolding queues_def by (rule allI, drule spec, erule option.rel_mono_strong) blast

lemma lives_on_same: "same_conns w w' \<Longrightarrow> lives_on c l w' = lives_on c l w"
proof -
  assume "same_conns w w'"
  then have "rel_option same_conn (cn_conns w c) (cn_conns w' c)" by (simp add: same_conns_def)
  then show ?thesis
    by (cases "cn_conns w c"; cases "cn_conns w' c") (auto simp: lives_on_def same_conn_def same_place_def)
qed

lemma benign_same: "same_conns w w' \<Longrightarrow> benign l w' f = benign l w f"
  by (cases f) (simp_all add: lives_on_same)

lemma same_conns_trans:
  assumes "same_conns a b" "same_conns b c"
  shows "same_conns a c"
  unfolding same_conns_def
proof
  fix x
  have "rel_option same_conn (cn_conns a x) (cn_conns b x)" "rel_option same_conn (cn_conns b x) (cn_conns c x)"
    using assms by (simp_all add: same_conns_def)
  then show "rel_option same_conn (cn_conns a x) (cn_conns c x)"
    by (rule rel_option_trans) (rule same_conn_trans)
qed

lemma same_chans_trans:
  assumes "same_chans a b" "same_chans b c"
  shows "same_chans a c"
  unfolding same_chans_def
proof
  fix x
  have "rel_option same_chan (n_chans a x) (n_chans b x)" "rel_option same_chan (n_chans b x) (n_chans c x)"
    using assms by (simp_all add: same_chans_def)
  then show "rel_option same_chan (n_chans a x) (n_chans c x)"
    by (rule rel_option_trans) (rule same_chan_trans)
qed

lemma no_conn_chan_same:
  assumes "same_conns w w'"
  shows "no_conn_chan d w' \<longleftrightarrow> no_conn_chan d w"
proof -
  have "(\<exists>cn. cn_conns w' c = Some cn \<and> cn_channel cn = d) \<longleftrightarrow> (\<exists>cn. cn_conns w c = Some cn \<and> cn_channel cn = d)" for c
    using assms [unfolded same_conns_def, rule_format, of c]
    by (cases "cn_conns w c"; cases "cn_conns w' c") (simp_all add: same_conn_def same_place_def)
  then show ?thesis unfolding no_conn_chan_def by blast
qed

lemma other_chans_trans: "same_conns a b \<Longrightarrow> other_chans a b \<Longrightarrow> other_chans b c \<Longrightarrow> other_chans a c"
  by (simp add: other_chans_def no_conn_chan_same)

lemma calm_refl [simp]: "calm w w"
  by (simp add: calm_def)

lemma calm_trans:
  assumes "calm a b" "calm b c"
  shows "calm a c"
proof -
  have "queues (\<lambda>l. benign l a) a c"
  proof (rule queues_trans [of "\<lambda>l. benign l a" a b "\<lambda>l. benign l b" c])
    show "benign l a f" if "benign l b f" for l f
      using that benign_same [of a b l f] assms(1) by (simp add: calm_def)
  qed (use assms in \<open>simp_all add: calm_def\<close>)
  moreover have "same_conns a c" "same_chans a c"
    using assms same_conns_trans [of a b c] same_chans_trans [of a b c] by (simp_all add: calm_def)
  moreover have "other_chans a c" using assms other_chans_trans [of a b c] by (simp add: calm_def)
  ultimately show ?thesis using assms evolves_trans [of a b c] by (simp add: calm_def)
qed

lemma calm_from: "calm w x \<Longrightarrow> safely r (calm x) \<Longrightarrow> safely r (calm w)"
  by (erule safely_mono) (rule calm_trans)

lemma calm_bind:
  assumes "safely r (calm w)" "\<And>x. r = Inr x \<Longrightarrow> calm w x \<Longrightarrow> safely (f x) (calm x)"
  shows "safely (bind_res r f) (calm w)"
proof (cases r)
  case (Inr x)
  with assms have "calm w x" "safely (f x) (calm x)" by simp_all
  then have "safely (f x) (calm w)" by (rule calm_from)
  with Inr show ?thesis by simp
qed simp

text \<open>A run of calls with an invariant and a condition that calm steps keep.\<close>

lemma calm_fold:
  assumes "I w" "\<forall>x \<in> set xs. C x w"
    and "\<And>x w. I w \<Longrightarrow> C x w \<Longrightarrow> safely (f x w) (\<lambda>w'. calm w w' \<and> I w')"
    and "\<And>x w w'. C x w \<Longrightarrow> calm w w' \<Longrightarrow> C x w'"
  shows "safely (fold_res f xs w) (calm w)"
  using assms(1,2)
proof (induction xs arbitrary: w)
  case (Cons x xs)
  show ?case unfolding fold_res.simps
  proof (rule calm_bind)
    have *: "safely (f x w) (\<lambda>w'. calm w w' \<and> I w')" using assms(3) Cons.prems by simp
    then show "safely (f x w) (calm w)" by (rule safely_mono) simp
    fix y
    assume y: "f x w = Inr y" "calm w y"
    show "safely (fold_res f xs y) (calm y)"
    proof (rule Cons.IH)
      show "I y" using * y(1) by simp
      show "\<forall>x \<in> set xs. C x y" using Cons.prems(2) assms(4) y(2) by auto
    qed
  qed
qed simp

section \<open>Calm steps\<close>

lemma more_simps [simp]:
  "conn_net.more (put_loop l el w) = conn_net.more w"
  "conn_net.more (put_chan d ch w) = conn_net.more w"
  "conn_net.more (put_conn c cn w) = conn_net.more w"
  "conn_net.more (setc c cn ch el w) = conn_net.more w"
  by (simp_all add: put_loop_def put_chan_def put_conn_def setc_def)

lemma calm_put_conn:
  assumes "cn_conns w c = Some cn" "same_conn cn cn'"
  shows "calm w (put_conn c cn' w)"
proof -
  have "same_conns w (put_conn c cn' w)"
    using assms by (auto simp: same_conns_def intro!: option.rel_refl)
  then show ?thesis by (simp add: calm_def same_chans_cong queues_cong evolves_put_conn)
qed

lemma queues_put_loop:
  assumes "n_loops w l = Some el" "pendingFunctors el' = pendingFunctors el @ new"
    "\<forall>f \<in> set new. P l f"
  shows "queues P w (put_loop l el' w)"
  using assms by (auto simp: queues_def intro!: option.rel_refl)

lemma calm_queue:
  assumes "benign l w f"
  shows "safely (queueInLoop l f w) (calm w)"
proof (cases "n_loops w l")
  case (Some el)
  have "queues (\<lambda>l. benign l w) w (put_loop l (queued (n_tid w) f el) w)"
    by (rule queues_put_loop [OF Some, where new = "[f]"]) (use assms in simp_all)
  then show ?thesis using Some
    by (simp add: queueInLoop_eq calm_def same_chans_cong same_conns_cong evolves_put_loop)
qed (simp add: queueInLoop_def get_loop_def)

text \<open>A step in focus on one connection.\<close>

lemma calm_setc:
  assumes l: "linked c cn ch el w" and cn': "same_conn cn cn'" and ch': "same_chan ch ch'"
    and el': "pendingFunctors el' = pendingFunctors el @ new"
    and new: "\<forall>f \<in> set new. benign (cn_loop cn) w f" and ev: "evolves w (setc c cn' ch' el' w)"
  shows "calm w (setc c cn' ch' el' w)"
proof -
  have p: "cn_loop cn' = cn_loop cn" "cn_channel cn' = cn_channel cn"
    using cn' by (simp_all add: same_conn_def same_place_def)
  have "same_conns w (setc c cn' ch' el' w)"
    using l cn' by (auto simp: same_conns_def linked_def intro!: option.rel_refl)
  moreover have "same_chans w (setc c cn' ch' el' w)"
    using l ch' p by (auto simp: same_chans_def linked_def intro!: option.rel_refl)
  moreover have "other_chans w (setc c cn' ch' el' w)"
    using l p by (auto simp: other_chans_def no_conn_chan_def linked_def)
  moreover have "queues (\<lambda>l. benign l w) w (setc c cn' ch' el' w)"
    using l p el' new by (auto simp: queues_def linked_def intro!: option.rel_refl)
  ultimately show ?thesis using ev by (simp add: calm_def)
qed

section \<open>The calls of the application\<close>

text \<open>
  \<open>send\<close> and \<open>shutdown\<close> in the thread of the connection; from other threads they queue a functor
  with a raw pointer, which is neither calm nor safe.
\<close>

definition own_thread :: "nat \<Rightarrow> 'a conn_net_scheme \<Rightarrow> bool" where
  "own_thread c w \<longleftrightarrow> (\<forall>cn. cn_conns w c = Some cn \<longrightarrow>
     (\<exists>el. n_loops w (cn_loop cn) = Some el \<and> threadId el = n_tid w))"

fun local_call :: "api \<Rightarrow> 'a conn_net_scheme \<Rightarrow> bool" where
  "local_call (Send c p) w = own_thread c w"
| "local_call (Shutdown c) w = own_thread c w"
| "local_call a w = True"

definition local_app :: "(app_event \<Rightarrow> 'a conn_net_scheme \<Rightarrow> api list) \<Rightarrow> bool" where
  "local_app app \<longleftrightarrow> (\<forall>ev w. \<forall>a \<in> set (app ev w). local_call a w)"

lemma own_thread_calm:
  assumes "own_thread c w" "calm w w'"
  shows "own_thread c w'"
  unfolding own_thread_def
proof (intro allI impI)
  fix cn'
  assume cn': "cn_conns w' c = Some cn'"
  have "rel_option same_conn (cn_conns w c) (cn_conns w' c)" using assms(2) by (simp add: calm_def same_conns_def)
  with cn' obtain cn where cn: "cn_conns w c = Some cn" "same_conn cn cn'" by (cases "cn_conns w c") auto
  obtain el where el: "n_loops w (cn_loop cn) = Some el" "threadId el = n_tid w"
    using assms(1) cn(1) unfolding own_thread_def by blast
  obtain el' where "n_loops w' (cn_loop cn) = Some el'" "threadId el' = n_tid w"
    using assms(2) el unfolding calm_def evolves_def grows_def by metis
  then show "\<exists>el. n_loops w' (cn_loop cn') = Some el \<and> threadId el = n_tid w'"
    using cn(2) assms(2) by (simp add: same_conn_def same_place_def calm_def evolves_def)
qed

lemma local_call_calm: "local_call a w \<Longrightarrow> calm w w' \<Longrightarrow> local_call a w'"
  by (cases a) (auto intro: own_thread_calm)

text \<open>The registration of a connection that is up.\<close>

definition registered_up :: "'a conn_net_scheme \<Rightarrow> bool" where
  "registered_up w \<longleftrightarrow> (\<forall>c cn ch. cn_conns w c = Some cn \<and> n_chans w (cn_channel cn) = Some ch \<longrightarrow>
     (ch_index ch = KAdded \<longleftrightarrow> kind_of (cn_state cn) = Up))"

lemma registered_up_calm:
  assumes "registered_up w" "calm w w'"
  shows "registered_up w'"
  unfolding registered_up_def
proof (intro allI impI, elim conjE)
  fix c cn' ch'
  assume a: "cn_conns w' c = Some cn'" "n_chans w' (cn_channel cn') = Some ch'"
  have "rel_option same_conn (cn_conns w c) (cn_conns w' c)" using assms(2) by (simp add: calm_def same_conns_def)
  with a(1) obtain cn where cn: "cn_conns w c = Some cn" "same_conn cn cn'" by (cases "cn_conns w c") auto
  have "rel_option same_chan (n_chans w (cn_channel cn)) (n_chans w' (cn_channel cn))"
    using assms(2) by (simp add: calm_def same_chans_def)
  with a(2) cn(2) obtain ch where ch: "n_chans w (cn_channel cn) = Some ch" "same_chan ch ch'"
    by (cases "n_chans w (cn_channel cn)") (auto simp: same_conn_def same_place_def)
  have "ch_index ch = KAdded \<longleftrightarrow> kind_of (cn_state cn) = Up"
    using assms(1) cn(1) ch(1) by (auto simp: registered_up_def)
  then show "ch_index ch' = KAdded \<longleftrightarrow> kind_of (cn_state cn') = Up"
    using cn(2) ch(2) by (simp add: same_conn_def same_chan_def)
qed

lemma io_only_same_conn:
  assumes "io_only cn cn'" "same_place cn cn'"
  shows "same_conn cn cn'"
proof -
  have eq: "cn' = cn\<lparr>cn_socket := cn_socket cn', cn_outputBuffer := cn_outputBuffer cn'\<rparr>"
    using assms(1) by (simp only: io_only_def)
  have "cn_name cn' = cn_name cn" by (subst eq) simp
  moreover have "cn_closeCallback cn' = cn_closeCallback cn" by (subst eq) simp
  moreover have "cn_state cn' = cn_state cn" by (subst eq) simp
  ultimately show ?thesis using assms(2) by (simp add: same_conn_def)
qed

lemma send_notes_benign: "\<forall>f \<in> set (send_notes c cn data). benign l w f"
  by (auto simp: send_notes_def high_water_def Let_def)

lemma sendInLoop_calm:
  assumes inv: "conn_inv w" and cn: "cn_conns w c = Some cn" and up: "kind_of (cn_state cn) = Up"
    and reg: "registered_up w" and data: "length data < 2 ^ 64"
  shows "safely (sendInLoop c data w) (calm w)"
proof -
  obtain ch el where l: "linked c cn ch el w" "conn_local cn ch" "focused c cn ch el w" "setc c cn ch el w = w"
    using inv cn by (rule conn_invE)
  have fits: "takes {OutOfRange} (kept cn data) (cn_outputBuffer cn)"
    using l(2) data by (intro takes_any) (auto simp: conn_local_def kept_def intro: le_less_trans [OF diff_le_self])
  have "cn_state cn \<noteq> kDisconnected" using up by auto
  from sendInLoop_at [OF l(3,2) this data disjI2 [OF fits]]
  have "safely (sendInLoop c data w) (leads c (sent c cn ch el data) w)" unfolding l(4) by (rule ends_safely)
  then have "safely (sendInLoop c data w) (\<lambda>w'. leads c (sent c cn ch el data) w w' \<and> evolves w w')"
    using sendInLoop_evolves [of c data w] by (cases "sendInLoop c data w") auto
  then show ?thesis
  proof (rule safely_mono, elim conjE leadsE)
    fix w' cn' ch' el'
    assume *: "evolves w w'" "w' = setc c cn' ch' el' w" "focused c cn' ch' el' w" "sent c cn ch el data cn' ch' el'"
    have "same_conn cn cn'"
      using *(4) leads_place [OF *(3) cn] by (intro io_only_same_conn) (simp_all add: sent_def)
    moreover have "ch_index ch = KAdded" using reg l(1) up by (auto simp: registered_up_def linked_def)
    then have "same_chan ch ch'" using *(4) by (simp add: sent_def same_chan_def)
    ultimately show "calm w w'"
      unfolding *(2) by (rule calm_setc [OF l(1) _ _ _ send_notes_benign]) (use *(1,2,4) in \<open>auto simp: sent_def\<close>)
  qed
qed

lemma handleWrite_calm:
  assumes inv: "conn_inv w" and cn: "cn_conns w c = Some cn" and reg: "registered_up w"
    and st: "kind_of (cn_state cn) \<noteq> Young"
  shows "safely (handleWrite c w) (calm w)"
proof -
  obtain ch el where l: "linked c cn ch el w" "conn_local cn ch" "focused c cn ch el w" "setc c cn ch el w = w"
    using inv cn by (rule conn_invE)
  show ?thesis
  proof (cases "cn_state cn = kDisconnected")
    case True
    from handleWrite_down [OF l(2) True, of c el w] show ?thesis unfolding l(4) by simp
  next
    case False
    then have up: "kind_of (cn_state cn) = Up" using st by (cases "cn_state cn") auto
    have "returns (handleWrite c w) (leads c (wrote c cn ch el) w)"
      using handleWrite_at [OF l(3,2) False] unfolding l(4) .
    then have "safely (handleWrite c w) (\<lambda>w'. leads c (wrote c cn ch el) w w' \<and> evolves w w')"
      using handleWrite_evolves [of c w] by (cases "handleWrite c w") auto
    then show ?thesis
    proof (rule safely_mono, elim conjE leadsE)
      fix w' cn' ch' el'
      assume *: "evolves w w'" "w' = setc c cn' ch' el' w" "focused c cn' ch' el' w" "wrote c cn ch el cn' ch' el'"
      have eq: "cn' = cn\<lparr>cn_socket := cn_socket cn', cn_outputBuffer := cn_outputBuffer cn'\<rparr>"
        using *(4) by (simp only: wrote_def)
      have "cn_name cn' = cn_name cn" by (subst eq) simp
      moreover have "cn_closeCallback cn' = cn_closeCallback cn" by (subst eq) simp
      moreover have "cn_state cn' = cn_state cn" by (subst eq) simp
      ultimately have "same_conn cn cn'" using leads_place [OF *(3) cn] by (simp add: same_conn_def)
      moreover have "ch_index ch = KAdded" using reg l(1) up by (auto simp: registered_up_def linked_def)
      moreover have "isReading ch" using l(2) up by (cases "cn_state cn") (auto simp: conn_local_def)
      ultimately show "calm w w'"
        unfolding *(2) using *(1,2,4) l(1)
        by (intro calm_setc [where new = "if drained cn \<and> cn_writeCompleteCallback cn \<noteq> None then [FWriteComplete c] else []"])
          (auto simp: wrote_def same_chan_def)
    qed
  qed
qed

lemma upd_conn_calm:
  assumes "\<And>cn. same_conn cn (f cn)"
  shows "safely (upd_conn c f w) (calm w)"
  using assms by (auto simp: upd_conn_def get_conn_def intro: calm_put_conn)

lemma take_input_calm: "safely (upd_conn c (\<lambda>cn. cn\<lparr>cn_inputBuffer := g (cn_inputBuffer cn)\<rparr>) w) (calm w)"
  by (rule upd_conn_calm) (simp add: same_conn_def)

lemma shutdownInLoop_calm: "safely (shutdownInLoop c w) (calm w)"
  using calm_put_conn [of w c]
  by (auto simp: shutdownInLoop_def get_conn_def get_chan_def shutdownWrite_def same_conn_def same_place_def)

lemma tcp_send_calm:
  assumes "conn_inv w" "registered_up w" "own_thread c w"
  shows "safely (tcp_send c p w) (calm w)"
proof -
  have "safely (sendInLoop c s w) (calm w)"
    if "cn_conns w c = Some cn" "cn_state cn = kConnected" "cn_strings w p = Some s" for cn s
    using that assms(1,2) conn_inv_strings [OF assms(1) that(3)] by (intro sendInLoop_calm) auto
  then show ?thesis using assms(3)
    by (auto simp: tcp_send_def get_conn_def own_thread_def isInLoopThread_def get_loop_def)
qed

lemma tcp_shutdown_calm:
  assumes "own_thread c w"
  shows "safely (tcp_shutdown c w) (calm w)"
proof (cases "cn_conns w c")
  case (Some cn)
  have "safely (shutdownInLoop c (put_conn c (cn\<lparr>cn_state := kDisconnecting\<rparr>) w)) (calm w)"
    if "cn_state cn = kConnected"
    using Some that by (intro calm_from [OF calm_put_conn shutdownInLoop_calm]) (auto simp: same_conn_def)
  then show ?thesis using assms Some
    by (auto simp: tcp_shutdown_def get_conn_def own_thread_def runInLoop_def isInLoopThread_def get_loop_def)
qed (simp add: tcp_shutdown_def get_conn_def)

lemma forceClose_calm: "safely (forceClose c w) (calm w)"
proof (cases "cn_conns w c")
  case (Some cn)
  have "safely (queueInLoop (cn_loop cn) (FForceCloseInLoop c) (put_conn c (cn\<lparr>cn_state := kDisconnecting\<rparr>) w)) (calm w)"
    if "cn_state cn = kConnected \<or> cn_state cn = kDisconnecting"
    using Some that by (intro calm_from [OF calm_put_conn calm_queue]) (auto simp: same_conn_def lives_on_def)
  then show ?thesis using Some by (simp add: forceClose_defs get_conn_def)
qed (simp add: forceClose_defs get_conn_def)

lemma calm_strings: "calm w (w\<lparr>cn_strings := f\<rparr>)"
  by (simp add: calm_def same_conns_cong same_chans_cong queues_cong evolves_net)

lemma calm_trace: "calm w (w\<lparr>cn_trace := t\<rparr>)"
  by (simp add: calm_def same_conns_cong same_chans_cong queues_cong evolves_net)

lemma run_api_calm:
  assumes "conn_inv w" "registered_up w" "local_call a w"
  shows "safely (run_api a w) (calm w)"
  using assms tcp_send_calm tcp_shutdown_calm forceClose_calm take_input_calm calm_strings
  by (cases a) auto

lemma run_api_inv:
  assumes "conn_inv w" "registered_up w" "local_call a w"
  shows "safely (run_api a w) (\<lambda>w'. calm w w' \<and> conn_inv w' \<and> registered_up w')"
  using run_api_calm [OF assms] run_api_good [OF assms(1) order_refl, of a] registered_up_calm [OF assms(2)]
  by (cases "run_api a w") (auto simp: good_def)

lemma call_app_calm:
  assumes inv: "conn_inv w" and reg: "registered_up w" and app: "local_app app"
  shows "safely (call_app app ev w) (calm w)"
proof -
  let ?w = "w\<lparr>cn_trace := cn_trace w @ [ev]\<rparr>"
  have *: "conn_inv ?w \<and> registered_up ?w"
  proof
    show "registered_up ?w" using reg by (rule registered_up_calm) (rule calm_trace)
    have "net_inv ?w = net_inv w" by (rule net_inv_cong) simp_all
    moreover have "linked c cn ch el ?w = linked c cn ch el w" for c cn ch el by (simp add: linked_def)
    ultimately show "conn_inv ?w" using inv unfolding conn_inv_def by simp
  qed
  have "safely (fold_res run_api (app ev ?w) ?w) (calm ?w)"
  proof (rule calm_fold [where I = "\<lambda>w. conn_inv w \<and> registered_up w" and C = local_call])
    show "\<forall>a \<in> set (app ev ?w). local_call a ?w" using app by (simp add: local_app_def)
  qed (use * run_api_inv local_call_calm in auto)
  then show ?thesis unfolding call_app_def Let_def by (rule calm_from [OF calm_trace])
qed

lemma connectionCallback_calm:
  assumes "conn_inv w" "registered_up w" "local_app app"
  shows "safely (connectionCallback app c w) (calm w)"
  using call_app_calm [OF assms]
  by (auto simp: connectionCallback_def get_conn_def deref_def split: option.splits user_cb.splits)

lemma messageCallback_calm:
  assumes "conn_inv w" "registered_up w" "local_app app"
  shows "safely (messageCallback app t c w) (calm w)"
  using call_app_calm [OF assms] run_api_calm [OF assms(1,2), of "RetrieveAll c"]
  by (auto simp: messageCallback_def get_conn_def deref_def simp del: run_api.simps split: option.splits user_cb.splits)

end
