(* ===== verification/Server_Life.thy ===== *)
theory Server_Life
  imports Server Calm
begin

text \<open>
  The life of the connections of a server whose loops run in their own threads. A machine of all
  loops is put around the model of the code: every loop polls, handles the reported channels one
  after the other, swaps its functors out and runs them, and the steps of the loops and the calls
  of the application interleave in any way. A connection's object goes when nothing holds a
  \<open>shared_ptr\<close> to it any more: neither the server's map nor a functor that is queued or in a
  vector that is being run.
\<close>

section \<open>The machine\<close>

text \<open>
  Where a loop is: before its poll, at the reported channels, or at a vector of functors (all of
  them stay alive until the vector goes, the second list is still to run).
\<close>

datatype phase = Waiting | Handling "nat list" | Running "Functor list" "Functor list"

record machine = server_net +
  m_phase :: "nat \<Rightarrow> phase"

fun phase_todo :: "phase \<Rightarrow> Functor list" where
  "phase_todo (Running held fs) = fs"
| "phase_todo _ = []"

fun phase_held :: "phase \<Rightarrow> Functor list" where
  "phase_held (Running held fs) = held"
| "phase_held _ = []"

definition pending_at :: "nat \<Rightarrow> 'a net_scheme \<Rightarrow> Functor list" where
  "pending_at l w = (case n_loops w l of None \<Rightarrow> [] | Some el \<Rightarrow> pendingFunctors el)"

text \<open>The functors that loop \<open>l\<close> will still run, in order.\<close>

definition upcoming :: "nat \<Rightarrow> machine \<Rightarrow> Functor list" where
  "upcoming l w = phase_todo (m_phase w l) @ pending_at l w"

text \<open>Functors bound to a \<open>shared_ptr\<close>; a \<open>send\<close> or \<open>shutdown\<close> binds the raw pointer.\<close>

fun holds :: "Functor \<Rightarrow> nat option" where
  "holds (FConnectEstablished c) = Some c"
| "holds (FConnectDestroyed c) = Some c"
| "holds (FForceCloseInLoop c) = Some c"
| "holds (FRemoveConnectionInLoop c) = Some c"
| "holds (FWriteComplete c) = Some c"
| "holds (FHighWaterMark c n) = Some c"
| "holds (FSetCloseCallback c t) = Some c"
| "holds f = None"

definition held :: "nat \<Rightarrow> machine \<Rightarrow> bool" where
  "held c w \<longleftrightarrow> (\<exists>nm. sv_connections (sv w) nm = Some c)
     \<or> (\<exists>l. \<exists>f \<in> set (phase_held (m_phase w l)) \<union> set (upcoming l w). holds f = Some c)"

section \<open>The application's side\<close>

text \<open>
  The members of a connection are not synchronised: \<open>forceClose\<close> tests the state and writes it in
  two steps, the buffers have no lock. So they are called in the thread of its loop.
\<close>

fun confined_call :: "api \<Rightarrow> 'a conn_net_scheme \<Rightarrow> bool" where
  "confined_call (NewString p s) w = True"
| "confined_call (FreeString p) w = True"
| "confined_call (Send c p) w = own_thread c w"
| "confined_call (Shutdown c) w = own_thread c w"
| "confined_call (ForceClose c) w = own_thread c w"
| "confined_call (Retrieve c n) w = own_thread c w"
| "confined_call (RetrieveAll c) w = own_thread c w"

definition confined_app :: "(app_event \<Rightarrow> 'a conn_net_scheme \<Rightarrow> api list) \<Rightarrow> bool" where
  "confined_app app \<longleftrightarrow> (\<forall>ev w. \<forall>a \<in> set (app ev w). confined_call a w)"

lemma confined_local: "confined_call a w \<Longrightarrow> local_call a w"
  by (cases a) simp_all

lemma confined_app_local: "confined_app app \<Longrightarrow> local_app app"
  unfolding confined_app_def local_app_def using confined_local by blast

section \<open>Steps\<close>

definition set_phase :: "nat \<Rightarrow> phase \<Rightarrow> machine \<Rightarrow> machine" where
  "set_phase l p w = w\<lparr>m_phase := (m_phase w)(l := p)\<rparr>"

text \<open>A step of a loop is taken by its thread.\<close>

definition on_thread :: "nat \<Rightarrow> machine \<Rightarrow> machine" where
  "on_thread l w = w\<lparr>n_tid := (case n_loops w l of None \<Rightarrow> n_tid w | Some el \<Rightarrow> threadId el)\<rparr>"

definition poll_step :: "nat \<Rightarrow> poll_env \<Rightarrow> machine \<Rightarrow> machine res" where
  "poll_step l env w =
     bind_res (get_loop l w) (\<lambda>el. bind_res (poll env (el_poller el) (n_chans w)) (\<lambda>(p, cs, active).
       Inr (set_phase l (Handling active)
         (put_loop l (el\<lparr>el_poller := p, activeChannels := active\<rparr>) (w\<lparr>n_chans := cs\<rparr>)))))"

definition swap_step :: "nat \<Rightarrow> machine \<Rightarrow> machine res" where
  "swap_step l w = bind_res (get_loop l w) (\<lambda>el.
     Inr (set_phase l (Running (pendingFunctors el) (pendingFunctors el))
       (put_loop l (el\<lparr>el_calling := True, pendingFunctors := []\<rparr>) w)))"

definition finish_step :: "nat \<Rightarrow> machine \<Rightarrow> machine res" where
  "finish_step l w = bind_res (get_loop l w) (\<lambda>el.
     Inr (set_phase l Waiting (put_loop l (el\<lparr>el_calling := False\<rparr>) w)))"

text \<open>
  What the kernel promises (its answers to \<open>accept4\<close> are given when they are asked for, \<open>answers\<close>): one poll reports a descriptor at most once, and \<open>accept4\<close> returns a
  descriptor that is not open, of a connection that was not used yet.
\<close>

definition poll_env_ok :: "poll_env \<Rightarrow> bool" where
  "poll_env_ok env = (case env of Ready states \<Rightarrow> distinct (map fst states) | PollErr e \<Rightarrow> True)"

definition fresh_fd :: "int \<Rightarrow> 'a net_scheme \<Rightarrow> bool" where
  "fresh_fd fd w \<longleftrightarrow> (\<forall>d ch. n_chans w d = Some ch \<longrightarrow> ch_fd ch \<noteq> fd)"

definition accept_ok :: "'a server_net_scheme \<Rightarrow> bool" where
  "accept_ok w = (case next_accept w of AcceptErr e \<Rightarrow> True
     | Accepted sk p l c d \<Rightarrow> fresh_fd (sk_fd sk) w \<and> \<not> sk_fin sk)"

inductive machine_step :: "(app_event \<Rightarrow> machine \<Rightarrow> api list) \<Rightarrow> server_id \<Rightarrow> machine \<Rightarrow> machine res \<Rightarrow> bool"
  for app sid where
  polls: "m_phase w l = Waiting \<Longrightarrow> n_loops w l \<noteq> None \<Longrightarrow> poll_env_ok env \<Longrightarrow>
     machine_step app sid w (poll_step l env (on_thread l w))"
| event: "m_phase w l = Handling (d # ds) \<Longrightarrow> accept_ok w \<Longrightarrow>
     machine_step app sid w (handleEvent (get_chan d) (run_server_handler app sid t) conn_alive
       (on_thread l (set_phase l (Handling ds) w)))"
| swap: "m_phase w l = Handling [] \<Longrightarrow> n_loops w l \<noteq> None \<Longrightarrow>
     machine_step app sid w (swap_step l (on_thread l w))"
| run_functor: "m_phase w l = Running fs0 (f # fs) \<Longrightarrow>
     machine_step app sid w (run_server_functor app sid True f (on_thread l (set_phase l (Running fs0 fs) w)))"
| finish: "m_phase w l = Running fs0 [] \<Longrightarrow> n_loops w l \<noteq> None \<Longrightarrow>
     machine_step app sid w (finish_step l (on_thread l w))"
| answers: "machine_step app sid w (Inr (w\<lparr>sv_accepts := as\<rparr>))"
| call: "confined_call a (w\<lparr>n_tid := t\<rparr>) \<Longrightarrow> machine_step app sid w (run_api a (w\<lparr>n_tid := t\<rparr>))"
| collect: "cn_conns w c \<noteq> None \<Longrightarrow> \<not> held c w \<Longrightarrow> machine_step app sid w (destroy_conn c w)"

section \<open>The invariant\<close>

fun functor_valid :: "server_id \<Rightarrow> nat \<Rightarrow> 'a conn_net_scheme \<Rightarrow> Functor \<Rightarrow> bool" where
  "functor_valid sid l w (FConnectEstablished c) = lives_on c l w"
| "functor_valid sid l w (FConnectDestroyed c) = lives_on c l w"
| "functor_valid sid l w (FForceCloseInLoop c) = lives_on c l w"
| "functor_valid sid l w (FRemoveConnectionInLoop c) = (cn_conns w c \<noteq> None \<and> l = sv_loop sid)"
| "functor_valid sid l w (FWriteComplete c) = True"
| "functor_valid sid l w (FHighWaterMark c n) = True"
| "functor_valid sid l w (FUser n) = True"
| "functor_valid sid l w f = False"

text \<open>The functors that drive the life of a connection.\<close>

fun drives :: "Functor \<Rightarrow> nat option" where
  "drives (FConnectEstablished c) = Some c"
| "drives (FConnectDestroyed c) = Some c"
| "drives (FRemoveConnectionInLoop c) = Some c"
| "drives f = None"

text \<open>
  What is known of connection \<open>c\<close>: the kind of its state, how many times each of the three functors
  waits, whether the server's map has it, and the index of its channel.
\<close>

record profile =
  pf_kind :: kind
  pf_establish :: nat
  pf_remove :: nat
  pf_destroy :: nat
  pf_mapped :: bool
  pf_index :: int

definition profile_of :: "server_id \<Rightarrow> nat \<Rightarrow> machine \<Rightarrow> profile option" where
  "profile_of sid c w = (case cn_conns w c of None \<Rightarrow> None | Some cn \<Rightarrow>
     (case n_chans w (cn_channel cn) of None \<Rightarrow> None | Some ch \<Rightarrow> Some
       \<lparr>pf_kind = kind_of (cn_state cn),
        pf_establish = count_list (upcoming (cn_loop cn) w) (FConnectEstablished c),
        pf_remove = count_list (upcoming (sv_loop sid) w) (FRemoveConnectionInLoop c),
        pf_destroy = count_list (upcoming (cn_loop cn) w) (FConnectDestroyed c),
        pf_mapped = (sv_connections (sv w) (cn_name cn) = Some c),
        pf_index = ch_index ch\<rparr>))"

datatype life = Absent | Born | Alive | Closing | Removed | Dead

fun life_profile :: "life \<Rightarrow> profile option" where
  "life_profile Absent = None"
| "life_profile Born = Some \<lparr>pf_kind = Young, pf_establish = 1, pf_remove = 0, pf_destroy = 0,
     pf_mapped = True, pf_index = KNew\<rparr>"
| "life_profile Alive = Some \<lparr>pf_kind = Up, pf_establish = 0, pf_remove = 0, pf_destroy = 0,
     pf_mapped = True, pf_index = KAdded\<rparr>"
| "life_profile Closing = Some \<lparr>pf_kind = Down, pf_establish = 0, pf_remove = 1, pf_destroy = 0,
     pf_mapped = True, pf_index = KDelete\<rparr>"
| "life_profile Removed = Some \<lparr>pf_kind = Down, pf_establish = 0, pf_remove = 0, pf_destroy = 1,
     pf_mapped = False, pf_index = KDelete\<rparr>"
| "life_profile Dead = Some \<lparr>pf_kind = Down, pf_establish = 0, pf_remove = 0, pf_destroy = 0,
     pf_mapped = False, pf_index = KNew\<rparr>"

definition life_at :: "server_id \<Rightarrow> nat \<Rightarrow> machine \<Rightarrow> life \<Rightarrow> bool" where
  "life_at sid c w s \<longleftrightarrow> profile_of sid c w = life_profile s"

text \<open>The transitions of a life; in one thread two of them can be one step.\<close>

inductive life_step :: "life \<Rightarrow> life \<Rightarrow> bool" where
  "life_step Absent Born"
| "life_step Absent Alive"
| "life_step Born Alive"
| "life_step Alive Closing"
| "life_step Alive Removed"
| "life_step Closing Removed"
| "life_step Removed Dead"
| "life_step Dead Absent"

inductive_simps life_step_simps [simp]: "life_step a b"

definition plain :: "server_id \<Rightarrow> channel \<Rightarrow> 'a net_scheme \<Rightarrow> bool" where
  "plain sid ch w \<longleftrightarrow> writeCallback ch = None \<and> closeCallback ch = None \<and> errorCallback ch = None
     \<and> (readCallback ch = Some AcceptorHandleRead
        \<or> readCallback ch = Some (LoopHandleRead (ch_loop ch)) \<and> n_loops w (ch_loop ch) \<noteq> None)"

definition chans_ok :: "server_id \<Rightarrow> 'a conn_net_scheme \<Rightarrow> bool" where
  "chans_ok sid w \<longleftrightarrow> (\<forall>d ch. n_chans w d = Some ch \<longrightarrow>
     (\<exists>c cn. cn_conns w c = Some cn \<and> cn_channel cn = d) \<or> plain sid ch w)"

definition map_ok :: "server_id \<Rightarrow> 'a server_net_scheme \<Rightarrow> bool" where
  "map_ok sid w \<longleftrightarrow> 1 \<le> sv_nextConnId (sv w) \<and> sv_nextConnId (sv w) < 2 ^ 31 \<and> (\<forall>nm c. sv_connections (sv w) nm = Some c \<longrightarrow>
     (\<exists>cn. cn_conns w c = Some cn \<and> cn_name cn = nm)
     \<and> (\<exists>i. 1 \<le> i \<and> i < sv_nextConnId (sv w) \<and> nm = connName sid i))"

definition pool_ok :: "'a server_net_scheme \<Rightarrow> bool" where
  "pool_ok w \<longleftrightarrow> pool_inv (sv_pool (sv w))
     \<and> (\<forall>l \<in> set (getAllLoops (sv_pool (sv w))). n_loops w l \<noteq> None)"

definition handling_ok :: "machine \<Rightarrow> bool" where
  "handling_ok w \<longleftrightarrow> (\<forall>l ds. m_phase w l = Handling ds \<longrightarrow> distinct ds
     \<and> (\<forall>d \<in> set ds. \<exists>ch. n_chans w d = Some ch \<and> ch_loop ch = l \<and> ch_index ch = KAdded))"

definition valid_ok :: "server_id \<Rightarrow> machine \<Rightarrow> bool" where
  "valid_ok sid w \<longleftrightarrow> (\<forall>l. \<forall>f \<in> set (upcoming l w). functor_valid sid l w f)"

definition closers_ok :: "'a conn_net_scheme \<Rightarrow> bool" where
  "closers_ok w \<longleftrightarrow> (\<forall>c cn. cn_conns w c = Some cn \<longrightarrow> cn_closeCallback cn = Some ServerRemove)"

text \<open>\<open>but X\<close>: the connections of \<open>X\<close> are between two states of their lives.\<close>

definition server_inv_but :: "nat set \<Rightarrow> server_id \<Rightarrow> machine \<Rightarrow> bool" where
  "server_inv_but X sid w \<longleftrightarrow> conn_inv w \<and> registered_up w \<and> n_loops w (sv_loop sid) \<noteq> None
     \<and> chans_ok sid w \<and> map_ok sid w \<and> pool_ok w \<and> handling_ok w \<and> valid_ok sid w \<and> closers_ok w
     \<and> (\<forall>c. c \<notin> X \<longrightarrow> (\<exists>s. life_at sid c w s))"

abbreviation server_inv :: "server_id \<Rightarrow> machine \<Rightarrow> bool" where
  "server_inv \<equiv> server_inv_but {}"

end
