(* ===== verification/Server_Moves.thy ===== *)
theory Server_Moves
  imports Server_Life
begin

text \<open>
  How a step that is about one connection acts on the others: the relation \<open>moves c\<close> allows
  anything to happen to the life of \<open>c\<close> and nothing to the life of any other connection.
\<close>

section \<open>Definition\<close>

definition same_ident :: "conn \<Rightarrow> conn \<Rightarrow> bool" where
  "same_ident cn cn' \<longleftrightarrow> same_place cn cn' \<and> cn_name cn' = cn_name cn \<and> cn_closeCallback cn' = cn_closeCallback cn"

text \<open>Only \<open>c\<close>'s entry may leave the server's map; nothing else of the server changes.\<close>

definition server_moves :: "nat \<Rightarrow> server \<Rightarrow> server \<Rightarrow> bool" where
  "server_moves c s s' \<longleftrightarrow> s' = s\<lparr>sv_connections := sv_connections s'\<rparr>
     \<and> (\<forall>nm d. sv_connections s' nm = Some d \<longrightarrow> sv_connections s nm = Some d)
     \<and> (\<forall>nm d. d \<noteq> c \<and> sv_connections s nm = Some d \<longrightarrow> sv_connections s' nm = Some d)"

definition conns_move :: "nat \<Rightarrow> 'a conn_net_scheme \<Rightarrow> 'a conn_net_scheme \<Rightarrow> bool" where
  "conns_move c w w' \<longleftrightarrow> (\<forall>d. rel_option (if d = c then same_ident else same_conn) (cn_conns w d) (cn_conns w' d))"

definition chans_move :: "nat \<Rightarrow> 'a conn_net_scheme \<Rightarrow> 'a conn_net_scheme \<Rightarrow> bool" where
  "chans_move c w w' \<longleftrightarrow> (\<forall>d. rel_option (\<lambda>ch ch'. same_chan ch ch'
       \<or> (\<exists>cn. cn_conns w c = Some cn \<and> cn_channel cn = d)) (n_chans w d) (n_chans w' d))"

definition about :: "server_id \<Rightarrow> nat \<Rightarrow> 'a conn_net_scheme \<Rightarrow> nat \<Rightarrow> Functor \<Rightarrow> bool" where
  "about sid c w l f \<longleftrightarrow> functor_valid sid l w f \<and> (\<forall>d. drives f = Some d \<longrightarrow> d = c)"

definition moves :: "server_id \<Rightarrow> nat \<Rightarrow> machine \<Rightarrow> machine \<Rightarrow> bool" where
  "moves sid c w w' \<longleftrightarrow> evolves w w' \<and> conns_move c w w' \<and> chans_move c w w'
     \<and> queues (about sid c w) w w' \<and> m_phase w' = m_phase w \<and> server_moves c (sv w) (sv w')"

section \<open>A preorder\<close>

lemma same_ident_refl [simp]: "same_ident cn cn"
  by (simp add: same_ident_def)

lemma same_conn_ident: "same_conn cn cn' \<Longrightarrow> same_ident cn cn'"
  by (simp add: same_conn_def same_ident_def)

lemma same_ident_trans: "same_ident a b \<Longrightarrow> same_ident b c \<Longrightarrow> same_ident a c"
  using same_place_trans [of a b c] by (simp add: same_ident_def)

lemma conns_move_ident:
  assumes "conns_move c w w'"
  shows "rel_option same_ident (cn_conns w d) (cn_conns w' d)"
proof -
  have "rel_option (if d = c then same_ident else same_conn) (cn_conns w d) (cn_conns w' d)"
    using assms by (simp add: conns_move_def)
  then show ?thesis by (rule option.rel_mono_strong) (auto split: if_splits intro: same_conn_ident)
qed

lemma conns_move_some:
  assumes "conns_move c w w'" "cn_conns w d = Some dn"
  obtains dn' where "cn_conns w' d = Some dn'" "same_ident dn dn'" "d \<noteq> c \<Longrightarrow> same_conn dn dn'"
  using assms(1) [unfolded conns_move_def, rule_format, of d] assms(2)
  by (cases "cn_conns w' d") (auto split: if_splits intro: same_conn_ident)

lemma conns_move_back:
  assumes "conns_move c w w'" "cn_conns w' d = Some dn'"
  obtains dn where "cn_conns w d = Some dn" "same_ident dn dn'" "d \<noteq> c \<Longrightarrow> same_conn dn dn'"
  using assms(1) [unfolded conns_move_def, rule_format, of d] assms(2)
  by (cases "cn_conns w d") (auto split: if_splits intro: same_conn_ident)

lemma lives_on_move: "conns_move c w w' \<Longrightarrow> lives_on d l w' = lives_on d l w"
  using conns_move_ident [of c w w' d]
  by (cases "cn_conns w d"; cases "cn_conns w' d") (auto simp: lives_on_def same_ident_def same_place_def)

lemma live_move: "conns_move c w w' \<Longrightarrow> cn_conns w' d = None \<longleftrightarrow> cn_conns w d = None"
  using conns_move_ident [of c w w' d] by (cases "cn_conns w d"; cases "cn_conns w' d") auto

lemma valid_move: "conns_move c w w' \<Longrightarrow> functor_valid sid l w' f = functor_valid sid l w f"
  by (cases f) (simp_all add: lives_on_move live_move del: not_None_eq)

lemma conns_move_refl [simp]: "conns_move c w w"
  by (auto simp: conns_move_def intro: option.rel_refl)

lemma conns_move_trans:
  assumes "conns_move c u v" "conns_move c v w"
  shows "conns_move c u w"
  unfolding conns_move_def
proof
  fix d
  show "rel_option (if d = c then same_ident else same_conn) (cn_conns u d) (cn_conns w d)"
    by (rule rel_option_trans [OF assms(1) [unfolded conns_move_def, THEN spec, of d]
          assms(2) [unfolded conns_move_def, THEN spec, of d]])
      (auto split: if_splits intro: same_ident_trans same_conn_trans)
qed

lemma chans_move_refl [simp]: "chans_move c w w"
  by (auto simp: chans_move_def intro: option.rel_refl)

lemma chans_move_trans:
  assumes "chans_move c u v" "chans_move c v w" "conns_move c u v"
  shows "chans_move c u w"
  unfolding chans_move_def
proof
  fix d
  have own: "\<exists>cn. cn_conns u c = Some cn \<and> cn_channel cn = d" if "\<exists>cn. cn_conns v c = Some cn \<and> cn_channel cn = d"
    using that by (auto elim!: conns_move_back [OF assms(3)] simp: same_ident_def same_place_def)
  show "rel_option (\<lambda>ch ch'. same_chan ch ch' \<or> (\<exists>cn. cn_conns u c = Some cn \<and> cn_channel cn = d))
     (n_chans u d) (n_chans w d)"
    by (rule rel_option_trans [OF assms(1) [unfolded chans_move_def, THEN spec, of d]
          assms(2) [unfolded chans_move_def, THEN spec, of d]]) (use own same_chan_trans in blast)
qed

lemma server_moves_refl [simp]: "server_moves c s s"
  by (simp add: server_moves_def)

lemma but_connections_trans:
  "b = a\<lparr>sv_connections := sv_connections b\<rparr> \<Longrightarrow> d = b\<lparr>sv_connections := sv_connections d\<rparr>
   \<Longrightarrow> d = a\<lparr>sv_connections := sv_connections d\<rparr>" for a :: server
  by (cases a; cases b; cases d) simp

lemma server_moves_trans:
  assumes "server_moves c a b" "server_moves c b d"
  shows "server_moves c a d"
  unfolding server_moves_def
proof (intro conjI)
  show "d = a\<lparr>sv_connections := sv_connections d\<rparr>"
    by (rule but_connections_trans [of b a d]) (use assms in \<open>unfold server_moves_def, blast+\<close>)
qed (use assms in \<open>unfold server_moves_def, blast+\<close>)

lemma moves_refl [simp]: "moves sid c w w"
  by (simp add: moves_def)

lemma moves_trans:
  assumes "moves sid c u v" "moves sid c v w"
  shows "moves sid c u w"
proof -
  have u: "conns_move c u v" "conns_move c v w" using assms by (simp_all add: moves_def)
  have "queues (about sid c u) u w"
  proof (rule queues_trans [of "about sid c u" u v "about sid c v" w])
    show "about sid c u l f" if "about sid c v l f" for l f
      using that valid_move [OF u(1), of sid l f] by (simp add: about_def)
  qed (use assms in \<open>simp_all add: moves_def\<close>)
  then show ?thesis
    using assms evolves_trans [of u v w] conns_move_trans [OF u] chans_move_trans [of c u v w]
      server_moves_trans [of c "sv u" "sv v" "sv w"]
    by (simp add: moves_def)
qed

lemma moves_from: "moves sid c w x \<Longrightarrow> safely r (moves sid c x) \<Longrightarrow> safely r (moves sid c w)"
  by (erule safely_mono) (rule moves_trans)

section \<open>Moving steps\<close>

lemma benign_about: "benign l w f \<Longrightarrow> about sid c w l f"
  by (cases f) (simp_all add: about_def)

lemma calm_moves:
  assumes "calm w w'"
  shows "moves sid c w w'"
proof -
  have "conn_net.more w' = conn_net.more w" using assms by (simp add: calm_def)
  then have "m_phase w' = m_phase w" "sv w' = sv w"
    by (cases w; cases w'; simp)+
  moreover have "conns_move c w w'" unfolding conns_move_def
  proof
    fix d
    have "rel_option same_conn (cn_conns w d) (cn_conns w' d)" using assms by (simp add: calm_def same_conns_def)
    then show "rel_option (if d = c then same_ident else same_conn) (cn_conns w d) (cn_conns w' d)"
      by (rule option.rel_mono_strong) (auto intro: same_conn_ident)
  qed
  moreover have "chans_move c w w'" unfolding chans_move_def
  proof
    fix d
    have "rel_option same_chan (n_chans w d) (n_chans w' d)" using assms by (simp add: calm_def same_chans_def)
    then show "rel_option (\<lambda>ch ch'. same_chan ch ch' \<or> (\<exists>cn. cn_conns w c = Some cn \<and> cn_channel cn = d))
      (n_chans w d) (n_chans w' d)" by (rule option.rel_mono_strong) blast
  qed
  moreover have "queues (about sid c w) w w'"
    by (rule queues_mono [of "\<lambda>l. benign l w"]) (use assms benign_about in \<open>auto simp: calm_def\<close>)
  ultimately show ?thesis using assms by (simp add: moves_def calm_def)
qed

lemma machine_simps [simp]:
  "m_phase (put_loop l el w) = m_phase w" "sv (put_loop l el w) = sv w"
  "m_phase (put_chan d ch w) = m_phase w" "sv (put_chan d ch w) = sv w"
  "m_phase (put_conn c cn w) = m_phase w" "sv (put_conn c cn w) = sv w"
  "m_phase (setc c cn ch el w) = m_phase w" "sv (setc c cn ch el w) = sv w"
  "m_phase (upd_server f w) = m_phase w"
  by (simp_all add: put_loop_def put_chan_def put_conn_def setc_def upd_server_def)

lemma moves_queue:
  assumes "about sid c w l f"
  shows "safely (queueInLoop l f w) (moves sid c w)"
proof (cases "n_loops w l")
  case (Some el)
  have "queues (about sid c w) w (put_loop l (queued (n_tid w) f el) w)"
    by (rule queues_put_loop [OF Some, where new = "[f]"]) (use assms in simp_all)
  moreover have "conns_move c w (put_loop l (queued (n_tid w) f el) w)"
    "chans_move c w (put_loop l (queued (n_tid w) f el) w)"
    by (auto simp: conns_move_def chans_move_def intro: option.rel_refl)
  ultimately show ?thesis using Some
    by (simp add: queueInLoop_eq moves_def evolves_put_loop)
qed (simp add: queueInLoop_def get_loop_def)

lemma moves_setc:
  assumes l: "linked c cn ch el w" and cn': "same_ident cn cn'"
    and el': "pendingFunctors el' = pendingFunctors el" and ev: "evolves w (setc c cn' ch' el' w)"
  shows "moves sid c w (setc c cn' ch' el' w)"
proof -
  have p: "cn_loop cn' = cn_loop cn" "cn_channel cn' = cn_channel cn"
    using cn' by (simp_all add: same_ident_def same_place_def)
  have "conns_move c w (setc c cn' ch' el' w)"
    using l cn' by (auto simp: conns_move_def linked_def intro!: option.rel_refl)
  moreover have "chans_move c w (setc c cn' ch' el' w)"
    using l p by (auto simp: chans_move_def linked_def intro!: option.rel_refl)
  moreover have "queues (about sid c w) w (setc c cn' ch' el' w)"
    using l p el' by (auto simp: queues_def linked_def intro!: option.rel_refl)
  ultimately show ?thesis using ev by (simp add: moves_def)
qed

lemma moves_erase:
  assumes "sv_connections (sv w) nm = Some c"
  shows "moves sid c w (upd_server (\<lambda>s. s\<lparr>sv_connections := (sv_connections s)(nm := None)\<rparr>) w)"
proof -
  let ?w = "upd_server (\<lambda>s. s\<lparr>sv_connections := (sv_connections s)(nm := None)\<rparr>) w"
  have "conns_move c w ?w" "chans_move c w ?w" "queues (about sid c w) w ?w"
    by (auto simp: conns_move_def chans_move_def queues_cong intro: option.rel_refl)
  moreover have "server_moves c (sv w) (sv ?w)" using assms by (auto simp: server_moves_def)
  ultimately show ?thesis by (simp add: moves_def evolves_upd_server)
qed

end
