(* ===== verification/Server_Inv.thy ===== *)
theory Server_Inv
  imports Server_Moves
begin

text \<open>
  The invariant of the server under steps about one connection: a connection that the step is not
  about keeps its profile, and every part of the invariant that is not about the lives is kept.
\<close>

section \<open>Functors and profiles\<close>

lemma moves_upcoming:
  assumes "moves sid c w w'"
  obtains new where "upcoming l w' = upcoming l w @ new" "\<forall>f \<in> set new. about sid c w l f"
proof -
  have "queues (about sid c w) w w'" "m_phase w' = m_phase w" using assms by (simp_all add: moves_def)
  then show ?thesis
    using that by (cases "n_loops w l"; cases "n_loops w' l")
      (auto simp: queues_def upcoming_def pending_at_def dest!: spec [of _ l])
qed

lemma count_about:
  assumes "\<forall>f \<in> set new. about sid c w l f" "drives g = Some d" "d \<noteq> c"
  shows "count_list new g = 0"
proof -
  have "g \<notin> set new" using assms by (auto simp: about_def)
  then show ?thesis by simp
qed

lemma moves_counts:
  assumes "moves sid c w w'" "drives g = Some d" "d \<noteq> c"
  shows "count_list (upcoming l w') g = count_list (upcoming l w) g"
proof -
  obtain new where "upcoming l w' = upcoming l w @ new" "\<forall>f \<in> set new. about sid c w l f"
    using assms(1) by (rule moves_upcoming)
  then show ?thesis using count_about [OF _ assms(2,3)] by simp
qed

lemma moves_chan:
  assumes "chans_move c w w'" "n_chans w d = Some ch" "\<forall>cn. cn_conns w c = Some cn \<longrightarrow> cn_channel cn \<noteq> d"
  obtains ch' where "n_chans w' d = Some ch'" "ch_index ch' = ch_index ch"
  using assms(1) [unfolded chans_move_def, THEN spec, of d] assms(2,3)
  by (cases "n_chans w' d") (auto simp: same_chan_def)

lemma other_channel:
  assumes inv: "conn_inv w" and "cn_conns w c = Some cn" "cn_conns w d = Some dn" "d \<noteq> c"
  shows "cn_channel cn \<noteq> cn_channel dn"
proof -
  obtain ch el where "linked c cn ch el w" using inv assms(2) by (rule conn_invE)
  moreover obtain dh dl where "linked d dn dh dl w" using inv assms(3) by (rule conn_invE)
  ultimately show ?thesis using assms(4) linked_channels by blast
qed

lemma moves_mapped:
  assumes "server_moves c s s'" "d \<noteq> c"
  shows "sv_connections s' nm = Some d \<longleftrightarrow> sv_connections s nm = Some d"
  using assms unfolding server_moves_def by blast

theorem moves_profile:
  assumes inv: "conn_inv w" and m: "moves sid c w w'" and d: "d \<noteq> c"
  shows "profile_of sid d w' = profile_of sid d w"
proof (cases "cn_conns w d")
  case None
  moreover have "conns_move c w w'" using m by (simp add: moves_def)
  ultimately show ?thesis using live_move [of c w w' d] by (simp add: profile_of_def)
next
  case (Some dn)
  have parts: "conns_move c w w'" "chans_move c w w'" "server_moves c (sv w) (sv w')"
    using m by (simp_all add: moves_def)
  obtain dn' where dn': "cn_conns w' d = Some dn'" "same_conn dn dn'"
    using parts(1) Some d by (auto elim: conns_move_some)
  obtain ch el where "linked d dn ch el w" using inv Some by (rule conn_invE)
  then have ch: "n_chans w (cn_channel dn) = Some ch" by (simp add: linked_def)
  obtain ch' where ch': "n_chans w' (cn_channel dn) = Some ch'" "ch_index ch' = ch_index ch"
    using parts(2) ch by (rule moves_chan) (use other_channel [OF inv _ Some d] in blast)
  show ?thesis
    using Some dn' ch ch' moves_mapped [OF parts(3) d]
    by (simp add: profile_of_def same_conn_def same_place_def moves_counts [OF m _ d])
qed

section \<open>The parts of the invariant\<close>

text \<open>Channel \<open>d\<close> still waits in the list of a loop that handles reports.\<close>

definition reported :: "nat \<Rightarrow> machine \<Rightarrow> bool" where
  "reported d w \<longleftrightarrow> (\<exists>l ds. m_phase w l = Handling ds \<and> d \<in> set ds)"

lemma evolves_loop: "evolves w w' \<Longrightarrow> n_loops w l \<noteq> None \<Longrightarrow> n_loops w' l \<noteq> None"
  unfolding evolves_def by blast

lemma evolves_chan:
  assumes "evolves w w'" "n_chans w d = Some ch"
  obtains ch' where "n_chans w' d = Some ch'" "same_dispatch ch ch'" "ch_loop ch' = ch_loop ch" "ch_fd ch' = ch_fd ch"
  using assms unfolding evolves_def by blast

lemma plain_keeps: "plain sid ch w \<Longrightarrow> same_dispatch ch ch' \<Longrightarrow> ch_loop ch' = ch_loop ch \<Longrightarrow>
    (n_loops w (ch_loop ch) \<noteq> None \<Longrightarrow> n_loops w' (ch_loop ch) \<noteq> None) \<Longrightarrow> plain sid ch' w'"
  by (auto simp: plain_def same_dispatch_def)

lemma chans_ok_moves:
  assumes "chans_ok sid w" "moves sid c w w'"
  shows "chans_ok sid w'"
  unfolding chans_ok_def
proof (intro allI impI)
  fix d ch'
  assume ch': "n_chans w' d = Some ch'"
  have parts: "conns_move c w w'" "chans_move c w w'" "evolves w w'" using assms(2) by (simp_all add: moves_def)
  obtain ch where ch: "n_chans w d = Some ch"
    using parts(2) [unfolded chans_move_def, THEN spec, of d] ch' by (cases "n_chans w d") auto
  have sd: "same_dispatch ch ch'" "ch_loop ch' = ch_loop ch"
    using parts(3) ch ch' by (auto elim: evolves_chan)
  consider e en where "cn_conns w e = Some en" "cn_channel en = d" | "plain sid ch w"
    using assms(1) ch unfolding chans_ok_def by blast
  then show "(\<exists>c cn. cn_conns w' c = Some cn \<and> cn_channel cn = d) \<or> plain sid ch' w'"
  proof cases
    case 1
    obtain en' where "cn_conns w' e = Some en'" "same_ident en en'" using parts(1) 1(1) by (rule conns_move_some)
    with 1(2) show ?thesis by (auto simp: same_ident_def same_place_def)
  next
    case 2
    then show ?thesis using plain_keeps [OF 2 sd] evolves_loop [OF parts(3)] by blast
  qed
qed

lemma map_ok_moves:
  assumes "map_ok sid w" "moves sid c w w'"
  shows "map_ok sid w'"
proof -
  have parts: "conns_move c w w'" "server_moves c (sv w) (sv w')" using assms(2) by (simp_all add: moves_def)
  have next_id: "sv_nextConnId (sv w') = sv_nextConnId (sv w)"
    using parts(2) unfolding server_moves_def by (metis server.ext_inject server.surjective server.update_convs(9))
  have live: "\<exists>cn'. cn_conns w' d = Some cn' \<and> cn_name cn' = nm" if "cn_conns w d = Some cn" "cn_name cn = nm" for d cn nm
    using that conns_move_some [OF parts(1) that(1)] by (metis same_ident_def)
  have "sv_connections (sv w) nm = Some d" if "sv_connections (sv w') nm = Some d" for nm d
    using that parts(2) unfolding server_moves_def by blast
  then show ?thesis
    using assms(1) live unfolding map_ok_def next_id by blast
qed

lemma pool_ok_moves:
  assumes "pool_ok w" "moves sid c w w'"
  shows "pool_ok w'"
proof -
  have parts: "evolves w w'" "server_moves c (sv w) (sv w')" using assms(2) by (simp_all add: moves_def)
  have "sv_pool (sv w') = sv_pool (sv w)"
    using parts(2) unfolding server_moves_def by (metis server.ext_inject server.surjective server.update_convs(9))
  then show ?thesis using assms(1) evolves_loop [OF parts(1)] by (simp add: pool_ok_def)
qed

lemma handling_ok_moves:
  assumes h: "handling_ok w" and m: "moves sid c w w'"
    and c: "\<And>cn ch'. cn_conns w c = Some cn \<Longrightarrow> n_chans w' (cn_channel cn) = Some ch' \<Longrightarrow>
       ch_index ch' = KAdded \<or> \<not> reported (cn_channel cn) w"
  shows "handling_ok w'"
  unfolding handling_ok_def
proof (intro allI impI)
  fix l ds
  assume ds: "m_phase w' l = Handling ds"
  have parts: "chans_move c w w'" "evolves w w'" "m_phase w' = m_phase w" using m by (simp_all add: moves_def)
  have ds0: "m_phase w l = Handling ds" using ds parts(3) by simp
  have "\<exists>ch'. n_chans w' d = Some ch' \<and> ch_loop ch' = l \<and> ch_index ch' = KAdded" if d: "d \<in> set ds" for d
  proof -
    obtain ch where ch: "n_chans w d = Some ch" "ch_loop ch = l" "ch_index ch = KAdded"
      using h ds0 d unfolding handling_ok_def by blast
    obtain ch' where ch': "n_chans w' d = Some ch'" "ch_loop ch' = ch_loop ch"
      using parts(2) ch(1) by (rule evolves_chan)
    have "ch_index ch' = KAdded"
    proof (cases "\<exists>cn. cn_conns w c = Some cn \<and> cn_channel cn = d")
      case True
      then show ?thesis using c ch'(1) ds0 d unfolding reported_def by blast
    next
      case False
      then show ?thesis using moves_chan [OF parts(1) ch(1)] ch(3) ch'(1) by (metis option.inject)
    qed
    with ch' ch(2) show ?thesis by blast
  qed
  moreover have "distinct ds" using h ds0 unfolding handling_ok_def by blast
  ultimately show "distinct ds \<and> (\<forall>d\<in>set ds. \<exists>ch. n_chans w' d = Some ch \<and> ch_loop ch = l \<and> ch_index ch = KAdded)"
    by blast
qed

lemma valid_ok_moves:
  assumes "valid_ok sid w" "moves sid c w w'"
  shows "valid_ok sid w'"
  unfolding valid_ok_def
proof (intro allI ballI)
  fix l f
  assume f: "f \<in> set (upcoming l w')"
  obtain new where new: "upcoming l w' = upcoming l w @ new" "\<forall>f \<in> set new. about sid c w l f"
    using assms(2) by (rule moves_upcoming)
  have "functor_valid sid l w f" using f assms(1) new by (auto simp: valid_ok_def about_def)
  then show "functor_valid sid l w' f" using assms(2) valid_move [of c w w' sid l f] by (simp add: moves_def)
qed

lemma closers_ok_moves:
  assumes "closers_ok w" "moves sid c w w'"
  shows "closers_ok w'"
  unfolding closers_ok_def
proof (intro allI impI)
  fix d dn'
  assume "cn_conns w' d = Some dn'"
  moreover have "conns_move c w w'" using assms(2) by (simp add: moves_def)
  ultimately obtain dn where "cn_conns w d = Some dn" "same_ident dn dn'" by (auto elim: conns_move_back)
  then show "cn_closeCallback dn' = Some ServerRemove"
    using assms(1) by (simp add: closers_ok_def same_ident_def)
qed

text \<open>The registration condition, seen as part of a profile.\<close>

lemma life_profile_up: "life_profile s = Some pf \<Longrightarrow> pf_index pf = KAdded \<longleftrightarrow> pf_kind pf = Up"
  by (cases s) (auto simp: KAdded_def KNew_def KDelete_def)

definition up_registered :: "profile option \<Rightarrow> bool" where
  "up_registered po \<longleftrightarrow> (\<forall>pf. po = Some pf \<longrightarrow> (pf_index pf = KAdded \<longleftrightarrow> pf_kind pf = Up))"

lemma up_registered_life [simp]: "up_registered (life_profile s)"
  using life_profile_up by (simp add: up_registered_def)

lemma registered_up_profile: "registered_up w \<longleftrightarrow> (\<forall>c. up_registered (profile_of sid c w))"
proof -
  have "up_registered (profile_of sid c w) \<longleftrightarrow> (\<forall>cn ch. cn_conns w c = Some cn \<and> n_chans w (cn_channel cn) = Some ch \<longrightarrow>
      (ch_index ch = KAdded \<longleftrightarrow> kind_of (cn_state cn) = Up))" for c
    by (auto simp: up_registered_def profile_of_def split: option.split)
  then show ?thesis unfolding registered_up_def by simp
qed

section \<open>The invariant\<close>

lemma server_inv_butD:
  assumes "server_inv_but X sid w"
  shows "conn_inv w" "registered_up w" "n_loops w (sv_loop sid) \<noteq> None" "chans_ok sid w" "map_ok sid w"
    "pool_ok w" "handling_ok w" "valid_ok sid w" "closers_ok w" "c \<notin> X \<Longrightarrow> \<exists>s. life_at sid c w s"
  using assms by (simp_all add: server_inv_but_def)

text \<open>A step about \<open>c\<close> that leaves \<open>c\<close> with a channel registered as its state asks.\<close>

theorem moves_inv:
  assumes i: "server_inv_but X sid w" and m: "moves sid c w w'" and inv': "conn_inv w'"
    and reg: "up_registered (profile_of sid c w')"
    and chan: "\<And>cn ch'. cn_conns w c = Some cn \<Longrightarrow> n_chans w' (cn_channel cn) = Some ch' \<Longrightarrow>
       ch_index ch' = KAdded \<or> \<not> reported (cn_channel cn) w"
  shows "server_inv_but (insert c X) sid w'"
proof -
  note d = server_inv_butD [OF i]
  have p: "profile_of sid e w' = profile_of sid e w" if "e \<noteq> c" for e
    by (rule moves_profile [OF d(1) m that])
  have "up_registered (profile_of sid e w')" for e
    using reg p [of e] d(2) by (cases "e = c") (auto simp: registered_up_profile [where sid = sid])
  then have "registered_up w'" by (simp add: registered_up_profile [where sid = sid])
  moreover have "\<exists>s. life_at sid e w' s" if "e \<notin> insert c X" for e
    using that d(10) [of e] p [of e] by (simp add: life_at_def)
  moreover have "n_loops w' (sv_loop sid) \<noteq> None"
    using m d(3) evolves_loop [of w w' "sv_loop sid"] by (simp add: moves_def del: not_None_eq)
  ultimately show ?thesis
    using inv' chans_ok_moves [OF d(4) m] map_ok_moves [OF d(5) m] pool_ok_moves [OF d(6) m]
      handling_ok_moves [OF d(7) m chan] valid_ok_moves [OF d(8) m] closers_ok_moves [OF d(9) m]
    by (simp add: server_inv_but_def)
qed

lemma server_inv_settled:
  assumes "server_inv_but (insert c X) sid w" "life_at sid c w s"
  shows "server_inv_but X sid w"
  using assms by (auto simp: server_inv_but_def)

lemma server_inv_more: "server_inv_but X sid w \<Longrightarrow> X \<subseteq> Y \<Longrightarrow> server_inv_but Y sid w"
  by (auto simp: server_inv_but_def)

text \<open>A calm step changes no profile.\<close>

lemma calm_chan:
  assumes "calm w w'" "n_chans w d = Some ch"
  obtains ch' where "n_chans w' d = Some ch'" "ch_index ch' = ch_index ch"
proof -
  have "rel_option same_chan (n_chans w d) (n_chans w' d)" using assms(1) by (simp add: calm_def same_chans_def)
  with assms(2) that show ?thesis by (cases "n_chans w' d") (auto simp: same_chan_def)
qed

lemma calm_counts:
  assumes c: "calm w w'" and g: "drives g = Some d"
  shows "count_list (upcoming l w') g = count_list (upcoming l w) g"
proof -
  have q: "queues (\<lambda>l. benign l w) w w'" "m_phase w' = m_phase w"
    using c calm_moves [OF c, of undefined undefined] by (simp_all add: calm_def moves_def)
  have "g \<notin> set new" if "\<forall>f \<in> set new. benign l w f" for new
    using that g by (cases g) auto
  with q show ?thesis
    by (cases "n_loops w l"; cases "n_loops w' l")
      (auto simp: queues_def upcoming_def pending_at_def dest!: spec [of _ l])
qed

lemma calm_profile:
  assumes inv: "conn_inv w" and c: "calm w w'"
  shows "profile_of sid d w' = profile_of sid d w"
proof (cases "cn_conns w d")
  case None
  moreover have "rel_option same_conn (cn_conns w d) (cn_conns w' d)" using c by (simp add: calm_def same_conns_def)
  ultimately show ?thesis by (simp add: profile_of_def)
next
  case (Some dn)
  have s: "sv w' = sv w" using c by (cases w; cases w'; simp add: calm_def)
  have "rel_option same_conn (cn_conns w d) (cn_conns w' d)" using c by (simp add: calm_def same_conns_def)
  then obtain dn' where dn': "cn_conns w' d = Some dn'" "same_conn dn dn'" using Some by (cases "cn_conns w' d") auto
  obtain ch el where "linked d dn ch el w" using inv Some by (rule conn_invE)
  then have ch: "n_chans w (cn_channel dn) = Some ch" by (simp add: linked_def)
  obtain ch' where ch': "n_chans w' (cn_channel dn) = Some ch'" "ch_index ch' = ch_index ch" using c ch by (rule calm_chan)
  show ?thesis
    using Some dn' ch ch' s by (simp add: profile_of_def same_conn_def same_place_def calm_counts [OF c])
qed

theorem calm_inv:
  assumes i: "server_inv_but X sid w" and c: "calm w w'" and inv': "conn_inv w'"
  shows "server_inv_but X sid w'"
proof -
  note d = server_inv_butD [OF i]
  have p: "profile_of sid e w' = profile_of sid e w" for e by (rule calm_profile [OF d(1) c])
  have m: "moves sid e w w'" for e by (rule calm_moves [OF c])
  have "handling_ok w'"
  proof (rule handling_ok_moves [OF d(7) m [of 0]])
    fix cn ch'
    assume cn: "cn_conns w 0 = Some cn" and ch': "n_chans w' (cn_channel cn) = Some ch'"
    obtain ch el where "linked 0 cn ch el w" using d(1) cn by (rule conn_invE)
    then obtain ch where ch: "n_chans w (cn_channel cn) = Some ch" by (simp add: linked_def)
    with c ch' have "ch_index ch' = ch_index ch" by (metis calm_chan option.inject)
    moreover have "ch_index ch = KAdded" if "reported (cn_channel cn) w"
      using that d(7) ch unfolding reported_def handling_ok_def by fastforce
    ultimately show "ch_index ch' = KAdded \<or> \<not> reported (cn_channel cn) w" by metis
  qed
  then show ?thesis
    using d inv' m p registered_up_calm [OF d(2) c] chans_ok_moves [OF d(4) m] map_ok_moves [OF d(5) m]
      pool_ok_moves [OF d(6) m] valid_ok_moves [OF d(8) m] closers_ok_moves [OF d(9) m]
      evolves_loop [of w w' "sv_loop sid"] c
    by (simp add: server_inv_but_def life_at_def calm_def del: not_None_eq)
qed

end
