(* ===== verification/Server_Ops.thy ===== *)
theory Server_Ops
  imports Server_Inv
begin

text \<open>
  The operations that drive the life of a connection, as changes of its profile: for each what it
  turns the profile into, with the invariant of all other connections kept.
\<close>

section \<open>Steps about one connection\<close>

definition stands :: "server_id \<Rightarrow> nat \<Rightarrow> profile \<Rightarrow> machine \<Rightarrow> bool" where
  "stands sid c pf w \<longleftrightarrow> server_inv_but {c} sid w \<and> profile_of sid c w = Some pf"

definition turns :: "server_id \<Rightarrow> nat \<Rightarrow> profile set \<Rightarrow> machine \<Rightarrow> machine \<Rightarrow> bool" where
  "turns sid c P w w' \<longleftrightarrow> moves sid c w w' \<and> (\<exists>pf \<in> P. stands sid c pf w')"

lemma turns_refl: "stands sid c pf w \<Longrightarrow> pf \<in> P \<Longrightarrow> turns sid c P w w"
  by (auto simp: turns_def)

lemma turns_trans: "moves sid c w x \<Longrightarrow> turns sid c P x w' \<Longrightarrow> turns sid c P w w'"
  unfolding turns_def using moves_trans by blast

lemma turns_bind:
  assumes "safely r (turns sid c {pf} w)"
    and "\<And>x. stands sid c pf x \<Longrightarrow> moves sid c w x \<Longrightarrow> safely (f x) (turns sid c P x)"
  shows "safely (bind_res r f) (turns sid c P w)"
proof (cases r)
  case (Inr x)
  with assms(1) have x: "moves sid c w x" "stands sid c pf x" by (simp_all add: turns_def)
  then have "safely (f x) (turns sid c P x)" by (intro assms(2))
  then have "safely (f x) (turns sid c P w)" by (rule safely_mono) (rule turns_trans [OF x(1)])
  with Inr show ?thesis by simp
qed simp

lemma standsD:
  assumes "stands sid c pf w"
  shows "conn_inv w" "registered_up w" "n_loops w (sv_loop sid) \<noteq> None" "server_inv_but {c} sid w"
    "profile_of sid c w = Some pf" "valid_ok sid w"
  using assms server_inv_butD [of "{c}" sid w] by (simp_all add: stands_def)

lemma stands_conn:
  assumes "stands sid c pf w"
  obtains cn ch el where "cn_conns w c = Some cn" "linked c cn ch el w" "conn_local cn ch"
    "focused c cn ch el w" "setc c cn ch el w = w" "kind_of (cn_state cn) = pf_kind pf"
    "ch_index ch = pf_index pf" "pf_mapped pf \<longleftrightarrow> sv_connections (sv w) (cn_name cn) = Some c"
    "cn_closeCallback cn = Some ServerRemove" "n_loops w (cn_loop cn) = Some el" "n_chans w (cn_channel cn) = Some ch"
proof -
  note d = standsD [OF assms]
  obtain cn where cn: "cn_conns w c = Some cn" using d(5) by (auto simp: profile_of_def split: option.splits)
  obtain ch el where l: "linked c cn ch el w" "conn_local cn ch" "focused c cn ch el w" "setc c cn ch el w = w"
    using d(1) cn by (rule conn_invE)
  have "cn_closeCallback cn = Some ServerRemove" using d(4) cn by (auto simp: server_inv_but_def closers_ok_def)
  then show ?thesis
    using that [OF cn l] d(5) cn l(1) by (auto simp: profile_of_def linked_def)
qed

lemma stands_lives: "stands sid c pf w \<Longrightarrow> cn_conns w c = Some cn \<Longrightarrow> lives_on c (cn_loop cn) w"
  by (simp add: lives_on_def)

text \<open>Calls of the application.\<close>

lemma stands_calm:
  assumes s: "stands sid c pf w" and r: "safely r (calm w)" and g: "good E w r"
  shows "safely r (turns sid c {pf} w)"
proof (cases r)
  case (Inr w')
  then have *: "calm w w'" "conn_inv w'" using r g by (simp_all add: good_def)
  note d = standsD [OF s]
  have "server_inv_but {c} sid w'" by (rule calm_inv [OF d(4) *])
  moreover have "profile_of sid c w' = Some pf" using calm_profile [OF d(1) *(1)] d(5) by simp
  ultimately show ?thesis using Inr calm_moves [OF *(1)] by (simp add: turns_def stands_def)
qed simp

text \<open>Changes of the connection and its channel.\<close>

lemma upcoming_setc:
  assumes "linked c cn ch el w" "cn_loop cn' = cn_loop cn" "pendingFunctors el' = pendingFunctors el"
  shows "upcoming l (setc c cn' ch' el' w) = upcoming l w"
  using assms by (auto simp: upcoming_def pending_at_def linked_def)

lemma stands_setc:
  assumes s: "stands sid c pf w" and l: "linked c cn ch el w" and cn': "same_ident cn cn'"
    and el': "pendingFunctors el' = pendingFunctors el" and g: "good E w (Inr (setc c cn' ch' el' w))"
    and up: "ch_index ch' = KAdded \<longleftrightarrow> kind_of (cn_state cn') = Up"
    and rep: "ch_index ch' = KAdded \<or> \<not> reported (cn_channel cn) w"
  shows "turns sid c {pf\<lparr>pf_kind := kind_of (cn_state cn'), pf_index := ch_index ch'\<rparr>} w (setc c cn' ch' el' w)"
proof -
  note d = standsD [OF s]
  have g': "conn_inv (setc c cn' ch' el' w)" "evolves w (setc c cn' ch' el' w)"
    using good_InrD [OF g] by simp_all
  have m: "moves sid c w (setc c cn' ch' el' w)" by (rule moves_setc [OF l cn' el' g'(2)])
  have same: "cn_loop cn' = cn_loop cn" "cn_channel cn' = cn_channel cn" "cn_name cn' = cn_name cn"
    using cn' by (simp_all add: same_ident_def same_place_def)
  have p: "profile_of sid c (setc c cn' ch' el' w)
      = Some (pf\<lparr>pf_kind := kind_of (cn_state cn'), pf_index := ch_index ch'\<rparr>)"
    using d(5) l same
    by (auto simp: profile_of_def linked_def upcoming_setc [OF l same(1) el'])
  have "server_inv_but (insert c {c}) sid (setc c cn' ch' el' w)"
  proof (rule moves_inv [OF d(4) m g'(1)])
    show "up_registered (profile_of sid c (setc c cn' ch' el' w))" using up by (simp add: p up_registered_def)
    fix cn0 ch0
    assume "cn_conns w c = Some cn0" "n_chans (setc c cn' ch' el' w) (cn_channel cn0) = Some ch0"
    then show "ch_index ch0 = KAdded \<or> \<not> reported (cn_channel cn0) w" using l rep same by (simp add: linked_def)
  qed
  with m p show ?thesis by (simp add: turns_def stands_def)
qed

text \<open>A functor about the connection is queued.\<close>

definition bump :: "nat \<Rightarrow> Functor \<Rightarrow> profile \<Rightarrow> profile" where
  "bump c f pf = pf\<lparr>pf_establish := pf_establish pf + (if f = FConnectEstablished c then 1 else 0),
     pf_remove := pf_remove pf + (if f = FRemoveConnectionInLoop c then 1 else 0),
     pf_destroy := pf_destroy pf + (if f = FConnectDestroyed c then 1 else 0)\<rparr>"

lemma upcoming_queued:
  assumes "n_loops w l = Some el"
  shows "upcoming l' (put_loop l (queued t f el) w) = upcoming l' w @ (if l' = l then [f] else [])"
  using assms by (simp add: upcoming_def pending_at_def)

lemma queued_same_chan: "n_chans (put_loop l el w) = n_chans w" "cn_conns (put_loop l el w) = cn_conns w"
  by simp_all

lemma stands_queue:
  assumes s: "stands sid c pf w" and f: "about sid c w l f" and l: "n_loops w l \<noteq> None"
  shows "safely (queueInLoop l f w) (turns sid c {bump c f pf} w)"
proof -
  note d = standsD [OF s]
  obtain el where el: "n_loops w l = Some el" using l by blast
  let ?w = "put_loop l (queued (n_tid w) f el) w"
  have m: "moves sid c w ?w" using moves_queue [OF f] by (simp add: queueInLoop_eq [OF el])
  have inv: "conn_inv ?w" using queueInLoop_good [OF d(1) l, of "{}" f] by (simp add: queueInLoop_eq [OF el] good_def)
  obtain cn ch cl where cn: "cn_conns w c = Some cn" "n_chans w (cn_channel cn) = Some ch" "ch_index ch = pf_index pf"
      "kind_of (cn_state cn) = pf_kind pf"
    using s by (rule stands_conn)
  have at: "l = cn_loop cn" if "f = FConnectEstablished c \<or> f = FConnectDestroyed c"
    using f that cn(1) by (auto simp: about_def lives_on_def)
  have at': "l = sv_loop sid" if "f = FRemoveConnectionInLoop c" using f that by (simp add: about_def)
  have p: "profile_of sid c ?w = Some (bump c f pf)"
    using d(5) cn at at' by (cases pf) (auto simp: profile_of_def bump_def upcoming_queued [OF el])
  have "server_inv_but (insert c {c}) sid ?w"
  proof (rule moves_inv [OF d(4) m inv])
    show "up_registered (profile_of sid c ?w)"
      using d(2,5) p by (auto simp: up_registered_def bump_def registered_up_profile [where sid = sid])
    fix cn0 ch0
    assume *: "cn_conns w c = Some cn0" "n_chans ?w (cn_channel cn0) = Some ch0"
    have "ch_index ch0 = KAdded" if "reported (cn_channel cn0) w"
      using that * d(4) unfolding server_inv_but_def handling_ok_def reported_def by fastforce
    then show "ch_index ch0 = KAdded \<or> \<not> reported (cn_channel cn0) w" by blast
  qed
  with m p show ?thesis by (simp add: queueInLoop_eq [OF el] turns_def stands_def)
qed

text \<open>The connection leaves the server's map.\<close>

lemma stands_erase:
  assumes s: "stands sid c pf w" and cn: "cn_conns w c = Some cn" and m: "pf_mapped pf"
  shows "turns sid c {pf\<lparr>pf_mapped := False\<rparr>} w
    (upd_server (\<lambda>s. s\<lparr>sv_connections := (sv_connections s)(cn_name cn := None)\<rparr>) w)"
proof -
  let ?w = "upd_server (\<lambda>s. s\<lparr>sv_connections := (sv_connections s)(cn_name cn := None)\<rparr>) w"
  note d = standsD [OF s]
  obtain ch where c: "n_chans w (cn_channel cn) = Some ch" "sv_connections (sv w) (cn_name cn) = Some c"
    using s cn m by (auto elim!: stands_conn)
  have mv: "moves sid c w ?w" by (rule moves_erase [OF c(2)])
  have inv: "conn_inv ?w" using d(1) by (subst conn_inv_cong [of ?w w]) simp_all
  have up: "upcoming l ?w = upcoming l w" for l by (simp add: upcoming_def pending_at_def)
  have p: "profile_of sid c ?w = Some (pf\<lparr>pf_mapped := False\<rparr>)"
    using d(5) cn c by (auto simp: profile_of_def up)
  have "server_inv_but (insert c {c}) sid ?w"
  proof (rule moves_inv [OF d(4) mv inv])
    show "up_registered (profile_of sid c ?w)"
      using d(2,5) p by (auto simp: up_registered_def registered_up_profile [where sid = sid])
    fix cn0 ch0
    assume *: "cn_conns w c = Some cn0" "n_chans ?w (cn_channel cn0) = Some ch0"
    have "ch_index ch0 = KAdded" if "reported (cn_channel cn0) w"
      using that * d(4) unfolding server_inv_but_def handling_ok_def reported_def by fastforce
    then show "ch_index ch0 = KAdded \<or> \<not> reported (cn_channel cn0) w" by blast
  qed
  with mv p show ?thesis by (simp add: turns_def stands_def)
qed


section \<open>The operations\<close>

lemma turns_step:
  assumes t: "turns sid c {pf} w x"
    and r: "stands sid c pf x \<Longrightarrow> moves sid c w x \<Longrightarrow> safely r (turns sid c P x)"
  shows "safely r (turns sid c P w)"
proof -
  have x: "moves sid c w x" "stands sid c pf x" using t by (simp_all add: turns_def)
  show ?thesis using r [OF x(2,1)] by (rule safely_mono) (rule turns_trans [OF x(1)])
qed

lemma connectionCallback_turns:
  assumes "stands sid c pf w" "local_app app"
  shows "safely (connectionCallback app c w) (turns sid c {pf} w)"
proof -
  note d = standsD [OF assms(1)]
  obtain cn where "cn_conns w c = Some cn" using assms(1) by (rule stands_conn)
  then have "good app_faults w (connectionCallback app c w)" by (rule sw.connectionCallback_good [OF d(1)])
  then show ?thesis by (rule stands_calm [OF assms(1) connectionCallback_calm [OF d(1,2) assms(2)]])
qed

text \<open>\<open>connectEstablished\<close>: the channel is registered and the connection is up.\<close>

lemma connectEstablished_turns:
  assumes s: "stands sid c pf w" and y: "pf_kind pf = Young" and app: "local_app app"
  shows "safely (connectEstablished app c w) (turns sid c {pf\<lparr>pf_kind := Up, pf_index := KAdded\<rparr>} w)"
proof -
  obtain cn ch el where cn: "cn_conns w c = Some cn" "linked c cn ch el w" "focused c cn ch el w"
      "setc c cn ch el w = w" "kind_of (cn_state cn) = pf_kind pf" "n_chans w (cn_channel cn) = Some ch"
    using s by (rule stands_conn)
  let ?cn = "cn\<lparr>cn_state := kConnected\<rparr>" and ?tied = "tie_channel c ch"
  let ?ch = "masked EnableReading ?tied"
  let ?x = "setc c ?cn ?ch (synced (cn_channel cn) ?ch el) w"
  have st: "cn_state cn = kConnecting" using cn(5) y by (cases "cn_state cn") simp_all
  have f: "focused c ?cn ?tied el w"
    using focused_tied [OF focused_conn [OF _ cn(3), of ?cn]] by simp
  have p: "put_chan (cn_channel cn) ?tied (put_conn c ?cn w) = setc c ?cn ?tied el w"
    using setc_put_conn [of ?cn cn c ch el w] setc_put_chan [of "cn_channel cn" ?cn ?tied c ch el w] cn(4)
    by simp
  have x: "change_mask EnableReading (cn_channel cn) (put_chan (cn_channel cn) ?tied (put_conn c ?cn w)) = Inr ?x"
    unfolding p by (simp add: setc_change_mask [OF f])
  have g: "good {} w (Inr ?x)"
    using establish_state_good [OF standsD(1) [OF s] cn(1) st cn(6), of "{}"] unfolding x .
  have t: "turns sid c {pf\<lparr>pf_kind := Up, pf_index := KAdded\<rparr>} w ?x"
    using stands_setc [OF s cn(2) _ _ g] by (simp add: same_ident_def masked_index)
  have "safely (connectionCallback app c ?x) (turns sid c {pf\<lparr>pf_kind := Up, pf_index := KAdded\<rparr>} w)"
    by (rule turns_step [OF t]) (rule connectionCallback_turns [OF _ app])
  then show ?thesis unfolding connectEstablished_def using cn(1,6) x by (simp add: get_conn_def get_chan_def)
qed

text \<open>The removal from the server's map, in the server's loop or queued there.\<close>

lemma removeConnectionInLoop_turns:
  assumes s: "stands sid c pf w" and m: "pf_mapped pf"
  shows "safely (removeConnectionInLoop c w)
     (turns sid c {pf\<lparr>pf_mapped := False, pf_destroy := pf_destroy pf + 1\<rparr>} w)"
proof -
  obtain cn ch el where cn: "cn_conns w c = Some cn" "n_loops w (cn_loop cn) = Some el"
    using s by (rule stands_conn)
  let ?x = "upd_server (\<lambda>s. s\<lparr>sv_connections := (sv_connections s)(cn_name cn := None)\<rparr>) w"
  have "about sid c ?x (cn_loop cn) (FConnectDestroyed c)" using cn(1) by (simp add: about_def lives_on_def)
  moreover have "bump c (FConnectDestroyed c) (pf\<lparr>pf_mapped := False\<rparr>)
      = pf\<lparr>pf_mapped := False, pf_destroy := pf_destroy pf + 1\<rparr>" by (simp add: bump_def)
  ultimately have "safely (queueInLoop (cn_loop cn) (FConnectDestroyed c) ?x)
      (turns sid c {pf\<lparr>pf_mapped := False, pf_destroy := pf_destroy pf + 1\<rparr>} w)"
    using cn(2) turns_step [OF stands_erase [OF s cn(1) m]] stands_queue [of sid c "pf\<lparr>pf_mapped := False\<rparr>" ?x
      "cn_loop cn" "FConnectDestroyed c"] by simp
  then show ?thesis using cn(1) by (simp add: removeConnectionInLoop_def get_conn_def)
qed

lemma removeConnection_turns:
  assumes s: "stands sid c pf w" and m: "pf_mapped pf"
  shows "safely (removeConnection sid c w) (turns sid c {pf\<lparr>pf_mapped := False, pf_destroy := pf_destroy pf + 1\<rparr>,
     pf\<lparr>pf_remove := pf_remove pf + 1\<rparr>} w)"
proof -
  obtain cn where cn: "cn_conns w c = Some cn" using s by (rule stands_conn)
  have l: "n_loops w (sv_loop sid) \<noteq> None" using standsD(3) [OF s] .
  have "about sid c w (sv_loop sid) (FRemoveConnectionInLoop c)" using cn by (simp add: about_def)
  from stands_queue [OF s this l] have "safely (queueInLoop (sv_loop sid) (FRemoveConnectionInLoop c) w)
      (turns sid c {pf\<lparr>pf_remove := pf_remove pf + 1\<rparr>} w)" by (simp add: bump_def)
  then have q: "safely (queueInLoop (sv_loop sid) (FRemoveConnectionInLoop c) w)
      (turns sid c {pf\<lparr>pf_mapped := False, pf_destroy := pf_destroy pf + 1\<rparr>, pf\<lparr>pf_remove := pf_remove pf + 1\<rparr>} w)"
    by (rule safely_mono) (auto simp: turns_def)
  have "safely (removeConnectionInLoop c w)
      (turns sid c {pf\<lparr>pf_mapped := False, pf_destroy := pf_destroy pf + 1\<rparr>, pf\<lparr>pf_remove := pf_remove pf + 1\<rparr>} w)"
    using removeConnectionInLoop_turns [OF s m] by (rule safely_mono) (auto simp: turns_def)
  with q l show ?thesis by (auto simp: removeConnection_def runInLoop_def isInLoopThread_def get_loop_def)
qed

text \<open>\<open>handleClose\<close> of a connection that is up and whose report is no longer in a list.\<close>

lemma disabled_index: "ch_index ch = KAdded \<Longrightarrow> ch_index (masked DisableAll ch) = KDelete"
  by (simp add: masked_def next_index_def isNoneEvent_bits)

definition closings :: "profile \<Rightarrow> profile set" where
  "closings pf = {pf\<lparr>pf_kind := Down, pf_index := KDelete, pf_mapped := False, pf_destroy := pf_destroy pf + 1\<rparr>,
     pf\<lparr>pf_kind := Down, pf_index := KDelete, pf_remove := pf_remove pf + 1\<rparr>}"

definition up_profile :: "profile \<Rightarrow> bool" where
  "up_profile pf \<longleftrightarrow> pf_kind pf = Up \<and> pf_index pf = KAdded \<and> pf_mapped pf"

definition unreported :: "nat \<Rightarrow> machine \<Rightarrow> bool" where
  "unreported c w \<longleftrightarrow> (\<forall>cn. cn_conns w c = Some cn \<longrightarrow> \<not> reported (cn_channel cn) w)"

lemma handleClose_turns:
  assumes s: "stands sid c pf w" and up: "up_profile pf" and rep: "unreported c w" and app: "local_app app"
  shows "safely (handleClose app (server_close sid) c w) (turns sid c (closings pf) w)"
proof -
  obtain cn ch el where cn: "cn_conns w c = Some cn" "linked c cn ch el w" "focused c cn ch el w"
      "setc c cn ch el w = w" "ch_index ch = pf_index pf"
    using s by (rule stands_conn)
  let ?cn = "cn\<lparr>cn_state := kDisconnected\<rparr>" and ?ch = "masked DisableAll ch"
  let ?x = "setc c ?cn ?ch (synced (cn_channel cn) ?ch el) w" and ?pf = "pf\<lparr>pf_kind := Down, pf_index := KDelete\<rparr>"
  have f: "focused c ?cn ch el w" using focused_conn [OF _ cn(3), of ?cn] by simp
  have p: "put_conn c ?cn w = setc c ?cn ch el w"
    using setc_put_conn [of ?cn cn c ch el w] cn(4) by simp
  have x: "change_mask DisableAll (cn_channel cn) (put_conn c ?cn w) = Inr ?x"
    unfolding p by (simp add: setc_change_mask [OF f])
  have g: "good {} w (Inr ?x)" using close_state_good [OF standsD(1) [OF s] cn(1), of "{}"] unfolding x .
  have t: "turns sid c {?pf} w ?x"
    using stands_setc [OF s cn(2) _ _ g] rep cn(1,5) up
    by (simp add: unreported_def up_profile_def same_ident_def disabled_index KAdded_def KDelete_def)
  have close: "safely (closeCallback_call (server_close sid) c y) (turns sid c (closings pf) y)" if y: "stands sid c ?pf y" for y
  proof -
    obtain cy where "cn_conns y c = Some cy" "cn_closeCallback cy = Some ServerRemove" using y by (rule stands_conn)
    then show ?thesis using removeConnection_turns [OF y] up
      by (simp add: up_profile_def closings_def closeCallback_call_def get_conn_def server_close_def)
  qed
  have "safely (bind_res (connectionCallback app c ?x) (closeCallback_call (server_close sid) c)) (turns sid c (closings pf) w)"
    by (rule turns_step [OF t], rule turns_bind, rule connectionCallback_turns [OF _ app], assumption) (rule close)
  then show ?thesis unfolding handleClose_def using cn(1) x by (simp add: get_conn_def)
qed

text \<open>\<open>connectDestroyed\<close> of a connection that is down.\<close>

lemma connectDestroyed_turns:
  assumes s: "stands sid c pf w" and down: "pf_kind pf = Down" "pf_index pf = KDelete"
  shows "safely (connectDestroyed app c w) (turns sid c {pf\<lparr>pf_index := KNew\<rparr>} w)"
proof -
  obtain cn ch el where cn: "cn_conns w c = Some cn" "linked c cn ch el w" "focused c cn ch el w"
      "setc c cn ch el w = w" "ch_index ch = pf_index pf" "kind_of (cn_state cn) = pf_kind pf"
      "n_chans w (cn_channel cn) = Some ch"
    using s by (rule stands_conn)
  let ?ch = "ch\<lparr>ch_index := KNew\<rparr>"
  let ?x = "setc c cn ?ch (synced (cn_channel cn) ?ch el) w"
  have x: "chan_remove (cn_channel cn) w = Inr ?x"
    using setc_chan_remove [OF cn(3), of "cn_channel cn"] unfolding cn(4) by simp
  have g: "good {} w (Inr ?x)" using remove_good [OF standsD(1) [OF s] cn(1), of "{}"] unfolding x .
  have "\<not> reported (cn_channel cn) w"
  proof
    assume "reported (cn_channel cn) w"
    moreover have "handling_ok w" using standsD(4) [OF s] by (simp add: server_inv_but_def)
    ultimately show False using cn(5,7) down(2) unfolding reported_def handling_ok_def
      by (fastforce simp: KAdded_def KDelete_def)
  qed
  then have "turns sid c {pf\<lparr>pf_kind := Down, pf_index := KNew\<rparr>} w ?x"
    using stands_setc [OF s cn(2) _ _ g] cn(6) down(1) by (simp add: same_ident_def KNew_def KAdded_def)
  then have "turns sid c {pf\<lparr>pf_index := KNew\<rparr>} w ?x" using down(1) by (cases pf) simp
  moreover have "cn_state cn \<noteq> kConnected" using cn(6) down(1) by auto
  ultimately show ?thesis unfolding connectDestroyed_def using cn(1) x by (simp add: get_conn_def)
qed

lemma turns_mono: "safely r (turns sid c P w) \<Longrightarrow> P \<subseteq> Q \<Longrightarrow> safely r (turns sid c Q w)"
  by (erule safely_mono) (auto simp: turns_def)

lemma forceCloseInLoop_turns:
  assumes s: "stands sid c pf w" and up: "pf_kind pf = Up \<Longrightarrow> up_profile pf" and rep: "unreported c w"
    and app: "local_app app"
  shows "safely (forceCloseInLoop app (server_close sid) c w)
     (turns sid c (if pf_kind pf = Up then closings pf else {pf}) w)"
proof -
  obtain cn where cn: "cn_conns w c = Some cn" "kind_of (cn_state cn) = pf_kind pf"
    using s by (rule stands_conn)
  then have "cn_state cn = kConnected \<or> cn_state cn = kDisconnecting \<longleftrightarrow> pf_kind pf = Up"
    by (cases "cn_state cn") auto
  then show ?thesis
    using cn(1) handleClose_turns [OF s up rep app] turns_refl [OF s]
    by (auto simp: forceCloseInLoop_def get_conn_def)
qed

lemma unreported_calm:
  assumes "unreported c w" "calm w w'"
  shows "unreported c w'"
proof -
  have "m_phase w' = m_phase w" using calm_moves [OF assms(2), of undefined undefined] by (simp add: moves_def)
  then have r: "reported d w' = reported d w" for d by (simp add: reported_def)
  have "rel_option same_conn (cn_conns w c) (cn_conns w' c)" using assms(2) by (simp add: calm_def same_conns_def)
  then show ?thesis
    using assms(1) unfolding unreported_def r
    by (cases "cn_conns w c"; cases "cn_conns w' c") (auto simp: same_conn_def same_place_def)
qed

text \<open>\<open>handleRead\<close>: a message, an error, or the end of the stream.\<close>

lemma handleRead_turns:
  assumes s: "stands sid c pf w" and up: "up_profile pf" and rep: "unreported c w" and app: "local_app app"
  shows "safely (handleRead app (server_close sid) t c w) (turns sid c (insert pf (closings pf)) w)"
proof -
  obtain cn ch el where cn: "cn_conns w c = Some cn" "conn_local cn ch" using s by (rule stands_conn)
  have wf: "wf_buffer (cn_inputBuffer cn)" using cn(2) by (simp add: conn_local_def)
  let ?env = "next_read (cn_socket cn)"
  show ?thesis
  proof (cases "readFd ?env 0 (cn_inputBuffer cn)")
    case (Inl e)
    then show ?thesis using cn(1) by (simp add: handleRead_def get_conn_def)
  next
    case (Inr x)
    obtain n e b where x: "x = (n, e, b)" by (cases x)
    let ?cn = "cn\<lparr>cn_inputBuffer := b, cn_socket := (cn_socket cn)\<lparr>sk_reads := tl (sk_reads (cn_socket cn))\<rparr>\<rparr>"
    let ?w = "put_conn c ?cn w"
    have b: "wf_buffer b" using readFd_safe [OF wf, of ?env 0] Inr x by simp
    have sc: "same_conn cn ?cn" by (simp add: same_conn_def same_place_def)
    have k: "calm w ?w" by (rule calm_put_conn [OF cn(1) sc])
    have "advances cn ?cn" by (simp add: advances_def stream_def pending_out_def same_place_def)
    then have g: "good app_faults w (Inr ?w)"
      by (rule good_put_conn [OF standsD(1) [OF s] cn(1)]) (use b in \<open>simp add: conn_local_def pending_out_def\<close>)
    have "turns sid c {pf} w ?w" using stands_calm [OF s _ g] k by simp
    then have "safely (if n > 0 then messageCallback app t c ?w
         else if n = 0 then handleClose app (server_close sid) c ?w else handleError c ?w)
        (turns sid c (insert pf (closings pf)) w)"
    proof (rule turns_step)
      assume y: "stands sid c pf ?w"
      have "good app_faults ?w (messageCallback app t c ?w)"
        by (rule sw.messageCallback_good [OF standsD(1) [OF y]]) simp
      then have "safely (messageCallback app t c ?w) (turns sid c {pf} ?w)"
        by (rule stands_calm [OF y messageCallback_calm [OF standsD(1,2) [OF y] app]])
      then have 1: "safely (messageCallback app t c ?w) (turns sid c (insert pf (closings pf)) ?w)"
        by (rule turns_mono) simp
      have "safely (handleClose app (server_close sid) c ?w) (turns sid c (closings pf) ?w)"
        by (rule handleClose_turns [OF y up unreported_calm [OF rep k] app])
      then have 2: "safely (handleClose app (server_close sid) c ?w) (turns sid c (insert pf (closings pf)) ?w)"
        by (rule turns_mono) blast
      have "safely (handleError c ?w) (turns sid c (insert pf (closings pf)) ?w)"
        using turns_refl [OF y, of "insert pf (closings pf)"] by (simp add: handleError_def get_conn_def)
      with 1 2 show "safely (if n > 0 then messageCallback app t c ?w
         else if n = 0 then handleClose app (server_close sid) c ?w else handleError c ?w)
        (turns sid c (insert pf (closings pf)) ?w)"
        by presburger
    qed
    then show ?thesis using cn(1) Inr x by (simp add: handleRead_def get_conn_def Let_def cong: if_cong)
  qed
qed

end
