(* ===== verification/Server_Events.thy ===== *)
theory Server_Events
  imports Server_Ops
begin

text \<open>
  What an event report of a connection's channel makes of its life, and how a new connection is
  born.
\<close>

section \<open>Event reports\<close>

lemma unreported_moves:
  assumes "unreported c w" "moves sid c w w'"
  shows "unreported c w'"
  unfolding unreported_def
proof (intro allI impI)
  fix cn'
  assume "cn_conns w' c = Some cn'"
  moreover have m: "conns_move c w w'" "m_phase w' = m_phase w" using assms(2) by (simp_all add: moves_def)
  ultimately obtain cn where "cn_conns w c = Some cn" "same_ident cn cn'" by (auto elim: conns_move_back)
  then show "\<not> reported (cn_channel cn') w'"
    using assms(1) m(2) by (simp add: unreported_def same_ident_def same_place_def reported_def)
qed

text \<open>The write and the error handler leave the life of the connection alone.\<close>

lemma write_error_turns:
  assumes s: "stands sid c pf w" and k: "pf_kind pf \<noteq> Young" and h: "h = ConnHandleWrite c \<or> h = ConnHandleError c"
  shows "safely (run_server_handler app sid t h w) (turns sid c {pf} w)"
proof -
  obtain cn where cn: "cn_conns w c = Some cn" "kind_of (cn_state cn) = pf_kind pf" using s by (rule stands_conn)
  note d = standsD [OF s]
  have "safely (handleWrite c w) (turns sid c {pf} w)"
    by (rule stands_calm [OF s handleWrite_calm [OF d(1) cn(1) d(2)] sw.handleWrite_good [OF d(1) cn(1)]])
      (use k cn(2) in simp)
  moreover have "safely (handleError c w) (turns sid c {pf} w)"
    using turns_refl [OF s, of "{pf}"] by (simp add: handleError_def get_conn_def)
  ultimately show ?thesis using h by (auto simp: run_server_handler_def run_conn_handler_def)
qed

lemma write_errors_turn:
  assumes "stands sid c pf w" "pf_kind pf \<noteq> Young" "\<forall>h \<in> set hs. h = ConnHandleWrite c \<or> h = ConnHandleError c"
  shows "safely (fold_res (run_server_handler app sid t) hs w) (turns sid c {pf} w)"
  using assms
proof (induction hs arbitrary: w)
  case Nil
  then show ?case using turns_refl [of sid c pf w "{pf}"] by simp
next
  case (Cons h hs)
  show ?case unfolding fold_res.simps
  proof (rule turns_bind)
    show "safely (run_server_handler app sid t h w) (turns sid c {pf} w)"
      using Cons.prems by (intro write_error_turns) simp_all
  qed (use Cons in simp)
qed

text \<open>At most one handler of a report can close, and the write handler comes last.\<close>

lemma fired_shape:
  assumes "owns c cn ch"
  obtains as m bs where "fired ch = as @ m @ bs"
    "\<forall>h \<in> set as. h = ConnHandleWrite c \<or> h = ConnHandleError c"
    "\<forall>h \<in> set bs. h = ConnHandleWrite c \<or> h = ConnHandleError c"
    "m = [] \<or> m = [ConnHandleRead c] \<or> m = [ConnHandleClose c]"
proof (cases "bit (ch_revents ch) 0")
  case True
  show ?thesis
    by (rule that [of "if bit (ch_revents ch) 3 then [ConnHandleError c] else []" "[ConnHandleRead c]"
        "if bit (ch_revents ch) 2 then [ConnHandleWrite c] else []"])
      (use assms True in \<open>auto simp: fired_def owns_def\<close>)
next
  case False
  show ?thesis
    by (rule that [of "[]" "if bit (ch_revents ch) 4 then [ConnHandleClose c] else []"
        "(if bit (ch_revents ch) 3 then [ConnHandleError c] else [])
         @ (if bit (ch_revents ch) 2 then [ConnHandleWrite c] else [])"])
      (use assms False in \<open>auto simp: fired_def owns_def\<close>)
qed

lemma closings_down: "pf' \<in> closings pf \<Longrightarrow> pf_kind pf' = Down"
  by (auto simp: closings_def)

lemma turns_then:
  assumes r: "safely r (turns sid c P w)"
    and f: "\<And>x pf. pf \<in> P \<Longrightarrow> stands sid c pf x \<Longrightarrow> moves sid c w x \<Longrightarrow> safely (f x) (turns sid c Q x)"
  shows "safely (bind_res r f) (turns sid c Q w)"
proof (cases r)
  case (Inr x)
  with r obtain pf where "pf \<in> P" "stands sid c pf x" "moves sid c w x" by (auto simp: turns_def)
  note x = this
  have "safely (f x) (turns sid c Q w)"
    using f [OF x] by (rule safely_mono) (rule turns_trans [OF x(3)])
  with Inr show ?thesis by simp
qed simp

theorem conn_event_turns:
  assumes s: "stands sid c pf w" and up: "up_profile pf" and rep: "unreported c w" and app: "local_app app"
    and own: "owns c cn ch"
  shows "safely (fold_res (run_server_handler app sid t) (fired ch) w) (turns sid c (insert pf (closings pf)) w)"
proof -
  let ?run = "fold_res (run_server_handler app sid t)" and ?Q = "insert pf (closings pf)"
  obtain as m bs where f: "fired ch = as @ m @ bs"
    and as: "\<forall>h \<in> set as. h = ConnHandleWrite c \<or> h = ConnHandleError c"
    and bs: "\<forall>h \<in> set bs. h = ConnHandleWrite c \<or> h = ConnHandleError c"
    and m: "m = [] \<or> m = [ConnHandleRead c] \<or> m = [ConnHandleClose c]"
    using own by (rule fired_shape)
  have kind: "pf' \<in> ?Q \<Longrightarrow> pf_kind pf' \<noteq> Young" for pf'
    using closings_down [of pf' pf] up by (auto simp: up_profile_def)
  have late: "safely (?run bs x) (turns sid c ?Q x)" if "pf' \<in> ?Q" "stands sid c pf' x" for pf' x
    by (rule turns_mono [OF write_errors_turn [OF that(2) kind [OF that(1)] bs]]) (use that(1) in simp)
  have middle: "safely (?run m x) (turns sid c ?Q x)" if x: "stands sid c pf x" "moves sid c w x" for x
  proof -
    have "safely (handleRead app (server_close sid) t c x) (turns sid c ?Q x)"
      by (rule handleRead_turns [OF x(1) up unreported_moves [OF rep x(2)] app])
    moreover have "safely (handleClose app (server_close sid) c x) (turns sid c ?Q x)"
      by (rule turns_mono [OF handleClose_turns [OF x(1) up unreported_moves [OF rep x(2)] app]]) blast
    ultimately show ?thesis
      using m turns_refl [OF x(1), of ?Q]
      by (auto simp: run_server_handler_def run_conn_handler_def)
  qed
  show ?thesis unfolding f fold_res_append [of _ as] 
  proof (rule turns_bind [OF write_errors_turn [OF s _ as]])
    show "pf_kind pf \<noteq> Young" using kind by simp
    show "safely (?run (m @ bs) x) (turns sid c ?Q x)" if "stands sid c pf x" "moves sid c w x" for x
      unfolding fold_res_append by (rule turns_then [OF middle [OF that]]) (rule late)
  qed
qed

end
