(* ===== verification/Server_Birth.thy ===== *)
theory Server_Birth
  imports Server_Events
begin

text \<open>How a new connection is born: \<open>newConnection\<close> with fresh names, and its first state.\<close>

section \<open>Names\<close>

text \<open>The address of the server fits into the buffer with any number; \<open>toIpPort\<close> gives at most 21 characters.\<close>

definition short_ipPort :: "server_id \<Rightarrow> bool" where
  "short_ipPort sid \<longleftrightarrow> length (sv_ipPort sid) \<le> 51"

lemma connName_short:
  assumes "short_ipPort sid" "0 \<le> i" "i < 2 ^ 31"
  shows "connName sid i = sv_name sid @ ''-'' @ sv_ipPort sid @ ''#'' @ decimal (nat i)"
proof -
  have "nat i < 10 ^ Suc 9" using assms(2,3) by simp
  then have "length (decimal (nat i)) \<le> Suc 9" by (rule length_decimal)
  then show ?thesis using assms by (simp add: connName_def snprintf_def decimal_int_def short_ipPort_def)
qed

lemma connName_inj:
  assumes "short_ipPort sid" "0 \<le> i" "i < 2 ^ 31" "0 \<le> j" "j < 2 ^ 31" "connName sid i = connName sid j"
  shows "i = j"
proof -
  have "decimal (nat i) = decimal (nat j)"
    using assms(6) connName_short [OF assms(1-3)] connName_short [OF assms(1,4,5)] by simp
  then have "nat i = nat j" by (rule decimal_inj)
  with assms(2,4) show ?thesis by simp
qed

section \<open>The new state\<close>

abbreviation born_profile :: profile where
  "born_profile \<equiv> \<lparr>pf_kind = Young, pf_establish = 0, pf_remove = 0, pf_destroy = 0, pf_mapped = True, pf_index = KNew\<rparr>"

text \<open>\<open>x\<close> is \<open>w\<close> with the connection \<open>c\<close>, its channel at \<open>d\<close>, its name in the map and the next number.\<close>

definition extends :: "server_id \<Rightarrow> nat \<Rightarrow> conn \<Rightarrow> channel \<Rightarrow> pool \<Rightarrow> machine \<Rightarrow> machine \<Rightarrow> bool" where
  "extends sid c cn ch p w x \<longleftrightarrow> cn_conns x = (cn_conns w)(c \<mapsto> cn)
     \<and> n_chans x = (n_chans w)(cn_channel cn \<mapsto> ch) \<and> n_loops x = n_loops w \<and> m_phase x = m_phase w
     \<and> sv_connections (sv x) = (sv_connections (sv w))(cn_name cn \<mapsto> c)
     \<and> sv_nextConnId (sv x) = sv_nextConnId (sv w) + 1 \<and> sv_pool (sv x) = p
     \<and> cn_conns w c = None \<and> n_chans w (cn_channel cn) = None
     \<and> cn_state cn = kConnecting \<and> cn_closeCallback cn = Some ServerRemove \<and> ch_index ch = KNew
     \<and> cn_name cn = connName sid (sv_nextConnId (sv w))"

lemma extends_upcoming: "extends sid c cn ch p w x \<Longrightarrow> upcoming l x = upcoming l w"
  by (simp add: extends_def upcoming_def pending_at_def)

lemma extends_valid:
  assumes "extends sid c cn ch p w x" "functor_valid sid l w f"
  shows "functor_valid sid l x f"
  using assms by (cases f) (auto simp: extends_def lives_on_def)

lemma stale_absent:
  assumes "valid_ok sid w" "cn_conns w c = None" "drives f = Some c"
  shows "count_list (upcoming l w) f = 0"
proof -
  have "f \<notin> set (upcoming l w)"
  proof
    assume "f \<in> set (upcoming l w)"
    then have "functor_valid sid l w f" using assms(1) by (simp add: valid_ok_def)
    with assms(2,3) show False by (cases f) (auto simp: lives_on_def)
  qed
  then show ?thesis by simp
qed

lemma name_is_new:
  assumes "map_ok sid w" "short_ipPort sid"
  shows "sv_connections (sv w) (connName sid (sv_nextConnId (sv w))) = None"
proof (rule ccontr)
  let ?n = "sv_nextConnId (sv w)"
  assume "sv_connections (sv w) (connName sid ?n) \<noteq> None"
  then obtain i where "1 \<le> i" "i < ?n" "connName sid ?n = connName sid i" "?n < 2 ^ 31"
    using assms(1) unfolding map_ok_def by blast
  then show False using connName_inj [OF assms(2), of ?n i] by simp
qed

lemma extends_profile:
  assumes x: "extends sid c cn ch p w x" and inv: "conn_inv w" and v: "valid_ok sid w"
    and nm: "sv_connections (sv w) (cn_name cn) = None"
  shows "profile_of sid c x = Some born_profile" "e \<noteq> c \<Longrightarrow> profile_of sid e x = profile_of sid e w"
    "profile_of sid c w = None"
proof -
  have c: "cn_conns w c = None" using x by (simp add: extends_def)
  then show "profile_of sid c w = None" by (simp add: profile_of_def)
  have "count_list (upcoming l x) f = 0" if "drives f = Some c" for l f
    unfolding extends_upcoming [OF x] by (rule stale_absent [OF v c that])
  note stale = this [of "FConnectEstablished c"] this [of "FRemoveConnectionInLoop c"] this [of "FConnectDestroyed c"]
  show "profile_of sid c x = Some born_profile"
    using x stale by (simp add: profile_of_def extends_def)
  show "profile_of sid e x = profile_of sid e w" if e: "e \<noteq> c"
  proof (cases "cn_conns w e")
    case None
    then show ?thesis using x e by (simp add: profile_of_def extends_def)
  next
    case (Some en)
    obtain eh el where "linked e en eh el w" using inv Some by (rule conn_invE)
    then have "n_chans x (cn_channel en) = Some eh" "n_chans w (cn_channel en) = Some eh"
      using x by (auto simp: linked_def extends_def)
    moreover have "cn_conns x e = Some en" using Some x e by (simp add: extends_def)
    moreover have "sv_connections (sv x) (cn_name en) = Some e \<longleftrightarrow> sv_connections (sv w) (cn_name en) = Some e"
      using x e nm by (auto simp: extends_def)
    ultimately show ?thesis using Some by (simp add: profile_of_def extends_upcoming [OF x])
  qed
qed

lemma extends_inv:
  assumes i: "server_inv sid w" and x: "extends sid c cn ch p w x" and inv': "conn_inv x"
    and nm: "sv_connections (sv w) (cn_name cn) = None" and p: "pool_inv p" "getAllLoops p = getAllLoops (sv_pool (sv w))"
    and few: "sv_nextConnId (sv w) \<noteq> 2 ^ 31 - 1"
  shows "stands sid c born_profile x"
proof -
  note d = server_inv_butD [OF i]
  note pf = extends_profile [OF x d(1,8) nm]
  have "up_registered (profile_of sid e x)" for e
    using pf(1) pf(2) [of e] d(2)
    by (cases "e = c") (auto simp: registered_up_profile [where sid = sid] up_registered_def KNew_def KAdded_def)
  then have "registered_up x" by (simp add: registered_up_profile [where sid = sid])
  moreover have "chans_ok sid x" unfolding chans_ok_def
  proof (intro allI impI)
    fix b bh
    assume b: "n_chans x b = Some bh"
    show "(\<exists>e en. cn_conns x e = Some en \<and> cn_channel en = b) \<or> plain sid bh x"
    proof (cases "b = cn_channel cn")
      case True
      then show ?thesis using x by (auto simp: extends_def)
    next
      case False
      then have "n_chans w b = Some bh" using b x by (simp add: extends_def)
      then consider e en where "cn_conns w e = Some en" "cn_channel en = b" | "plain sid bh w"
        using d(4) unfolding chans_ok_def by blast
      then show ?thesis
      proof cases
        case 1
        then have "cn_conns x e = Some en" using x by (auto simp: extends_def)
        then show ?thesis using 1 by blast
      next
        case 2
        then show ?thesis using x by (simp add: plain_def extends_def)
      qed
    qed
  qed
  moreover have "map_ok sid x" unfolding map_ok_def
  proof (intro conjI allI impI)
    show "1 \<le> sv_nextConnId (sv x)" "sv_nextConnId (sv x) < 2 ^ 31"
      using d(5) x few by (simp_all add: map_ok_def extends_def)
    fix n e
    assume e: "sv_connections (sv x) n = Some e"
    have old: "(\<exists>en. cn_conns w e = Some en \<and> cn_name en = n) \<and> (\<exists>i\<ge>1. i < sv_nextConnId (sv w) \<and> n = connName sid i)"
      if "n \<noteq> cn_name cn" using d(5) e that x by (simp add: map_ok_def extends_def)
    show "\<exists>en. cn_conns x e = Some en \<and> cn_name en = n"
      using old e x by (cases "n = cn_name cn") (auto simp: extends_def)
    show "\<exists>i\<ge>1. i < sv_nextConnId (sv x) \<and> n = connName sid i"
    proof (cases "n = cn_name cn")
      case True
      then show ?thesis using d(5) x
        by (intro exI [of _ "sv_nextConnId (sv w)"]) (simp add: map_ok_def extends_def)
    next
      case False
      from old [OF this] show ?thesis using x by (auto simp: extends_def intro: less_trans)
    qed
  qed
  moreover have "pool_ok x" using d(6) x p by (simp add: pool_ok_def extends_def)
  moreover have "handling_ok x" unfolding handling_ok_def
  proof (intro allI impI)
    fix l ds
    assume "m_phase x l = Handling ds"
    then have *: "distinct ds \<and> (\<forall>b\<in>set ds. \<exists>bh. n_chans w b = Some bh \<and> ch_loop bh = l \<and> ch_index bh = KAdded)"
      using d(7) x by (simp add: handling_ok_def extends_def)
    have "n_chans x b = Some bh" if "n_chans w b = Some bh" for b bh
      using that x by (auto simp: extends_def)
    with * show "distinct ds \<and> (\<forall>b\<in>set ds. \<exists>bh. n_chans x b = Some bh \<and> ch_loop bh = l \<and> ch_index bh = KAdded)"
      by blast
  qed
  moreover have "valid_ok sid x"
    using d(8) extends_valid [OF x] by (simp add: valid_ok_def extends_upcoming [OF x])
  moreover have "closers_ok x" using d(9) x by (simp add: closers_ok_def extends_def)
  moreover have "\<exists>s. life_at sid e x s" if "e \<notin> {c}" for e
    using d(10) [of e] pf(2) [of e] that by (simp add: life_at_def)
  moreover have "n_loops x (sv_loop sid) \<noteq> None" using d(3) x by (simp add: extends_def)
  ultimately show ?thesis using inv' pf(1) by (simp add: stands_def server_inv_but_def)
qed

section \<open>\<open>newConnection\<close>\<close>

lemma fresh_fd_free:
  assumes inv: "conn_inv w" and fresh: "fresh_fd fd w" and l: "n_loops w l \<noteq> None"
  shows "fd_free fd l w"
  unfolding fd_free_def
proof (intro conjI allI impI)
  fix c cn
  assume "cn_conns w c = Some cn"
  with inv obtain ch el where "linked c cn ch el w" by (rule conn_invE)
  then show "sk_fd (cn_socket cn) \<noteq> fd" using fresh by (auto simp: fresh_fd_def linked_def owns_def)
next
  obtain el where el: "n_loops w l = Some el" using l by blast
  have "poller_inv l (el_poller el) (n_chans w)" using inv el by (auto simp: conn_inv_def net_inv_def)
  then have "channels_map (el_poller el) fd = Some d \<Longrightarrow> registered l (n_chans w) fd d" for d
    by (simp add: poller_inv_def)
  then have "channels_map (el_poller el) fd = None"
    using fresh by (cases "channels_map (el_poller el) fd") (auto simp: registered_def fresh_fd_def split: option.splits)
  with el show "\<exists>el. n_loops w l = Some el \<and> channels_map (el_poller el) fd = None" by blast
qed

text \<open>The world when \<open>connectEstablished\<close> is due.\<close>

definition born :: "server_id \<Rightarrow> sock \<Rightarrow> sockaddr_in \<Rightarrow> sockaddr_in \<Rightarrow> nat \<Rightarrow> nat \<Rightarrow> nat \<Rightarrow> pool \<Rightarrow> machine \<Rightarrow> machine" where
  "born sid sk peer local c d l p w = (let i = sv_nextConnId (sv w); nm = connName sid i;
       w1 = upd_server (\<lambda>s. s\<lparr>sv_pool := p, sv_nextConnId := i + 1\<rparr>) w;
       w2 = put_conn c (mk_conn l nm sk d local peer) (put_chan d (conn_channel l c (sk_fd sk)) w1) in
     put_conn c (configured (sv w2) (mk_conn l nm sk d local peer))
       (upd_server (\<lambda>s. s\<lparr>sv_connections := (sv_connections s)(nm \<mapsto> c)\<rparr>) w2))"

lemma newConnection_born:
  assumes "getNextLoop (sv_pool (sv w)) = Inr (l, p)" "sv_nextConnId (sv w) \<noteq> 2 ^ 31 - 1"
    "cn_conns w c = None" "n_chans w d = None"
  shows "newConnection app sid sk peer local c d w =
    runInLoop l (FConnectEstablished c) (connectEstablished app c) (born sid sk peer local c d l p w)"
  using assms by (simp add: newConnection_def born_def Let_def new_conn_def upd_conn_def get_conn_def)

lemma born_inv:
  assumes inv: "conn_inv w" and free: "fd_free (sk_fd sk) l w" and fin: "\<not> sk_fin sk"
    and fresh: "cn_conns w c = None" "n_chans w d = None"
  shows "conn_inv (born sid sk peer local c d l p w)"
proof -
  define w1 where "w1 = upd_server (\<lambda>s. s\<lparr>sv_pool := p, sv_nextConnId := sv_nextConnId (sv w) + 1\<rparr>) w"
  define nm where "nm = connName sid (sv_nextConnId (sv w))"
  define w2 where "w2 = put_conn c (mk_conn l nm sk d local peer) (put_chan d (conn_channel l c (sk_fd sk)) w1)"
  define w3 where "w3 = upd_server (\<lambda>s. s\<lparr>sv_connections := (sv_connections s)(nm \<mapsto> c)\<rparr>) w2"
  have "conn_inv w1" using inv by (subst conn_inv_cong [of w1 w]) (simp_all add: w1_def)
  moreover have "cn_conns w1 c = None" "n_chans w1 d = None" "fd_free (sk_fd sk) l w1"
    using fresh free by (simp_all add: w1_def fd_free_def)
  ultimately have "good {} w1 (new_conn c d l nm sk local peer w1)" using fin by (intro new_conn_good)
  then have "conn_inv w2" using fresh by (simp add: new_conn_def w1_def w2_def good_def)
  then have 3: "conn_inv w3" by (subst conn_inv_cong [of w3 w2]) (simp_all add: w3_def)
  have c3: "cn_conns w3 c = Some (mk_conn l nm sk d local peer)" by (simp add: w3_def w2_def)
  have "good {} w3 (Inr (put_conn c (configured (sv w2) (mk_conn l nm sk d local peer)) w3))"
    by (rule good_put_conn [OF 3 c3])
      (simp_all add: configured_def advances_def same_place_def stream_def pending_out_def conn_local_def)
  then show ?thesis
    by (simp add: good_def born_def Let_def w1_def [symmetric] w2_def [symmetric] w3_def [symmetric] nm_def [symmetric])
      (simp add: w3_def w2_def nm_def w1_def)
qed

lemma born_extends:
  assumes "cn_conns w c = None" "n_chans w d = None"
  shows "extends sid c (configured (sv w) (mk_conn l (connName sid (sv_nextConnId (sv w))) sk d local peer))
    (conn_channel l c (sk_fd sk)) p w (born sid sk peer local c d l p w)"
  using assms
  by (simp add: extends_def born_def Let_def configured_def mk_conn_def conn_channel_def mk_channel_def KNew_def
      upd_server_def put_conn_def put_chan_def)

lemma born_simps [simp]:
  "n_loops (born sid sk peer local c d l p w) = n_loops w" "n_tid (born sid sk peer local c d l p w) = n_tid w"
  by (simp_all add: born_def Let_def)

text \<open>Everything that a birth makes of the server.\<close>

definition newborn :: "server_id \<Rightarrow> int \<Rightarrow> machine \<Rightarrow> conn \<Rightarrow> bool" where
  "newborn sid fd w cn \<longleftrightarrow> cn_loop cn = getAllLoops (sv_pool (sv w)) ! turn (sv_pool (sv w))
     \<and> cn_name cn = connName sid (sv_nextConnId (sv w)) \<and> sk_fd (cn_socket cn) = fd
     \<and> cn_closeCallback cn = Some ServerRemove"

lemma newborn_ident: "newborn sid fd w cn \<Longrightarrow> same_ident cn cn' \<Longrightarrow> newborn sid fd w cn'"
  by (simp add: newborn_def same_ident_def same_place_def)

definition birth :: "server_id \<Rightarrow> int \<Rightarrow> nat \<Rightarrow> machine \<Rightarrow> machine \<Rightarrow> bool" where
  "birth sid fd c w w' \<longleftrightarrow> server_inv sid w' \<and> (\<forall>e. e \<noteq> c \<longrightarrow> profile_of sid e w' = profile_of sid e w)
     \<and> life_at sid c w Absent \<and> (life_at sid c w' Born \<or> life_at sid c w' Alive)
     \<and> (\<exists>cn. cn_conns w' c = Some cn \<and> newborn sid fd w cn)"

lemma birth_from_turns:
  assumes x: "stands sid c born_profile x" and same: "\<And>e. e \<noteq> c \<Longrightarrow> profile_of sid e x = profile_of sid e w"
    and absent: "profile_of sid c w = None" and cn: "cn_conns x c = Some cn" "newborn sid fd w cn"
    and t: "turns sid c {pf} x w'" and life: "Some pf = life_profile Born \<or> Some pf = life_profile Alive"
  shows "birth sid fd c w w'"
proof -
  have m: "moves sid c x w'" "stands sid c pf w'" using t by (simp_all add: turns_def)
  have "profile_of sid e w' = profile_of sid e w" if "e \<noteq> c" for e
    using moves_profile [OF standsD(1) [OF x] m(1) that] same [OF that] by simp
  moreover have l: "life_at sid c w' Born \<or> life_at sid c w' Alive"
    using standsD(5) [OF m(2)] life by (auto simp: life_at_def)
  moreover have "server_inv sid w'"
    using server_inv_settled [of c "{}" sid w'] l standsD(4) [OF m(2)] by blast
  moreover have "conns_move c x w'" using m(1) by (simp add: moves_def)
  then obtain cn' where "cn_conns w' c = Some cn'" "same_ident cn cn'" using cn(1) by (rule conns_move_some)
  then have "\<exists>cn. cn_conns w' c = Some cn \<and> newborn sid fd w cn" using newborn_ident [OF cn(2)] by blast
  ultimately show ?thesis using absent by (simp add: birth_def life_at_def)
qed

lemma runInLoop_cases:
  assumes "n_loops w l = Some el"
  shows "runInLoop l f act w = (if threadId el = n_tid w then act w else queueInLoop l f w)"
  using assms by (simp add: runInLoop_def isInLoopThread_def)

theorem newConnection_birth:
  assumes i: "server_inv sid w" and app: "local_app app" and ip: "short_ipPort sid"
    and fresh: "fresh_fd (sk_fd sk) w" and fin: "\<not> sk_fin sk"
  shows "safely (newConnection app sid sk peer local c d w) (birth sid (sk_fd sk) c w)"
proof -
  note d = server_inv_butD [OF i]
  obtain l p where p: "getNextLoop (sv_pool (sv w)) = Inr (l, p)" "pool_inv p"
      "getAllLoops p = getAllLoops (sv_pool (sv w))" "l \<in> set (getAllLoops (sv_pool (sv w)))"
      "l = getAllLoops (sv_pool (sv w)) ! turn (sv_pool (sv w))"
  proof -
    have pi: "pool_inv (sv_pool (sv w))" using d(6) by (simp add: pool_ok_def)
    show ?thesis
      using next_loops_ok [OF pi, of 1] getNextLoop_ok [OF pi] that
      by (auto simp: getAllLoops_def turn_def pool_inv_def)
  qed
  obtain el where el: "n_loops w l = Some el" using d(6) p(4) by (auto simp: pool_ok_def)
  show ?thesis
  proof (cases "sv_nextConnId (sv w) = 2 ^ 31 - 1 \<or> cn_conns w c \<noteq> None \<or> n_chans w d \<noteq> None")
    case True
    then show ?thesis using p(1) by (auto simp: newConnection_def Let_def new_conn_def)
  next
    case False
    then have f: "cn_conns w c = None" "n_chans w d = None" "sv_nextConnId (sv w) \<noteq> 2 ^ 31 - 1" by simp_all
    let ?cn = "configured (sv w) (mk_conn l (connName sid (sv_nextConnId (sv w))) sk d local peer)"
    let ?x = "born sid sk peer local c d l p w"
    have free: "fd_free (sk_fd sk) l w" by (rule fresh_fd_free [OF d(1) fresh]) (use el in simp)
    have ex: "extends sid c ?cn (conn_channel l c (sk_fd sk)) p w ?x" by (rule born_extends [OF f(1,2)])
    have new: "sv_connections (sv w) (cn_name ?cn) = None"
      using name_is_new [OF d(5) ip] by (simp add: configured_def mk_conn_def)
    have s: "stands sid c born_profile ?x"
      by (rule extends_inv [OF i ex born_inv [OF d(1) free fin f(1,2)] new p(2,3) f(3)])
    note pf = extends_profile [OF ex d(1,8) new]
    have at: "cn_conns ?x c = Some ?cn" "newborn sid (sk_fd sk) w ?cn"
      using ex p(5) by (simp_all add: extends_def newborn_def configured_def mk_conn_def)
    have alive: "safely (connectEstablished app c ?x) (birth sid (sk_fd sk) c w)"
      using connectEstablished_turns [OF s _ app]
      by (rule safely_mono) (auto intro!: birth_from_turns [OF s pf(2,3) at])
    have "lives_on c l ?x"
      using ex by (simp add: extends_def lives_on_def configured_def mk_conn_def)
    then have "about sid c ?x l (FConnectEstablished c)" by (simp add: about_def)
    then have "safely (queueInLoop l (FConnectEstablished c) ?x)
        (turns sid c {bump c (FConnectEstablished c) born_profile} ?x)"
      by (rule stands_queue [OF s]) (use el in simp)
    then have queued: "safely (queueInLoop l (FConnectEstablished c) ?x) (birth sid (sk_fd sk) c w)"
      by (rule safely_mono) (auto intro!: birth_from_turns [OF s pf(2,3) at] simp: bump_def)
    show ?thesis
      using alive queued el by (simp add: newConnection_born [OF p(1) f(3,1,2)] runInLoop_cases)
  qed
qed

text \<open>The only faults are those of the application and the number past the range of \<open>int\<close>.\<close>

lemma newConnection_ends:
  assumes i: "server_inv sid w" and fresh: "fresh_fd (sk_fd sk) w" and fin: "\<not> sk_fin sk"
  shows "ends (insert SignedOverflow app_faults) (newConnection app sid sk peer local c d w) (\<lambda>w'. True)"
proof -
  note d = server_inv_butD [OF i]
  have pi: "pool_inv (sv_pool (sv w))" using d(6) by (simp add: pool_ok_def)
  let ?l = "getAllLoops (sv_pool (sv w)) ! turn (sv_pool (sv w))"
  obtain p where p: "getNextLoop (sv_pool (sv w)) = Inr (?l, p)" using getNextLoop_ok [OF pi] by blast
  have "?l \<in> set (getAllLoops (sv_pool (sv w)))"
    using pi by (auto simp: getAllLoops_def turn_def pool_inv_def)
  then obtain el where el: "n_loops w ?l = Some el" using d(6) by (auto simp: pool_ok_def)
  show ?thesis
  proof (cases "sv_nextConnId (sv w) = 2 ^ 31 - 1 \<or> cn_conns w c \<noteq> None \<or> n_chans w d \<noteq> None")
    case True
    then show ?thesis using p by (auto simp: newConnection_def Let_def new_conn_def)
  next
    case False
    then have f: "cn_conns w c = None" "n_chans w d = None" "sv_nextConnId (sv w) \<noteq> 2 ^ 31 - 1" by simp_all
    let ?x = "born sid sk peer local c d ?l p w"
    have free: "fd_free (sk_fd sk) ?l w" by (rule fresh_fd_free [OF d(1) fresh]) (use el in simp)
    have inv: "conn_inv ?x" by (rule born_inv [OF d(1) free fin f(1,2)])
    let ?cn = "configured (sv w) (mk_conn ?l (connName sid (sv_nextConnId (sv w))) sk d local peer)"
    have "extends sid c ?cn (conn_channel ?l c (sk_fd sk)) p w ?x" by (rule born_extends [OF f(1,2)])
    then have "cn_conns ?x c = Some ?cn" "cn_state ?cn = kConnecting" by (simp_all add: extends_def)
    then have "good app_faults ?x (connectEstablished app c ?x)" by (rule sw.connectEstablished_good [OF inv])
    then have "good (insert SignedOverflow app_faults) ?x (connectEstablished app c ?x)" by (rule good_mono) blast
    then show ?thesis using el
      by (auto simp: newConnection_born [OF p f(3,1,2)] runInLoop_cases queueInLoop_eq good_def elim!: ends_mono)
  qed
qed

section \<open>The acceptor\<close>

lemma server_inv_accepts:
  assumes "server_inv_but X sid w"
  shows "server_inv_but X sid (w\<lparr>sv_accepts := as\<rparr>)"
    "profile_of sid e (w\<lparr>sv_accepts := as\<rparr>) = profile_of sid e w"
proof -
  let ?w = "w\<lparr>sv_accepts := as\<rparr>"
  have c: "conn_inv ?w = conn_inv w" by (rule conn_inv_cong) simp_all
  have u: "upcoming l ?w = upcoming l w" for l by (simp add: upcoming_def pending_at_def)
  have p: "profile_of sid e ?w = profile_of sid e w" for e by (simp add: profile_of_def u cong: option.case_cong)
  have v: "functor_valid sid l ?w f = functor_valid sid l w f" for l f by (cases f) (simp_all add: lives_on_def)
  show "profile_of sid e ?w = profile_of sid e w" by (rule p)
  show "server_inv_but X sid ?w"
    using assms by (simp add: server_inv_but_def c u v p registered_up_def chans_ok_def plain_def map_ok_def
        pool_ok_def handling_ok_def valid_ok_def closers_ok_def life_at_def)
qed

text \<open>A read report of the listening socket: nothing, or the birth of one connection.\<close>

theorem acceptor_birth:
  assumes i: "server_inv sid w" and app: "local_app app" and ip: "short_ipPort sid" and acc: "accept_ok w"
  shows "ends (insert SignedOverflow app_faults) (acceptor_handleRead (newConnection app sid) w)
    (\<lambda>w'. server_inv sid w' \<and> (\<forall>e. profile_of sid e w' = profile_of sid e w) \<or> (\<exists>fd c. birth sid fd c w w'))"
proof -
  let ?w = "w\<lparr>sv_accepts := tl (sv_accepts w)\<rparr>"
  have i': "server_inv sid ?w" and p: "profile_of sid e ?w = profile_of sid e w" for e
    using server_inv_accepts [OF i] by simp_all
  show ?thesis
  proof (cases "next_accept w")
    case (AcceptErr e)
    then show ?thesis using i' p by (simp add: acceptor_handleRead_def Let_def)
  next
    case (Accepted sk peer local c d)
    then have fresh: "fresh_fd (sk_fd sk) ?w" "\<not> sk_fin sk" using acc by (simp_all add: accept_ok_def fresh_fd_def)
    have "ends (insert SignedOverflow app_faults) (newConnection app sid sk peer local c d ?w)
        (\<lambda>w'. True \<and> birth sid (sk_fd sk) c ?w w')"
      by (rule ends_safely_conj [OF newConnection_ends [OF i' fresh] newConnection_birth [OF i' app ip fresh]])
    then have "ends (insert SignedOverflow app_faults) (newConnection app sid sk peer local c d ?w) (birth sid (sk_fd sk) c w)"
      by (rule ends_mono) (simp add: birth_def newborn_def life_at_def p)
    then have "ends (insert SignedOverflow app_faults) (newConnection app sid sk peer local c d ?w)
      (\<lambda>w'. server_inv sid w' \<and> (\<forall>e. profile_of sid e w' = profile_of sid e w) \<or> (\<exists>fd c. birth sid fd c w w'))"
      by (rule ends_mono) blast
    then show ?thesis using Accepted i' p by (simp add: acceptor_handleRead_def Let_def)
  qed
qed

end
