(* ===== verification/Server_Machine.thy ===== *)
theory Server_Machine
  imports Server_Birth
begin

text \<open>
  The steps of the machine: each keeps the invariant, ends in no fault but those of the
  application, and moves the life of at most one connection, along one edge.
\<close>

section \<open>Steps that leave all lives alone\<close>

text \<open>
  \<open>framed\<close>: the connections and the server are the same, the channels up to their reports; functors
  may only be taken away.
\<close>

definition same_but_report :: "channel \<Rightarrow> channel \<Rightarrow> bool" where
  "same_but_report ch ch' \<longleftrightarrow> (\<exists>r. ch' = ch\<lparr>ch_revents := r\<rparr>)"

definition framed :: "machine \<Rightarrow> machine \<Rightarrow> bool" where
  "framed w w' \<longleftrightarrow> cn_conns w' = cn_conns w \<and> sv w' = sv w
     \<and> (\<forall>l. n_loops w' l = None \<longleftrightarrow> n_loops w l = None)
     \<and> (\<forall>d. rel_option same_but_report (n_chans w d) (n_chans w' d))
     \<and> (\<forall>l. set (upcoming l w') \<subseteq> set (upcoming l w))"

lemma same_but_report_refl [simp]: "same_but_report ch ch"
  unfolding same_but_report_def by (rule exI [of _ "ch_revents ch"]) simp

lemma framed_chan:
  assumes "framed w w'" "n_chans w d = Some ch"
  obtains r where "n_chans w' d = Some (ch\<lparr>ch_revents := r\<rparr>)"
  using assms by (force simp: framed_def same_but_report_def dest!: spec [of _ d] split: option.splits
      elim: option.rel_cases)

lemma framed_chan_back:
  assumes "framed w w'" "n_chans w' d = Some ch'"
  obtains ch r where "n_chans w d = Some ch" "ch' = ch\<lparr>ch_revents := r\<rparr>"
proof -
  have "rel_option same_but_report (n_chans w d) (n_chans w' d)" using assms(1) by (simp add: framed_def)
  with assms(2) that show ?thesis by (cases "n_chans w d") (auto simp: same_but_report_def)
qed

lemma framed_profile:
  assumes f: "framed w w'" and counts: "\<And>f l. drives f = Some c \<Longrightarrow> count_list (upcoming l w') f = count_list (upcoming l w) f"
    and inv: "conn_inv w"
  shows "profile_of sid c w' = profile_of sid c w"
proof (cases "cn_conns w c")
  case None
  then show ?thesis using f by (simp add: profile_of_def framed_def)
next
  case (Some cn)
  obtain ch el where "linked c cn ch el w" using inv Some by (rule conn_invE)
  then have ch: "n_chans w (cn_channel cn) = Some ch" by (simp add: linked_def)
  obtain r where "n_chans w' (cn_channel cn) = Some (ch\<lparr>ch_revents := r\<rparr>)" using f ch by (rule framed_chan)
  moreover have "cn_conns w' c = Some cn" "sv w' = sv w" using f Some by (simp_all add: framed_def)
  ultimately show ?thesis using Some ch by (simp add: profile_of_def counts)
qed

lemma framed_inv:
  assumes i: "server_inv_but X sid w" and f: "framed w w'" and inv': "conn_inv w'" and h: "handling_ok w'"
    and p: "\<And>c. c \<notin> Y \<Longrightarrow> c \<notin> X \<and> profile_of sid c w' = profile_of sid c w"
  shows "server_inv_but Y sid w'"
proof -
  note d = server_inv_butD [OF i]
  have fs: "cn_conns w' = cn_conns w" "sv w' = sv w" "n_loops w' l = None \<longleftrightarrow> n_loops w l = None"
      "set (upcoming l w') \<subseteq> set (upcoming l w)" for l
    using f by (simp_all add: framed_def)
  have "registered_up w'" unfolding registered_up_def
  proof (intro allI impI, elim conjE)
    fix c cn ch'
    assume a: "cn_conns w' c = Some cn" "n_chans w' (cn_channel cn) = Some ch'"
    obtain ch r where "n_chans w (cn_channel cn) = Some ch" "ch' = ch\<lparr>ch_revents := r\<rparr>"
      using f a(2) by (rule framed_chan_back)
    then show "ch_index ch' = KAdded \<longleftrightarrow> kind_of (cn_state cn) = Up"
      using d(2) a(1) fs(1) by (auto simp: registered_up_def)
  qed
  moreover have "chans_ok sid w'" unfolding chans_ok_def
  proof (intro allI impI)
    fix b ch'
    assume "n_chans w' b = Some ch'"
    with f obtain ch r where ch: "n_chans w b = Some ch" "ch' = ch\<lparr>ch_revents := r\<rparr>" by (rule framed_chan_back)
    then have "(\<exists>c cn. cn_conns w c = Some cn \<and> cn_channel cn = b) \<or> plain sid ch w"
      using d(4) by (simp add: chans_ok_def)
    then show "(\<exists>c cn. cn_conns w' c = Some cn \<and> cn_channel cn = b) \<or> plain sid ch' w'"
      using ch(2) fs(1,3) by (auto simp: plain_def)
  qed
  moreover have "functor_valid sid l w' g = functor_valid sid l w g" for l g by (cases g) (simp_all add: lives_on_def fs)
  then have "valid_ok sid w'" using d(8) subsetD [OF fs(4)] by (simp add: valid_ok_def)
  moreover have "\<exists>s. life_at sid c w' s" if "c \<notin> Y" for c
    using p [OF that] d(10) [of c] by (simp add: life_at_def)
  ultimately show ?thesis using d inv' h
    by (simp add: server_inv_but_def map_ok_def pool_ok_def closers_ok_def fs)
qed

text \<open>Changes of nothing that the invariant sees.\<close>

lemma quiet_step:
  assumes i: "server_inv sid w" and f: "framed w w'" and inv': "conn_inv w'" and h: "handling_ok w'"
    and u: "\<And>l. upcoming l w' = upcoming l w"
  shows "server_inv sid w'" "profile_of sid c w' = profile_of sid c w"
proof -
  show p: "profile_of sid c w' = profile_of sid c w" for c
    by (rule framed_profile [OF f _ server_inv_butD(1) [OF i]]) (simp add: u)
  show "server_inv sid w'" by (rule framed_inv [OF i f inv' h]) (simp add: p)
qed

lemma framed_chans_same:
  "cn_conns w' = cn_conns w \<Longrightarrow> sv w' = sv w \<Longrightarrow> n_chans w' = n_chans w \<Longrightarrow>
   (\<And>l. n_loops w' l = None \<longleftrightarrow> n_loops w l = None) \<Longrightarrow>
   (\<And>l. set (upcoming l w') \<subseteq> set (upcoming l w)) \<Longrightarrow> framed w w'"
  by (simp add: framed_def option.rel_refl)

lemma thread_simps [simp]:
  "cn_conns (on_thread l w) = cn_conns w" "sv (on_thread l w) = sv w" "n_chans (on_thread l w) = n_chans w"
  "n_loops (on_thread l w) = n_loops w" "m_phase (on_thread l w) = m_phase w"
  "cn_strings (on_thread l w) = cn_strings w" "sv_accepts (on_thread l w) = sv_accepts w"
  "cn_conns (set_phase l p w) = cn_conns w" "sv (set_phase l p w) = sv w" "n_chans (set_phase l p w) = n_chans w"
  "n_loops (set_phase l p w) = n_loops w" "m_phase (set_phase l p w) = (m_phase w)(l := p)"
  "cn_strings (set_phase l p w) = cn_strings w" "n_tid (set_phase l p w) = n_tid w"
  "sv_accepts (set_phase l p w) = sv_accepts w"
  by (simp_all add: on_thread_def set_phase_def)

lemma conn_inv_thread [simp]:
  "conn_inv (on_thread l w) = conn_inv w" "conn_inv (set_phase l p w) = conn_inv w"
  "conn_inv (w\<lparr>n_tid := t\<rparr>) = conn_inv w" for w :: machine
  by (rule conn_inv_cong; simp)+

lemma upcoming_thread [simp]:
  "upcoming k (on_thread l w) = upcoming k w" "upcoming k (w\<lparr>n_tid := t\<rparr>) = upcoming k w"
  by (simp_all add: upcoming_def pending_at_def)

lemma thread_inv:
  assumes "server_inv sid w"
  shows "server_inv sid (w\<lparr>n_tid := t\<rparr>)" "profile_of sid c (w\<lparr>n_tid := t\<rparr>) = profile_of sid c w"
proof -
  have "framed w (w\<lparr>n_tid := t\<rparr>)" by (rule framed_chans_same) simp_all
  moreover have "handling_ok (w\<lparr>n_tid := t\<rparr>)" using assms by (simp add: server_inv_but_def handling_ok_def)
  ultimately show "server_inv sid (w\<lparr>n_tid := t\<rparr>)" "profile_of sid c (w\<lparr>n_tid := t\<rparr>) = profile_of sid c w"
    using quiet_step [OF assms] server_inv_butD(1) [OF assms] by simp_all
qed

section \<open>The loops' own steps\<close>

lemma poll_distinct:
  assumes inv: "poller_inv l p cs" and env: "poll_env_ok env" and r: "poll env p cs = Inr (p', cs', active)"
  shows "distinct active"
proof (cases env)
  case (PollErr e)
  then show ?thesis using r by (simp add: poll_def)
next
  case (Ready states)
  let ?f = "report (kernel p)"
  have ent: "\<exists>ev. interest (kernel p) fd = Some (ev, c)" if "?f (fd, m) = Some (r, c)" for fd m r c
    using that by (auto simp: report_def Let_def split: option.splits if_splits)
  have inj: "fd = fd'" if h: "?f (fd, m) = Some (r, c)" "?f (fd', m') = Some (r', c)" for fd fd' m m' r r' c
  proof -
    obtain ev ev' where "interest (kernel p) fd = Some (ev, c)" "interest (kernel p) fd' = Some (ev', c)"
      using ent [OF h(1)] ent [OF h(2)] by blast
    then show ?thesis using inv by (auto simp: poller_inv_interest armed_def)
  qed
  have "distinct (map fst ss) \<Longrightarrow> distinct (map snd (List.map_filter ?f ss))" for ss
  proof (induction ss)
    case (Cons s ss)
    obtain fd m where s: "s = (fd, m)" by force
    have "c \<notin> snd ` set (List.map_filter ?f ss)" if c: "?f s = Some (r, c)" for r c
    proof
      assume "c \<in> snd ` set (List.map_filter ?f ss)"
      then obtain fd' m' r' where *: "(fd', m') \<in> set ss" "?f (fd', m') = Some (r', c)"
        by (force simp: List.map_filter_def)
      have "fd = fd'" by (rule inj [OF c [unfolded s] *(2)])
      then show False using Cons.prems *(1) s by force
    qed
    then show ?case using Cons by (auto simp: List.map_filter_simps split: option.split)
  qed (simp add: List.map_filter_simps)
  moreover have "distinct (map fst states)" using env Ready by (simp add: poll_env_ok_def)
  ultimately have "distinct (map snd (List.map_filter ?f states))" by blast
  then have "distinct (map snd (epoll_wait (events_size p) states (kernel p)))"
    by (simp add: epoll_wait_def take_map [symmetric])
  moreover have fill: "fillActiveChannels es (cs0, as) = Inr (cs1, as') \<Longrightarrow> as' = as @ map snd es" for es cs0 as cs1 as'
    by (induction es "(cs0, as)" arbitrary: cs0 as rule: fillActiveChannels.induct) (auto simp: bind_res_Inr_iff)
  ultimately show ?thesis using r Ready
    by (auto simp: poll_def Let_def bind_res_Inr_iff dest!: fill split: if_splits)
qed

text \<open>A poll: new reports and the list of the channels that have them.\<close>

lemma conn_inv_polled:
  assumes inv: "conn_inv w" and net: "net_inv w'" and same: "cn_conns w' = cn_conns w" "cn_strings w' = cn_strings w"
    and chans: "revents_only (n_chans w) (n_chans w')"
    and loops: "\<And>l el. n_loops w l = Some el \<Longrightarrow> \<exists>el'. n_loops w' l = Some el'
       \<and> channels_map (el_poller el') = channels_map (el_poller el)"
  shows "conn_inv w'"
proof -
  have "\<exists>ch' el'. linked c cn ch' el' w' \<and> conn_local cn ch'" if l: "linked c cn ch el w" "conn_local cn ch" for c cn ch el
  proof -
    obtain r where r: "n_chans w' (cn_channel cn) = Some (ch\<lparr>ch_revents := r\<rparr>)"
      using chans l(1) by (auto simp: linked_def elim: revents_onlyE)
    obtain el' where "n_loops w' (cn_loop cn) = Some el'" "channels_map (el_poller el') = channels_map (el_poller el)"
      using loops l(1) unfolding linked_def by blast
    then have "linked c cn (ch\<lparr>ch_revents := r\<rparr>) el' w'" "conn_local cn (ch\<lparr>ch_revents := r\<rparr>)"
      using l r same by (auto simp: linked_def owns_def may_add_def conn_local_def isReading_def isWriting_def isNoneEvent_def)
    then show ?thesis by blast
  qed
  then show ?thesis using inv net same unfolding conn_inv_def by metis
qed

lemma poll_step_ok:
  assumes i: "server_inv sid w" and env: "poll_env_ok env" and wait: "m_phase w l = Waiting" and l: "n_loops w l \<noteq> None"
  shows "returns (poll_step l env w) (\<lambda>w'. server_inv sid w' \<and> (\<forall>c. profile_of sid c w' = profile_of sid c w))"
proof -
  note d = server_inv_butD [OF i]
  obtain el where el: "n_loops w l = Some el" using l by blast
  have pi: "poller_inv k (el_poller ek) (n_chans w)" if "n_loops w k = Some ek" for k ek
    using d(1) that by (auto simp: conn_inv_def net_inv_def)
  obtain p cs active where p: "poll env (el_poller el) (n_chans w) = Inr (p, cs, active)" "poller_inv l p cs"
      "revents_only (n_chans w) cs" "channels_map p = channels_map (el_poller el)"
      "\<forall>c \<in> set active. \<exists>ch. cs c = Some ch \<and> ch_loop ch = l \<and> ch_index ch = KAdded"
  proof -
    obtain x where x: "poll env (el_poller el) (n_chans w) = Inr x" "case x of (p', cs', active) \<Rightarrow>
        poller_inv l p' cs' \<and> revents_only (n_chans w) cs' \<and> kernel p' = kernel (el_poller el)
        \<and> channels_map p' = channels_map (el_poller el) \<and> length active \<le> events_size (el_poller el)
        \<and> events_size p' = (if length active = events_size (el_poller el) \<and> active \<noteq> []
             then 2 * events_size (el_poller el) else events_size (el_poller el))
        \<and> (\<forall>c \<in> set active. \<exists>ch. cs' c = Some ch \<and> ch_loop ch = l \<and> ch_index ch = KAdded
             \<and> ch_revents ch \<noteq> 0 \<and> wanted (ch_events ch) (ch_revents ch))"
      using poll_ok [OF pi [OF el], of env] unfolding returns_iff by blast
    obtain p cs active where "x = (p, cs, active)" by (cases x)
    then show ?thesis using that [of p cs active] x by simp blast
  qed
  let ?el = "el\<lparr>el_poller := p, activeChannels := active\<rparr>"
  let ?w = "set_phase l (Handling active) (put_loop l ?el (w\<lparr>n_chans := cs\<rparr>))"
  have f: "n_chans ?w = cs" "cn_conns ?w = cn_conns w" "sv ?w = sv w" "cn_strings ?w = cn_strings w"
      "m_phase ?w = (m_phase w)(l := Handling active)" "n_loops ?w = (n_loops w)(l \<mapsto> ?el)"
    by (simp_all add: machine_simps)
  have "poller_inv k (el_poller ek) cs" if "n_loops w k = Some ek" for k ek
    by (rule poller_inv_cong [OF pi [OF that] pview_revents_only [OF p(3)]])
  then have "net_inv ?w" unfolding net_inv_def f using p(2) by (auto split: if_splits)
  then have inv': "conn_inv ?w"
    by (rule conn_inv_polled [OF d(1)]) (use f p el in auto)
  have u: "upcoming k ?w = upcoming k w" for k using el wait by (simp add: upcoming_def pending_at_def machine_simps)
  have fr: "framed w ?w" unfolding framed_def f
  proof (intro conjI allI refl)
    fix b
    show "rel_option same_but_report (n_chans w b) (cs b)"
      using p(3) [unfolded revents_only_def, THEN spec, of b]
      by (cases "n_chans w b") (auto simp: same_but_report_def)
    show "set (upcoming b ?w) \<subseteq> set (upcoming b w)" unfolding u ..
  qed (use el in auto)
  have "handling_ok ?w" unfolding handling_ok_def f
  proof (intro allI impI)
    fix k ds
    assume k: "((m_phase w)(l := Handling active)) k = Handling ds"
    show "distinct ds \<and> (\<forall>b\<in>set ds. \<exists>ch. cs b = Some ch \<and> ch_loop ch = k \<and> ch_index ch = KAdded)"
    proof (cases "k = l")
      case True
      then show ?thesis using k p(5) poll_distinct [OF pi [OF el] env p(1)] by simp
    next
      case False
      then have *: "distinct ds \<and> (\<forall>b\<in>set ds. \<exists>ch. n_chans w b = Some ch \<and> ch_loop ch = k \<and> ch_index ch = KAdded)"
        using k d(7) by (simp add: handling_ok_def)
      have "\<exists>ch'. cs b = Some ch' \<and> ch_loop ch' = k \<and> ch_index ch' = KAdded"
        if "n_chans w b = Some ch" "ch_loop ch = k" "ch_index ch = KAdded" for b ch
        using p(3) that by (auto elim: revents_onlyE)
      with * show ?thesis by blast
    qed
  qed
  from quiet_step [OF i fr inv' this u] show ?thesis
    using el p(1) by (simp add: poll_step_def)
qed

lemma phase_step_ok:
  assumes i: "server_inv sid w" and el: "n_loops w l = Some el" and el': "el_poller el' = el_poller el"
    and ph: "\<And>ds. ph \<noteq> Handling ds"
    and u: "phase_todo ph @ pendingFunctors el' = upcoming l w"
  shows "server_inv sid (set_phase l ph (put_loop l el' w))"
    "profile_of sid c (set_phase l ph (put_loop l el' w)) = profile_of sid c w"
proof -
  let ?w = "set_phase l ph (put_loop l el' w)"
  note d = server_inv_butD [OF i]
  have inv': "conn_inv ?w" using conn_inv_put_loop [OF d(1) el el'] by simp
  have up: "upcoming k ?w = upcoming k w" for k using u by (simp add: upcoming_def pending_at_def machine_simps)
  have "framed w ?w" by (rule framed_chans_same) (use el up in \<open>simp_all add: machine_simps\<close>)
  moreover have "handling_ok ?w" using d(7) ph by (simp add: handling_ok_def machine_simps)
  ultimately show "server_inv sid ?w" "profile_of sid c ?w = profile_of sid c w"
    using quiet_step [OF i _ inv' _ up] by simp_all
qed

end
