(* ===== verification/Server_Safety.thy ===== *)
theory Server_Safety
  imports Server_Machine
begin

text \<open>
  The main results on the server: no step of the machine ends in a fault of the library, and the
  life of every connection follows the edges of \<open>life_step\<close>.
\<close>

section \<open>One step\<close>

text \<open>At most one connection moves, along at most one edge.\<close>

definition tick :: "server_id \<Rightarrow> machine \<Rightarrow> machine \<Rightarrow> bool" where
  "tick sid w w' \<longleftrightarrow> server_inv sid w' \<and> (\<exists>c. (\<forall>e. e \<noteq> c \<longrightarrow> profile_of sid e w' = profile_of sid e w)
     \<and> (\<exists>a b. life_at sid c w a \<and> life_at sid c w' b \<and> (a = b \<or> life_step a b)))"

abbreviation server_faults :: "fault set" where
  "server_faults \<equiv> insert SignedOverflow app_faults"

lemma tick_still:
  assumes "server_inv sid w" "server_inv sid w'" "\<And>c. profile_of sid c w' = profile_of sid c w"
  shows "tick sid w w'"
proof -
  obtain a where "life_at sid 0 w a" using server_inv_butD(10) [OF assms(1), of 0] by blast
  then show ?thesis using assms(2,3)
    by (auto simp: tick_def life_at_def simp del: life_step_simps intro!: exI [of _ 0] exI [of _ a])
qed

lemma tick_refl: "server_inv sid w \<Longrightarrow> tick sid w w"
  by (rule tick_still) simp_all

lemma tick_from:
  assumes "\<And>c. profile_of sid c x = profile_of sid c w" "tick sid x w'"
  shows "tick sid w w'"
  using assms by (simp add: tick_def life_at_def)

lemma birth_tick:
  assumes "birth sid fd c w w'"
  shows "tick sid w w'"
proof -
  have "life_at sid c w Absent" "life_at sid c w' Born \<or> life_at sid c w' Alive" using assms by (simp_all add: birth_def)
  then have "\<exists>a b. life_at sid c w a \<and> life_at sid c w' b \<and> (a = b \<or> life_step a b)"
    by (elim disjE) (rule exI [of _ Absent], rule exI [of _ Born], simp, rule exI [of _ Absent], rule exI [of _ Alive], simp)
  then show ?thesis using assms unfolding tick_def birth_def by blast
qed

text \<open>From a change of one profile.\<close>

lemma turns_tick:
  assumes s: "stands sid c pf x" and same: "\<And>e. e \<noteq> c \<Longrightarrow> profile_of sid e x = profile_of sid e w"
    and a: "life_at sid c w a" and t: "turns sid c P x w'"
    and P: "\<And>pf'. pf' \<in> P \<Longrightarrow> \<exists>b. life_profile b = Some pf' \<and> (a = b \<or> life_step a b)"
  shows "tick sid w w'"
proof -
  obtain pf' where m: "moves sid c x w'" "pf' \<in> P" "stands sid c pf' w'" using t by (auto simp: turns_def)
  obtain b where b: "life_profile b = Some pf'" "a = b \<or> life_step a b" using P [OF m(2)] by blast
  then have l: "life_at sid c w' b" using standsD(5) [OF m(3)] by (simp add: life_at_def)
  moreover have "server_inv sid w'" by (rule server_inv_settled [of c "{}" sid w', OF _ l]) (use standsD(4) [OF m(3)] in simp)
  moreover have "profile_of sid e w' = profile_of sid e w" if "e \<noteq> c" for e
    using moves_profile [OF standsD(1) [OF s] m(1) that] same [OF that] by simp
  ultimately show ?thesis using a b(2) unfolding tick_def by blast
qed

lemma good_turns_ends:
  assumes "good app_faults w r" "safely r Q"
  shows "ends server_faults r Q"
  using assms unfolding good_def by (cases r) auto

lemma on_thread_inv:
  assumes "server_inv sid w"
  shows "server_inv sid (on_thread l w)" "profile_of sid c (on_thread l w) = profile_of sid c w"
  using thread_inv [OF assms] by (simp_all add: on_thread_def)

section \<open>Polls, swaps and calls\<close>

lemma polls_tick:
  assumes i: "server_inv sid w" and "m_phase w l = Waiting" "n_loops w l \<noteq> None" "poll_env_ok env"
  shows "ends server_faults (poll_step l env (on_thread l w)) (tick sid w)"
proof (rule ends_returns, rule returns_mono)
  note t = on_thread_inv [OF i, where l = l]
  show "returns (poll_step l env (on_thread l w)) (\<lambda>w'. server_inv sid w'
      \<and> (\<forall>c. profile_of sid c w' = profile_of sid c (on_thread l w)))"
    by (rule poll_step_ok [OF t(1)]) (use assms in simp_all)
  show "tick sid w w'" if "server_inv sid w' \<and> (\<forall>c. profile_of sid c w' = profile_of sid c (on_thread l w))" for w'
    by (rule tick_still [OF i]) (use that t(2) in simp_all)
qed

lemma swap_tick:
  assumes i: "server_inv sid w" and ph: "m_phase w l = Handling []" and l: "n_loops w l \<noteq> None"
  shows "ends server_faults (swap_step l (on_thread l w)) (tick sid w)"
proof -
  note t = on_thread_inv [OF i, where l = l]
  obtain el where el: "n_loops (on_thread l w) l = Some el" using l by auto
  have "phase_todo (Running (pendingFunctors el) (pendingFunctors el)) @ pendingFunctors (el\<lparr>el_calling := True, pendingFunctors := []\<rparr>)
      = upcoming l (on_thread l w)"
    using el ph by (simp add: upcoming_def pending_at_def)
  from phase_step_ok [OF t(1) el _ _ this] show ?thesis
    using el t(2) by (simp add: swap_step_def tick_still [OF i])
qed

lemma finish_tick:
  assumes i: "server_inv sid w" and ph: "m_phase w l = Running fs0 []" and l: "n_loops w l \<noteq> None"
  shows "ends server_faults (finish_step l (on_thread l w)) (tick sid w)"
proof -
  note t = on_thread_inv [OF i, where l = l]
  obtain el where el: "n_loops (on_thread l w) l = Some el" using l by auto
  have "phase_todo Waiting @ pendingFunctors (el\<lparr>el_calling := False\<rparr>) = upcoming l (on_thread l w)"
    using el ph by (simp add: upcoming_def pending_at_def)
  from phase_step_ok [OF t(1) el _ _ this] show ?thesis
    using el t(2) by (simp add: finish_step_def tick_still [OF i])
qed

lemma calm_tick:
  assumes i: "server_inv sid w" and c: "safely r (calm w)" and g: "good app_faults w r"
  shows "ends server_faults r (tick sid w)"
proof (rule good_turns_ends [OF g])
  show "safely r (tick sid w)"
  proof (cases r)
    case (Inr w')
    then have *: "calm w w'" "conn_inv w'" using c g by (simp_all add: good_def)
    have "tick sid w w'"
      by (rule tick_still [OF i calm_inv [OF i *] calm_profile [OF server_inv_butD(1) [OF i] *(1)]])
    with Inr show ?thesis by simp
  qed simp
qed

lemma call_tick:
  assumes i: "server_inv sid w" and a: "local_call a (w\<lparr>n_tid := t\<rparr>)"
  shows "ends server_faults (run_api a (w\<lparr>n_tid := t\<rparr>)) (tick sid w)"
proof -
  note t = thread_inv [OF i, where t = t]
  note d = server_inv_butD [OF t(1)]
  have "good app_faults (w\<lparr>n_tid := t\<rparr>) (run_api a (w\<lparr>n_tid := t\<rparr>))"
    by (rule run_api_good [OF d(1), THEN good_mono, OF order_refl]) blast
  from calm_tick [OF t(1) run_api_calm [OF d(1,2) a] this] show ?thesis
    by (rule ends_mono) (rule tick_from [OF t(2)])
qed

section \<open>Event reports\<close>

lemma life_profile_cases:
  assumes "life_profile s = Some pf"
  shows "pf_index pf = KAdded \<Longrightarrow> s = Alive" "0 < pf_establish pf \<Longrightarrow> s = Born"
    "0 < pf_remove pf \<Longrightarrow> s = Closing" "0 < pf_destroy pf \<Longrightarrow> s = Removed" "pf_kind pf = Up \<Longrightarrow> s = Alive"
  using assms by (cases s; auto simp: KAdded_def KNew_def KDelete_def)+

lemma alive_up: "life_profile Alive = Some pf \<Longrightarrow> up_profile pf"
  by (auto simp: up_profile_def)

lemma alive_closings:
  assumes "life_profile Alive = Some pf" "pf' \<in> closings pf"
  shows "\<exists>b. life_profile b = Some pf' \<and> (Alive = b \<or> life_step Alive b)"
proof -
  have "life_profile Removed = Some pf' \<or> life_profile Closing = Some pf'"
    using assms by (auto simp: closings_def)
  then show ?thesis by (auto simp del: life_profile.simps)
qed

lemma stands_here:
  assumes "server_inv sid w" "profile_of sid c w = Some pf"
  shows "stands sid c pf w"
  using server_inv_more [OF assms(1), of "{c}"] assms(2) by (simp add: stands_def)

text \<open>The report is taken off the list first.\<close>

lemma event_start:
  assumes i: "server_inv sid w" and ph: "m_phase w l = Handling (d # ds)"
  defines "x \<equiv> on_thread l (set_phase l (Handling ds) w)"
  shows "server_inv sid x" "profile_of sid c x = profile_of sid c w" "\<not> reported d x" "n_chans x = n_chans w"
    "\<exists>ch. n_chans w d = Some ch \<and> ch_loop ch = l \<and> ch_index ch = KAdded"
proof -
  note dd = server_inv_butD [OF i]
  let ?y = "set_phase l (Handling ds) w"
  have h: "distinct (d # ds)" "\<forall>b\<in>set (d # ds). \<exists>ch. n_chans w b = Some ch \<and> ch_loop ch = l \<and> ch_index ch = KAdded"
    using dd(7) [unfolded handling_ok_def, rule_format, OF ph] by blast+
  then show ch: "\<exists>ch. n_chans w d = Some ch \<and> ch_loop ch = l \<and> ch_index ch = KAdded" by simp
  have u: "upcoming k ?y = upcoming k w" for k using ph by (simp add: upcoming_def pending_at_def)
  have f: "framed w ?y" by (rule framed_chans_same) (simp_all add: u)
  have ok: "handling_ok ?y" using dd(7) h by (simp add: handling_ok_def)
  have y: "server_inv sid ?y" "profile_of sid c ?y = profile_of sid c w" for c
    using quiet_step [OF i f _ ok u] dd(1) by simp_all
  show "server_inv sid x" "profile_of sid c x = profile_of sid c w"
    using on_thread_inv [OF y(1), where l = l] y(2) by (simp_all add: x_def)
  show "n_chans x = n_chans w" by (simp add: x_def)
  show "\<not> reported d x"
  proof
    assume "reported d x"
    then obtain k es where k: "m_phase x k = Handling es" "d \<in> set es" by (auto simp: reported_def)
    show False
    proof (cases "k = l")
      case True
      then show False using k h(1) by (simp add: x_def)
    next
      case False
      then have "m_phase w k = Handling es" using k(1) by (simp add: x_def)
      then obtain ch where "n_chans w d = Some ch" "ch_loop ch = k" using dd(7) k(2) unfolding handling_ok_def by blast
      then show False using ch False by auto
    qed
  qed
qed

lemma conn_event_tick:
  assumes i: "server_inv sid x" and app: "local_app app" and cn: "cn_conns x c = Some cn"
    and ch: "n_chans x (cn_channel cn) = Some ch" "ch_index ch = KAdded" and rep: "\<not> reported (cn_channel cn) x"
  shows "ends server_faults (fold_res (run_server_handler app sid t) (fired ch) x) (tick sid x)"
proof -
  note d = server_inv_butD [OF i]
  obtain el where l: "linked c cn ch el x" using conn_invE [OF d(1) cn] ch(1) by (auto simp: linked_def)
  obtain a where a: "life_at sid c x a" using d(10) by blast
  obtain pf where pf: "profile_of sid c x = Some pf" "pf_index pf = KAdded"
    using cn ch by (simp add: profile_of_def)
  have al: "a = Alive" using life_profile_cases(1) [of a pf] a pf by (simp add: life_at_def)
  then have pfa: "life_profile Alive = Some pf" using a pf(1) by (simp add: life_at_def)
  have s: "stands sid c pf x" by (rule stands_here [OF i pf(1)])
  have own: "owns c cn ch" using l by (simp add: linked_def)
  have un: "unreported c x" using rep cn by (simp add: unreported_def)
  have "\<forall>h \<in> set (fired ch). handler_conn h = Some c" using owns_fired [OF own] by blast
  from sw.run_handlers_good [OF d(1,3) cn this]
  have good: "good app_faults x (fold_res (run_server_handler app sid t) (fired ch) x)"
    unfolding run_server_handler_def .
  have "safely (fold_res (run_server_handler app sid t) (fired ch) x) (turns sid c (insert pf (closings pf)) x)"
    by (rule conn_event_turns [OF s alive_up [OF pfa] un app own])
  then have "safely (fold_res (run_server_handler app sid t) (fired ch) x) (tick sid x)"
  proof (rule safely_mono)
    fix w'
    assume t: "turns sid c (insert pf (closings pf)) x w'"
    show "tick sid x w'"
    proof (rule turns_tick [OF s _ a t])
      show "\<exists>b. life_profile b = Some pf' \<and> (a = b \<or> life_step a b)" if "pf' \<in> insert pf (closings pf)" for pf'
        using that alive_closings [OF pfa, of pf'] pfa al by blast
    qed simp
  qed
  then show ?thesis by (rule good_turns_ends [OF good])
qed

lemma wakeup_tick:
  assumes i: "server_inv sid x" and l: "n_loops x l \<noteq> None"
  shows "ends server_faults (loop_handleRead l x) (tick sid x)"
proof -
  obtain el where el: "n_loops x l = Some el" using l by blast
  let ?w = "put_loop l (read_eventfd el) x"
  have u: "upcoming k ?w = upcoming k x" for k
    using el by (simp add: upcoming_def pending_at_def machine_simps read_eventfd_def)
  have inv: "conn_inv ?w" by (rule conn_inv_put_loop [OF server_inv_butD(1) [OF i] el]) (simp add: read_eventfd_def)
  have f: "framed x ?w" by (rule framed_chans_same) (use el u in \<open>simp_all add: machine_simps\<close>)
  have "handling_ok ?w" using server_inv_butD(7) [OF i] by (simp add: handling_ok_def machine_simps)
  from quiet_step [OF i f inv this u] show ?thesis using el by (simp add: loop_handleRead_def tick_still [OF i])
qed

lemma plain_fired:
  assumes "plain sid ch w"
  shows "fired ch = [] \<or> fired ch = [AcceptorHandleRead]
    \<or> fired ch = [LoopHandleRead (ch_loop ch)] \<and> n_loops w (ch_loop ch) \<noteq> None"
  using assms by (auto simp: plain_def fired_def)

theorem event_tick:
  assumes i: "server_inv sid w" and app: "local_app app" and ip: "short_ipPort sid"
    and ph: "m_phase w l = Handling (d # ds)" and acc: "accept_ok w"
  shows "ends server_faults (handleEvent (get_chan d) (run_server_handler app sid t) conn_alive
      (on_thread l (set_phase l (Handling ds) w))) (tick sid w)"
proof -
  let ?x = "on_thread l (set_phase l (Handling ds) w)"
  note x = event_start [OF i ph]
  obtain ch where ch: "n_chans ?x d = Some ch" "ch_loop ch = l" "ch_index ch = KAdded" using x(4,5) by auto
  note dd = server_inv_butD [OF x(1)]
  have "ends server_faults (fold_res (run_server_handler app sid t) (fired ch) ?x) (tick sid ?x)"
  proof (cases "\<exists>c cn. cn_conns ?x c = Some cn \<and> cn_channel cn = d")
    case True
    then show ?thesis using conn_event_tick [OF x(1) app] ch(1,3) x(3) by blast
  next
    case False
    then have p: "plain sid ch ?x" using dd(4) ch(1) unfolding chans_ok_def by blast
    have "accept_ok ?x" using acc by (auto simp: accept_ok_def fresh_fd_def next_accept_def split: accept_env.splits)
    from acceptor_birth [OF x(1) app ip this]
    have accept: "ends server_faults (acceptor_handleRead (newConnection app sid) ?x) (tick sid ?x)"
      by (rule ends_mono) (auto intro: birth_tick tick_still [OF x(1)])
    have wake: "n_loops ?x (ch_loop ch) \<noteq> None \<Longrightarrow> ends server_faults (loop_handleRead (ch_loop ch) ?x) (tick sid ?x)"
      by (rule wakeup_tick [OF x(1)])
    show ?thesis using plain_fired [OF p]
    proof (elim disjE conjE)
      assume "fired ch = []"
      then show ?thesis using tick_refl [OF x(1)] by simp
    next
      assume "fired ch = [AcceptorHandleRead]"
      then show ?thesis using accept
        by (cases "acceptor_handleRead (newConnection app sid) ?x")
          (simp_all add: run_server_handler_def run_conn_handler_def)
    next
      assume "fired ch = [LoopHandleRead (ch_loop ch)]" "n_loops ?x (ch_loop ch) \<noteq> None"
      then show ?thesis using wake
        by (cases "loop_handleRead (ch_loop ch) ?x") (simp_all add: run_server_handler_def run_conn_handler_def)
    qed
  qed
  then have "ends server_faults (handleEvent (get_chan d) (run_server_handler app sid t) conn_alive ?x) (tick sid ?x)"
    unfolding event_runs_fired [OF ch(1)] using tick_refl [OF x(1)] by simp
  then show ?thesis by (rule ends_mono) (rule tick_from [OF x(2)])
qed

section \<open>Functors\<close>

text \<open>The functor is taken off the list, but stays in the vector until all have run.\<close>

lemma functor_start:
  assumes i: "server_inv sid w" and ph: "m_phase w l = Running fs0 (f # fs)"
  defines "x \<equiv> on_thread l (set_phase l (Running fs0 fs) w)"
  shows "upcoming k w = (if k = l then f # upcoming k x else upcoming k x)"
    and "framed w x" "conn_inv x" "handling_ok x" "functor_valid sid l w f" "\<And>ds. m_phase x l \<noteq> Handling ds"
    and "drives f \<noteq> Some e \<Longrightarrow> profile_of sid e x = profile_of sid e w"
proof -
  note d = server_inv_butD [OF i]
  have u: "upcoming k w = (if k = l then f # upcoming k x else upcoming k x)" for k
    using ph by (simp add: x_def upcoming_def pending_at_def)
  then show "upcoming k w = (if k = l then f # upcoming k x else upcoming k x)" .
  show fr: "framed w x" by (rule framed_chans_same) (auto simp: u, simp_all add: x_def)
  show "conn_inv x" using d(1) by (simp add: x_def)
  show "handling_ok x" using d(7) by (simp add: x_def handling_ok_def)
  show "functor_valid sid l w f" using d(8) u [of l] unfolding valid_ok_def by auto
  show "m_phase x l \<noteq> Handling ds" for ds by (simp add: x_def)
  show "profile_of sid e x = profile_of sid e w" if "drives f \<noteq> Some e"
    by (rule framed_profile [OF fr _ d(1)]) (use that u in auto)
qed

lemma popped_profile:
  assumes i: "server_inv sid w" and ph: "m_phase w l = Running fs0 (f # fs)" and f: "drives f = Some c"
  defines "x \<equiv> on_thread l (set_phase l (Running fs0 fs) w)"
  obtains cn pf pf' where "cn_conns x c = Some cn" "profile_of sid c w = Some pf" "stands sid c pf' x" "bump c f pf' = pf"
proof -
  note x = functor_start [OF i ph, folded x_def]
  note d = server_inv_butD [OF i]
  obtain cn where cn: "cn_conns w c = Some cn" using x(5) f by (cases f) (auto simp: lives_on_def)
  obtain ch el where "linked c cn ch el w" using d(1) cn by (rule conn_invE)
  then have ch: "n_chans w (cn_channel cn) = Some ch" by (simp add: linked_def)
  have same: "cn_conns x = cn_conns w" "n_chans x = n_chans w" "sv x = sv w" by (simp_all add: x_def)
  have loc: "f = FConnectEstablished c \<or> f = FConnectDestroyed c \<Longrightarrow> l = cn_loop cn"
      "f = FRemoveConnectionInLoop c \<Longrightarrow> l = sv_loop sid"
    using x(5) cn by (auto simp: lives_on_def)
  obtain pf pf' where pf: "profile_of sid c w = Some pf" "profile_of sid c x = Some pf'"
    using cn ch by (simp add: profile_of_def same)
  have "f = FConnectEstablished c \<or> f = FConnectDestroyed c \<or> f = FRemoveConnectionInLoop c" using f by (cases f) auto
  then have "bump c f pf' = pf"
    using pf cn ch loc by (auto simp: profile_of_def same bump_def x(1))
  moreover have "server_inv_but {c} sid x"
    by (rule framed_inv [OF i x(2-4)]) (use x(7) f in auto)
  ultimately show ?thesis using that [of cn pf pf'] cn pf by (simp add: same stands_def)
qed

lemma functor_tick_from_turns:
  assumes i: "server_inv sid w" and ph: "m_phase w l = Running fs0 (f # fs)" and f: "drives f = Some c"
    and s: "stands sid c pf' (on_thread l (set_phase l (Running fs0 fs) w))" and a: "life_at sid c w a"
    and r: "safely r (turns sid c P (on_thread l (set_phase l (Running fs0 fs) w)))" "good app_faults z r"
    and P: "\<And>pf'. pf' \<in> P \<Longrightarrow> \<exists>b. life_profile b = Some pf' \<and> (a = b \<or> life_step a b)"
  shows "ends server_faults r (tick sid w)"
proof (rule good_turns_ends [OF r(2)])
  note x = functor_start [OF i ph]
  have same: "e \<noteq> c \<Longrightarrow> profile_of sid e (on_thread l (set_phase l (Running fs0 fs) w)) = profile_of sid e w" for e
    using x(7) [of e] f by simp
  show "safely r (tick sid w)"
    using r(1) by (rule safely_mono) (rule turns_tick [OF s same a _ P])
qed

text \<open>A functor that does not drive a life.\<close>

lemma benign_start:
  assumes i: "server_inv sid w" and ph: "m_phase w l = Running fs0 (f # fs)" and f: "drives f = None"
  shows "server_inv sid (on_thread l (set_phase l (Running fs0 fs) w))"
    "profile_of sid c (on_thread l (set_phase l (Running fs0 fs) w)) = profile_of sid c w"
proof -
  note x = functor_start [OF i ph]
  show "profile_of sid c (on_thread l (set_phase l (Running fs0 fs) w)) = profile_of sid c w" for c
    using x(7) [of c] f by simp
  then show "server_inv sid (on_thread l (set_phase l (Running fs0 fs) w))"
    by (intro framed_inv [OF i x(2-4)]) simp
qed

lemma force_close_tick:
  assumes i: "server_inv sid x" and app: "local_app app" and c: "lives_on c l x" and ph: "\<And>ds. m_phase x l \<noteq> Handling ds"
  shows "ends server_faults (forceCloseInLoop app (server_close sid) c x) (tick sid x)"
proof -
  note d = server_inv_butD [OF i]
  obtain cn where cn: "cn_conns x c = Some cn" "cn_loop cn = l" using c by (auto simp: lives_on_def)
  obtain ch el where lk: "linked c cn ch el x" using d(1) cn(1) by (rule conn_invE)
  obtain a where a: "life_at sid c x a" using d(10) by blast
  obtain pf where pf: "profile_of sid c x = Some pf" using cn lk by (simp add: profile_of_def linked_def)
  have la: "life_profile a = Some pf" using a pf by (simp add: life_at_def)
  have s: "stands sid c pf x" by (rule stands_here [OF i pf])
  have "unreported c x" unfolding unreported_def
  proof (intro allI impI notI)
    fix cn'
    assume *: "cn_conns x c = Some cn'" "reported (cn_channel cn') x"
    then obtain k ds where k: "m_phase x k = Handling ds" "cn_channel cn \<in> set ds" using cn(1) by (auto simp: reported_def)
    then obtain ch' where "n_chans x (cn_channel cn) = Some ch'" "ch_loop ch' = k"
      using d(7) unfolding handling_ok_def by blast
    then have "k = l" using lk cn(2) by (simp add: linked_def owns_def)
    then show False using k(1) ph by simp
  qed
  then have t: "safely (forceCloseInLoop app (server_close sid) c x)
      (turns sid c (if pf_kind pf = Up then closings pf else {pf}) x)"
    by (intro forceCloseInLoop_turns [OF s _ _ app]) (use life_profile_cases(5) [OF la] la alive_up in auto)
  have P: "\<exists>b. life_profile b = Some pf' \<and> (a = b \<or> life_step a b)"
    if "pf' \<in> (if pf_kind pf = Up then closings pf else {pf})" for pf'
    using that la life_profile_cases(5) [OF la] alive_closings [of pf pf'] by (auto split: if_splits simp del: life_profile.simps life_step_simps)
  have "safely (forceCloseInLoop app (server_close sid) c x) (tick sid x)"
    using t by (rule safely_mono) (rule turns_tick [OF s refl a _ P])
  moreover have "good app_faults x (forceCloseInLoop app (server_close sid) c x)"
    by (rule sw.forceCloseInLoop_good [OF d(1,3) cn(1)])
  ultimately show ?thesis by (intro good_turns_ends)
qed

theorem functor_tick:
  assumes i: "server_inv sid w" and app: "local_app app" and ph: "m_phase w l = Running fs0 (f # fs)"
  shows "ends server_faults (run_server_functor app sid ok f (on_thread l (set_phase l (Running fs0 fs) w))) (tick sid w)"
proof -
  let ?x = "on_thread l (set_phase l (Running fs0 fs) w)"
  note x = functor_start [OF i ph]
  note d = server_inv_butD [OF i]
  have apps: "ends server_faults (call_app app ev ?x) (tick sid w)" if f: "drives f = None" for ev
  proof -
    note b = benign_start [OF i ph f]
    note bd = server_inv_butD [OF b(1)]
    have "good app_faults ?x (call_app app ev ?x)" by (rule call_app_good [OF bd(1)]) blast
    from calm_tick [OF b(1) call_app_calm [OF bd(1,2) app] this] show ?thesis
      by (rule ends_mono) (rule tick_from [OF b(2)])
  qed
  show ?thesis
  proof (cases f)
    case (FConnectEstablished c)
    then have f: "drives f = Some c" by simp
    obtain cn pf pf' where p: "cn_conns ?x c = Some cn" "profile_of sid c w = Some pf" "stands sid c pf' ?x" "bump c f pf' = pf"
      using i ph f by (rule popped_profile)
    obtain a where a: "life_at sid c w a" using d(10) by blast
    have "a = Born" using a p(2,4) FConnectEstablished life_profile_cases(2) [of a pf] by (auto simp: life_at_def bump_def)
    then have b: "pf' = born_profile" "a = Born"
      using a p(2,4) FConnectEstablished by (cases pf', simp add: life_at_def bump_def)+
    obtain cn' where "cn_conns ?x c = Some cn'" "kind_of (cn_state cn') = pf_kind pf'" using p(3) by (rule stands_conn)
    then have st: "cn_state cn = kConnecting" using p(1) b(1) by (cases "cn_state cn") auto
    have "pf'\<lparr>pf_kind := Up, pf_index := KAdded\<rparr> \<in> {pf''. life_profile Alive = Some pf''}" using b(1) by simp
    then have t: "safely (connectEstablished app c ?x) (turns sid c {pf''. life_profile Alive = Some pf''} ?x)"
      using connectEstablished_turns [OF p(3) _ app] b(1) by (auto elim!: turns_mono)
    have "ends server_faults (connectEstablished app c ?x) (tick sid w)"
      by (rule functor_tick_from_turns [OF i ph f p(3) a t sw.connectEstablished_good [OF x(3) p(1) st]]) (use b(2) life_step.intros in blast)
    then show ?thesis using FConnectEstablished by (simp add: run_server_functor_def run_conn_functor_def)
  next
    case (FConnectDestroyed c)
    then have f: "drives f = Some c" by simp
    obtain cn pf pf' where p: "cn_conns ?x c = Some cn" "profile_of sid c w = Some pf" "stands sid c pf' ?x" "bump c f pf' = pf"
      using i ph f by (rule popped_profile)
    obtain a where a: "life_at sid c w a" using d(10) by blast
    have "a = Removed" using a p(2,4) FConnectDestroyed life_profile_cases(4) [of a pf] by (auto simp: life_at_def bump_def)
    then have b: "pf' = \<lparr>pf_kind = Down, pf_establish = 0, pf_remove = 0, pf_destroy = 0, pf_mapped = False, pf_index = KDelete\<rparr>"
        "a = Removed"
      using a p(2,4) FConnectDestroyed by (cases pf', simp add: life_at_def bump_def)+
    have t: "safely (connectDestroyed app c ?x) (turns sid c {pf''. life_profile Dead = Some pf''} ?x)"
      by (rule turns_mono [OF connectDestroyed_turns [OF p(3)]]) (use b(1) in auto)
    have "ends server_faults (connectDestroyed app c ?x) (tick sid w)"
      by (rule functor_tick_from_turns [OF i ph f p(3) a t sw.connectDestroyed_good [OF x(3) p(1)]]) (use b(2) life_step.intros in blast)
    then show ?thesis using FConnectDestroyed by (simp add: run_server_functor_def run_conn_functor_def)
  next
    case (FRemoveConnectionInLoop c)
    then have f: "drives f = Some c" by simp
    obtain cn pf pf' where p: "cn_conns ?x c = Some cn" "profile_of sid c w = Some pf" "stands sid c pf' ?x" "bump c f pf' = pf"
      using i ph f by (rule popped_profile)
    obtain a where a: "life_at sid c w a" using d(10) by blast
    have "a = Closing" using a p(2,4) FRemoveConnectionInLoop life_profile_cases(3) [of a pf] by (auto simp: life_at_def bump_def)
    then have b: "pf' = \<lparr>pf_kind = Down, pf_establish = 0, pf_remove = 0, pf_destroy = 0, pf_mapped = True, pf_index = KDelete\<rparr>"
        "a = Closing"
      using a p(2,4) FRemoveConnectionInLoop by (cases pf', simp add: life_at_def bump_def)+
    have t: "safely (removeConnectionInLoop c ?x) (turns sid c {pf''. life_profile Removed = Some pf''} ?x)"
      by (rule turns_mono [OF removeConnectionInLoop_turns [OF p(3)]]) (use b(1) in auto)
    have "ends server_faults (removeConnectionInLoop c ?x) (tick sid w)"
      by (rule functor_tick_from_turns [OF i ph f p(3) a t removeConnectionInLoop_good [OF x(3) p(1)]]) (use b(2) life_step.intros in blast)
    then show ?thesis using FRemoveConnectionInLoop by (simp add: run_server_functor_def run_conn_functor_def)
  next
    case (FForceCloseInLoop c)
    then have f: "drives f = None" by simp
    note b = benign_start [OF i ph f]
    have "lives_on c l ?x" using x(5) FForceCloseInLoop by (simp add: lives_on_def)
    from force_close_tick [OF b(1) app this x(6)] have "ends server_faults (forceCloseInLoop app (server_close sid) c ?x) (tick sid w)"
      by (rule ends_mono) (rule tick_from [OF b(2)])
    then show ?thesis using FForceCloseInLoop by (simp add: run_server_functor_def run_conn_functor_def)
  qed (use x(5) apps in \<open>simp_all add: run_server_functor_def run_conn_functor_def\<close>)
qed

section \<open>The end of a connection\<close>

lemma unheld_functors:
  assumes "\<not> held c w" "f \<in> set (upcoming l w)"
  shows "holds f \<noteq> Some c"
  using assms unfolding held_def by blast

lemma unheld_dead:
  assumes i: "server_inv sid w" and c: "cn_conns w c \<noteq> None" "\<not> held c w"
  shows "life_at sid c w Dead"
proof -
  note d = server_inv_butD [OF i]
  obtain cn where cn: "cn_conns w c = Some cn" using c(1) by blast
  obtain ch el where l: "linked c cn ch el w" using d(1) cn by (rule conn_invE)
  obtain pf where pf: "profile_of sid c w = Some pf" using cn l by (simp add: profile_of_def linked_def)
  have none: "f \<notin> set (upcoming k w)" if "holds f = Some c" for f k
    using unheld_functors [OF c(2), of f k] that by blast
  have "\<not> pf_mapped pf" "pf_establish pf = 0" "pf_remove pf = 0" "pf_destroy pf = 0"
    using pf cn l c(2) none [of "FConnectEstablished c"] none [of "FRemoveConnectionInLoop c"] none [of "FConnectDestroyed c"]
    by (auto simp: profile_of_def linked_def held_def)
  moreover obtain a where a: "life_profile a = Some pf" using d(10) [of c] pf by (auto simp: life_at_def)
  ultimately have "a = Dead" by (cases a) auto
  with a pf show ?thesis by (simp add: life_at_def)
qed

definition gone :: "nat \<Rightarrow> nat \<Rightarrow> 'a conn_net_scheme \<Rightarrow> 'a conn_net_scheme" where
  "gone c b w = w\<lparr>n_chans := (n_chans w)(b := None), cn_conns := (cn_conns w)(c := None)\<rparr>"

lemma gone_simps [simp]:
  "cn_conns (gone c b w) = (cn_conns w)(c := None)" "n_chans (gone c b w) = (n_chans w)(b := None)"
  "n_loops (gone c b w) = n_loops w" "cn_strings (gone c b w) = cn_strings w" "n_tid (gone c b w) = n_tid w"
  "conn_net.more (gone c b w) = conn_net.more w"
  by (simp_all add: gone_def)

lemma gone_machine [simp]:
  "sv (gone c b w) = sv w" "m_phase (gone c b w) = m_phase w" "upcoming l (gone c b w) = upcoming l w"
  by (simp_all add: gone_def upcoming_def pending_at_def)

lemma gone_conn_inv:
  assumes inv: "conn_inv w" and cn: "cn_conns w c = Some cn" "n_chans w (cn_channel cn) = Some ch" "ch_index ch = KNew"
  shows "conn_inv (gone c (cn_channel cn) w)"
proof -
  let ?w = "gone c (cn_channel cn) w"
  have "poller_inv l p (n_chans ?w)" if "poller_inv l p (n_chans w)" for l p
    using that by (rule poller_inv_cong) (use cn in simp)
  then have "net_inv ?w" using inv by (simp add: conn_inv_def net_inv_def)
  moreover have "linked e en eh el ?w" if "linked e en eh el w" "e \<noteq> c" for e en eh el
    using that other_channel [OF inv cn(1), of e en] by (auto simp: linked_def)
  then have "\<exists>eh el. linked e en eh el ?w \<and> conn_local en eh" if "cn_conns ?w e = Some en" for e en
    using that inv by (auto simp: conn_inv_def split: if_splits) metis
  ultimately show ?thesis using inv unfolding conn_inv_def by (auto split: if_splits)
qed

lemma collect_tick:
  assumes i: "server_inv sid w" and c: "cn_conns w c \<noteq> None" "\<not> held c w"
  shows "ends server_faults (destroy_conn c w) (tick sid w)"
proof -
  note d = server_inv_butD [OF i]
  obtain cn where cn: "cn_conns w c = Some cn" using c(1) by blast
  obtain ch el where l: "linked c cn ch el w" using d(1) cn by (rule conn_invE)
  then have ch: "n_chans w (cn_channel cn) = Some ch" by (simp add: linked_def)
  have dead: "life_at sid c w Dead" by (rule unheld_dead [OF i c])
  then have ch_new: "ch_index ch = KNew" using cn ch by (simp add: life_at_def profile_of_def)
  let ?w = "gone c (cn_channel cn) w"
  have inv': "conn_inv ?w" by (rule gone_conn_inv [OF d(1) cn ch ch_new])
  have p: "profile_of sid e ?w = profile_of sid e w" if "e \<noteq> c" for e
  proof (cases "cn_conns w e")
    case (Some en)
    then show ?thesis using other_channel [OF d(1) cn Some that] that by (simp add: profile_of_def split: option.split)
  qed (use that in \<open>simp add: profile_of_def\<close>)
  have pc: "profile_of sid c ?w = None" by (simp add: profile_of_def)
  have absent: "life_at sid c ?w Absent" using pc by (simp add: life_at_def)
  have up: "up_registered (profile_of sid e ?w)" for e
    using pc p [of e] d(2) by (cases "e = c") (auto simp: registered_up_profile [where sid = sid] up_registered_def)
  then have "registered_up ?w" by (simp add: registered_up_profile [where sid = sid])
  moreover have "chans_ok sid ?w" unfolding chans_ok_def
  proof (intro allI impI)
    fix b bh
    assume b: "n_chans ?w b = Some bh"
    then have "b \<noteq> cn_channel cn" "n_chans w b = Some bh" by (simp_all split: if_splits)
    then consider e en where "cn_conns w e = Some en" "cn_channel en = b" "e \<noteq> c" | "plain sid bh w"
      using d(4) cn unfolding chans_ok_def by force
    then show "(\<exists>e en. cn_conns ?w e = Some en \<and> cn_channel en = b) \<or> plain sid bh ?w"
    proof cases
      case 1
      then have "cn_conns ?w e = Some en" by simp
      then show ?thesis using 1(2) by blast
    next
      case 2
      then show ?thesis by (simp add: plain_def)
    qed
  qed
  moreover have "map_ok sid ?w"
  proof -
    have "e \<noteq> c" if "sv_connections (sv w) nm = Some e" for nm e
      using that c(2) by (auto simp: held_def)
    then show ?thesis using d(5) by (auto simp: map_ok_def)
  qed
  moreover have "handling_ok ?w" unfolding handling_ok_def
  proof (intro allI impI)
    fix k ds
    assume "m_phase ?w k = Handling ds"
    then have *: "distinct ds \<and> (\<forall>b\<in>set ds. \<exists>bh. n_chans w b = Some bh \<and> ch_loop bh = k \<and> ch_index bh = KAdded)"
      using d(7) by (simp add: handling_ok_def)
    have "b \<noteq> cn_channel cn" if "n_chans w b = Some bh" "ch_index bh = KAdded" for b bh
      using that ch ch_new by (auto simp: KNew_def KAdded_def)
    with * show "distinct ds \<and> (\<forall>b\<in>set ds. \<exists>bh. n_chans ?w b = Some bh \<and> ch_loop bh = k \<and> ch_index bh = KAdded)"
      by fastforce
  qed
  moreover have "valid_ok sid ?w" unfolding valid_ok_def
  proof (intro allI ballI)
    fix k f
    assume f: "f \<in> set (upcoming k ?w)"
    then have "functor_valid sid k w f" "holds f \<noteq> Some c"
      using d(8) unheld_functors [OF c(2), of f k] by (simp_all add: valid_ok_def)
    then show "functor_valid sid k ?w f" by (cases f) (auto simp: lives_on_def)
  qed
  moreover have "\<exists>s. life_at sid e ?w s" for e
  proof (cases "e = c")
    case True
    then show ?thesis using absent by blast
  next
    case False
    then show ?thesis using d(10) [of e] p [of e] by (simp add: life_at_def)
  qed
  moreover have "pool_ok ?w" "closers_ok ?w" "n_loops ?w (sv_loop sid) \<noteq> None"
    using d(3,6,9) by (simp_all add: pool_ok_def closers_ok_def)
  ultimately have "server_inv sid ?w" using inv' by (simp add: server_inv_but_def)
  then have "tick sid w ?w" using absent dead p life_step.intros(8) unfolding tick_def by blast
  then show ?thesis using cn by (simp add: destroy_conn_def get_conn_def gone_def)
qed

section \<open>All steps\<close>

theorem step_tick:
  assumes "machine_step app sid w r" and i: "server_inv sid w" and app: "local_app app" and ip: "short_ipPort sid"
  shows "ends server_faults r (tick sid w)"
  using assms(1)
proof cases
  case (polls l env)
  then show ?thesis using polls_tick [OF i] by simp
next
  case (event l d ds t)
  then show ?thesis using event_tick [OF i app ip] by simp
next
  case (swap l)
  then show ?thesis using swap_tick [OF i] by simp
next
  case (run_functor l fs0 f fs)
  then show ?thesis using functor_tick [OF i app] by simp
next
  case (finish l fs0)
  then show ?thesis using finish_tick [OF i] by simp
next
  case (answers as)
  then show ?thesis using tick_still [OF i] server_inv_accepts [OF i] by simp
next
  case (call a t)
  then show ?thesis using call_tick [OF i confined_local] by simp
next
  case (collect c)
  then show ?thesis using collect_tick [OF i] by simp
qed

end
