(* ===== verification/Server_Properties.thy ===== *)
theory Server_Properties
  imports Server_Safety
begin

text \<open>
  The properties of a running server: the states that any interleaving of its loops and callers can
  reach, and what holds in them.
\<close>

section \<open>Reachable states\<close>

inductive reachable :: "(app_event \<Rightarrow> machine \<Rightarrow> api list) \<Rightarrow> server_id \<Rightarrow> machine \<Rightarrow> machine \<Rightarrow> bool"
  for app sid w0 where
  start: "reachable app sid w0 w0"
| step: "reachable app sid w0 w \<Longrightarrow> machine_step app sid w (Inr w') \<Longrightarrow> reachable app sid w0 w'"

lemma reachable_inv:
  assumes "reachable app sid w0 w" "server_inv sid w0" "confined_app app" "short_ipPort sid"
  shows "server_inv sid w"
  using assms(1)
proof induction
  case (step w w')
  then have "tick sid w w'" using step_tick [OF step.hyps(2) _ confined_app_local [OF assms(3)] assms(4)] by simp
  then show ?case by (simp add: tick_def)
qed (rule assms(2))

text \<open>A server that has no connection yet.\<close>

definition idle :: "server_id \<Rightarrow> machine \<Rightarrow> bool" where
  "idle sid w \<longleftrightarrow> conn_inv w \<and> cn_conns w = Map.empty \<and> sv_connections (sv w) = Map.empty
     \<and> 1 \<le> sv_nextConnId (sv w) \<and> sv_nextConnId (sv w) < 2 ^ 31
     \<and> n_loops w (sv_loop sid) \<noteq> None \<and> pool_ok w \<and> (\<forall>d ch. n_chans w d = Some ch \<longrightarrow> plain sid ch w)
     \<and> (\<forall>l. m_phase w l = Waiting) \<and> (\<forall>l el. n_loops w l = Some el \<longrightarrow> pendingFunctors el = [])"

lemma idle_inv:
  assumes "idle sid w"
  shows "server_inv sid w" "life_at sid c w Absent"
proof -
  have u: "upcoming l w = []" for l
    using assms by (auto simp: idle_def upcoming_def pending_at_def split: option.split)
  show a: "life_at sid c w Absent" for c using assms by (simp add: idle_def life_at_def profile_of_def)
  show "server_inv sid w"
    using assms a by (auto simp: server_inv_but_def idle_def registered_up_def chans_ok_def map_ok_def handling_ok_def
        valid_ok_def closers_ok_def u)
qed

section \<open>Safety\<close>

text \<open>
  C1. A server with any number of loops, each in its own thread, in any interleaving of polls,
  events, functors, calls of the application and destructions of connections that nobody holds any
  more, keeps its invariant: poller, kernel, channels, connections and map agree, and every functor
  that waits is for a live object. No step uses a destroyed object, dereferences a null pointer or
  aborts in \<open>LOG_FATAL\<close>; the faults that remain are those of the application, of a buffer at the
  end of its range and of the connection number past the range of \<open>int\<close>. The application calls the
  members of a connection (\<open>send\<close>, \<open>shutdown\<close>, \<open>forceClose\<close>, the input buffer) in the thread of
  the connection's loop only, from a callback or between the steps of the loop: they are not
  synchronised, and \<open>forceClose_closes_twice\<close> shows what \<open>forceClose\<close> of another thread does. The
  kernel reports a descriptor once per poll and gives unused descriptors.
\<close>

theorem server_steps_safe:
  assumes "server_inv sid w0" "confined_app app" "short_ipPort sid" "reachable app sid w0 w" "machine_step app sid w r"
  shows "server_inv sid w
    \<and> ends {OutOfRange, BadAlloc, BadFunctionCall, Misuse, SignedOverflow} r (server_inv sid)"
proof -
  have i: "server_inv sid w" by (rule reachable_inv [OF assms(4,1-3)])
  have "ends server_faults r (server_inv sid)"
    using step_tick [OF assms(5) i confined_app_local [OF assms(2)] assms(3)] by (rule ends_mono) (simp add: tick_def)
  moreover have "server_faults = {OutOfRange, BadAlloc, BadFunctionCall, Misuse, SignedOverflow}" by blast
  ultimately show ?thesis using i by simp
qed

section \<open>The lives of the connections\<close>

definition lives_at :: "server_id \<Rightarrow> machine \<Rightarrow> (nat \<Rightarrow> life) \<Rightarrow> bool" where
  "lives_at sid w f \<longleftrightarrow> (\<forall>c. life_at sid c w (f c))"

lemma life_unique: "life_profile a = life_profile b \<Longrightarrow> a = b"
  by (cases a; cases b) (simp_all add: KNew_def KAdded_def KDelete_def)

lemma lives_tick:
  assumes f: "lives_at sid w f" and t: "tick sid w w'"
  shows "\<exists>g. lives_at sid w' g \<and> (g = f \<or> (\<exists>c b. life_step (f c) b \<and> g = f(c := b)))"
proof -
  obtain c a b where c: "\<forall>e. e \<noteq> c \<longrightarrow> profile_of sid e w' = profile_of sid e w" "life_at sid c w a"
      "life_at sid c w' b" "a = b \<or> life_step a b"
    using t unfolding tick_def by blast
  have "a = f c" using f c(2) by (intro life_unique) (simp add: lives_at_def life_at_def)
  moreover have "lives_at sid w' (f(c := b))" using f c(1,3) by (simp add: lives_at_def life_at_def)
  ultimately show ?thesis using c(4) by (metis fun_upd_triv)
qed

text \<open>
  C2. The server refines the life cycle of its connections. Read every connection by its state,
  its entry in the map, the registration of its channel and the functors that wait for it; then
  each step of the machine leaves all of them, or moves one of them along an edge of the cycle:
  created (and established later, when its loop is another one), established, closed, removed from
  the map, removed from the poller, destroyed. So as long as the application calls a connection in
  the thread of its loop (as above), no connection is established, removed or destroyed twice, none
  is removed before it was closed, and none is destroyed while its channel is registered or its name
  is in the map.
\<close>

theorem server_refines_lives:
  assumes "server_inv sid w0" "confined_app app" "short_ipPort sid" "reachable app sid w0 w"
    and "machine_step app sid w (Inr w')" "lives_at sid w f"
  shows "\<exists>g. lives_at sid w' g \<and> (g = f \<or> (\<exists>c b. life_step (f c) b \<and> g = f(c := b)))"
proof (rule lives_tick [OF assms(6)])
  have "server_inv sid w" by (rule reachable_inv [OF assms(4,1-3)])
  from step_tick [OF assms(5) this confined_app_local [OF assms(2)] assms(3)] show "tick sid w w'" by simp
qed

text \<open>
  C21. Whenever a running server has drained its functors (no loop has one waiting or left in the
  vector it runs), no connection is half way, whatever polls, events, functors, calls and
  destructions came before: every object of a connection is established, in the map under its name
  and with a registered channel, or it is closed, in no map and its channel is known to no poller.
\<close>

theorem nothing_half_way:
  assumes "server_inv sid w0" "confined_app app" "short_ipPort sid" "reachable app sid w0 w"
    and "\<forall>l. upcoming l w = []" "cn_conns w c = Some cn"
  shows "\<exists>ch. n_chans w (cn_channel cn) = Some ch
    \<and> (kind_of (cn_state cn) = Up \<and> sv_connections (sv w) (cn_name cn) = Some c \<and> ch_index ch = KAdded
       \<or> kind_of (cn_state cn) = Down \<and> sv_connections (sv w) (cn_name cn) \<noteq> Some c \<and> ch_index ch = KNew)"
proof -
  note d = server_inv_butD [OF reachable_inv [OF assms(4,1-3)]]
  obtain ch el where "linked c cn ch el w" using d(1) assms(6) by (rule conn_invE)
  then have ch: "n_chans w (cn_channel cn) = Some ch" by (simp add: linked_def)
  obtain a where "life_at sid c w a" using d(10) by blast
  then have "life_profile a = Some \<lparr>pf_kind = kind_of (cn_state cn), pf_establish = 0, pf_remove = 0, pf_destroy = 0,
      pf_mapped = (sv_connections (sv w) (cn_name cn) = Some c), pf_index = ch_index ch\<rparr>"
    using assms(5,6) ch by (simp add: life_at_def profile_of_def)
  then show ?thesis using ch by (cases a) auto
qed

section \<open>A sample machine\<close>

definition sample_machine :: "accept_env list \<Rightarrow> machine" where
  "sample_machine acs = server_net.extend (sample_net (Some DefaultCb) acs) (machine.fields (\<lambda>_. Waiting))"

lemma sample_machine_simps [simp]:
  "cn_conns (sample_machine acs) = Map.empty" "sv (sample_machine acs) = sample_server (Some DefaultCb)"
  "n_chans (sample_machine acs) = [8 \<mapsto> (mk_channel 1 8)\<lparr>readCallback := Some AcceptorHandleRead\<rparr>]"
  "n_loops (sample_machine acs) = [1 \<mapsto> mk_loop 1 (mk_poller (\<lambda>_ _. False)) 3 4]"
  "m_phase (sample_machine acs) l = Waiting"
  by (simp_all add: sample_machine_def server_net.defs machine.defs sample_net_def)

lemma sample_machine_idle: "idle sample_id (sample_machine acs)"
proof -
  have "conn_inv (sample_machine acs) = conn_inv (sample_net (Some DefaultCb) acs)"
    by (simp add: conn_inv_def linked_def net_inv_def)
      (simp add: sample_machine_def sample_net_def server_net.defs machine.defs)
  then have "conn_inv (sample_machine acs)" using sample_net_inv by simp
  moreover have "plain sample_id ((mk_channel 1 8)\<lparr>readCallback := Some AcceptorHandleRead\<rparr>) (sample_machine acs)"
    by (simp add: plain_def mk_channel_def)
  moreover have "pool_ok (sample_machine acs)"
    by (simp add: pool_ok_def sample_server_def getAllLoops_def mk_pool_def pool_inv_def)
  ultimately show ?thesis
    by (auto simp: idle_def sample_server_def sample_id_def mk_loop_def split: if_splits)
qed

lemma sample_short: "short_ipPort sample_id"
  by (simp add: short_ipPort_def sample_id_def)

lemma quiet_local: "local_app quiet"
  by (simp add: local_app_def quiet_def)

lemma quiet_confined: "confined_app quiet"
  by (simp add: confined_app_def quiet_def)

lemma sample_poll:
  "machine_step quiet sample_id (sample_machine acs) (poll_step 1 (Ready [(8, 1)]) (on_thread 1 (sample_machine acs)))"
  by (rule polls) (simp_all add: poll_env_ok_def)

lemma sample_poll_returns:
  "returns (poll_step 1 (Ready [(8, 1)]) (on_thread 1 (sample_machine acs))) (server_inv sample_id)"
proof -
  have "returns (poll_step 1 (Ready [(8, 1)]) (on_thread 1 (sample_machine acs)))
      (\<lambda>w'. server_inv sample_id w' \<and> (\<forall>c. profile_of sample_id c w' = profile_of sample_id c (on_thread 1 (sample_machine acs))))"
    by (rule poll_step_ok [OF on_thread_inv(1) [OF idle_inv(1) [OF sample_machine_idle]]])
      (simp_all add: poll_env_ok_def)
  then show ?thesis by (rule returns_mono) simp
qed

theorem server_steps_safe_witness:
  "ends {OutOfRange, BadAlloc, BadFunctionCall, Misuse, SignedOverflow}
     (poll_step 1 (Ready [(8, 1)]) (on_thread 1 (sample_machine []))) (server_inv sample_id)"
  using server_steps_safe [OF idle_inv(1) [OF sample_machine_idle] quiet_confined sample_short reachable.start sample_poll]
  by blast

theorem server_refines_lives_witness:
  "\<exists>w' g. machine_step quiet sample_id (sample_machine []) (Inr w') \<and> lives_at sample_id w' g"
proof -
  obtain w' where w': "poll_step 1 (Ready [(8, 1)]) (on_thread 1 (sample_machine [])) = Inr w'"
    using sample_poll_returns [of "[]"] by (auto simp: returns_iff)
  then have s: "machine_step quiet sample_id (sample_machine []) (Inr w')" using sample_poll [of "[]"] by simp
  have "lives_at sample_id (sample_machine []) (\<lambda>_. Absent)"
    using idle_inv(2) [OF sample_machine_idle] by (simp add: lives_at_def)
  from server_refines_lives [OF idle_inv(1) [OF sample_machine_idle] quiet_confined sample_short reachable.start s this]
  show ?thesis using s by blast
qed


section \<open>An accepted connection\<close>

text \<open>
  C20. A new connection gets the next loop of the pool, a name that no connection in the map has and
  the descriptor that \<open>accept\<close> returned. When the handler returns it is in the map, established
  already or with exactly one \<open>connectEstablished\<close> waiting in its loop; no other connection
  changes.
\<close>

theorem accepted_connection_is_born:
  assumes "server_inv sid w" "local_app app" "short_ipPort sid" "newConnectionCallback (sv_acceptor (sv w))"
    and "next_accept w = Accepted sk peer local c d" "fresh_fd (sk_fd sk) w" "\<not> sk_fin sk"
  shows "ends {OutOfRange, BadAlloc, BadFunctionCall, Misuse, SignedOverflow}
      (acceptor_handleRead (newConnection app sid) w)
    (\<lambda>w'. server_inv sid w' \<and> life_at sid c w Absent \<and> (life_at sid c w' Born \<or> life_at sid c w' Alive)
       \<and> sv_connections (sv w) (connName sid (sv_nextConnId (sv w))) = None
       \<and> (\<exists>cn. cn_conns w' c = Some cn \<and> cn_name cn = connName sid (sv_nextConnId (sv w))
            \<and> cn_loop cn = getAllLoops (sv_pool (sv w)) ! turn (sv_pool (sv w)) \<and> sk_fd (cn_socket cn) = sk_fd sk)
       \<and> (\<forall>e a. e \<noteq> c \<longrightarrow> life_at sid e w' a = life_at sid e w a))"
proof -
  let ?w = "w\<lparr>sv_accepts := tl (sv_accepts w)\<rparr>"
  have i: "server_inv sid ?w" and p: "profile_of sid e ?w = profile_of sid e w" for e
    using server_inv_accepts [OF assms(1)] by simp_all
  have fresh: "fresh_fd (sk_fd sk) ?w" using assms(6) by (simp add: fresh_fd_def)
  have new: "sv_connections (sv w) (connName sid (sv_nextConnId (sv w))) = None"
    by (rule name_is_new [OF server_inv_butD(5) [OF assms(1)] assms(3)])
  have "ends server_faults (newConnection app sid sk peer local c d ?w) (\<lambda>w'. True \<and> birth sid (sk_fd sk) c ?w w')"
    by (rule ends_safely_conj [OF newConnection_ends [OF i fresh assms(7)] newConnection_birth [OF i assms(2,3) fresh assms(7)]])
  moreover have "server_faults = {OutOfRange, BadAlloc, BadFunctionCall, Misuse, SignedOverflow}" by blast
  ultimately have "ends {OutOfRange, BadAlloc, BadFunctionCall, Misuse, SignedOverflow}
      (newConnection app sid sk peer local c d ?w) (\<lambda>w'. True \<and> birth sid (sk_fd sk) c ?w w')" by simp
  then show ?thesis
    unfolding acceptor_handleRead_def Let_def assms(5) using assms(4)
    by (auto simp: birth_def newborn_def life_at_def p new elim!: ends_mono)
qed

section \<open>A sample connection\<close>

lemma default_established:
  fixes w :: machine
  assumes inv: "conn_inv w" and cn: "cn_conns w c = Some cn" "cn_connectionCallback cn = Some DefaultCb"
  shows "returns (connectEstablished app c w) (\<lambda>w'. m_phase w' = m_phase w \<and> (\<forall>l el. n_loops w' l = Some el \<longrightarrow>
      (\<exists>el0. n_loops w l = Some el0 \<and> pendingFunctors el = pendingFunctors el0)))"
proof -
  obtain ch el where l: "linked c cn ch el w" "focused c cn ch el w" "setc c cn ch el w = w"
    using inv cn(1) by (rule conn_invE)
  let ?cn = "cn\<lparr>cn_state := kConnected\<rparr>" and ?tied = "tie_channel c ch"
  let ?ch = "masked EnableReading ?tied"
  have f: "focused c ?cn ?tied el w" using focused_tied [OF focused_conn [OF _ l(2), of ?cn]] by simp
  have p: "put_chan (cn_channel cn) ?tied (put_conn c ?cn w) = setc c ?cn ?tied el w"
    using setc_put_conn [of ?cn cn c ch el w] setc_put_chan [of "cn_channel cn" ?cn ?tied c ch el w] l(3) by simp
  have "change_mask EnableReading (cn_channel cn) (put_chan (cn_channel cn) ?tied (put_conn c ?cn w))
      = Inr (setc c ?cn ?ch (synced (cn_channel cn) ?ch el) w)"
    unfolding p by (simp add: setc_change_mask [OF f])
  then show ?thesis using cn l(1)
    by (simp add: connectEstablished_def get_conn_def get_chan_def linked_def connectionCallback_def)
qed

definition sample_accepted :: machine where
  "sample_accepted = (case newConnection quiet sample_id (sample_sock []) sample_addr sample_addr 5 6
     (sample_machine []) of Inr w \<Rightarrow> w | Inl _ \<Rightarrow> sample_machine [])"

lemma sample_fresh: "fresh_fd (sk_fd (sample_sock [])) (sample_machine acs)" "\<not> sk_fin (sample_sock [])"
  by (auto simp: fresh_fd_def sample_sock_def mk_channel_def)

lemma sample_next_loop: "getNextLoop (sv_pool (sv (sample_machine acs))) = Inr (1, mk_pool 1 ''s'')"
  by (simp add: sample_server_def getNextLoop_def mk_pool_def)

lemma sample_tid [simp]: "n_tid (sample_machine acs) = 1"
  by (simp add: sample_machine_def server_net.defs machine.defs sample_net_def)

lemma sample_accepted_ok:
  "newConnection quiet sample_id (sample_sock []) sample_addr sample_addr 5 6 (sample_machine []) = Inr sample_accepted"
  "server_inv sample_id sample_accepted" "upcoming l sample_accepted = []" "cn_conns sample_accepted 5 \<noteq> None"
proof -
  let ?w = "sample_machine []"
  let ?x = "born sample_id (sample_sock []) sample_addr sample_addr 5 6 1 (mk_pool 1 ''s'') ?w"
  have i: "server_inv sample_id ?w" by (rule idle_inv(1) [OF sample_machine_idle])
  have inv: "conn_inv ?x"
    by (rule born_inv [OF server_inv_butD(1) [OF i] fresh_fd_free [OF server_inv_butD(1) [OF i] sample_fresh(1)] sample_fresh(2)]) simp_all
  have c: "cn_conns ?w 5 = None" "n_chans ?w 6 = None" by simp_all
  have cn: "cn_conns ?x 5 = Some (configured (sv ?w) (mk_conn 1 (connName sample_id (sv_nextConnId (sv ?w))) (sample_sock []) 6 sample_addr sample_addr))"
    using born_extends [OF c, where sid = sample_id and sk = "sample_sock []" and local = sample_addr
        and peer = sample_addr and l = 1 and p = "mk_pool 1 ''s''"]
    by (simp add: extends_def)
  have "newConnection quiet sample_id (sample_sock []) sample_addr sample_addr 5 6 ?w
      = runInLoop 1 (FConnectEstablished 5) (connectEstablished quiet 5) ?x"
    by (rule newConnection_born [OF sample_next_loop]) (simp_all add: sample_server_def)
  also have "\<dots> = connectEstablished quiet 5 ?x"
  proof -
    have "n_loops ?x 1 = Some (mk_loop 1 (mk_poller (\<lambda>_ _. False)) 3 4)" by simp
    from runInLoop_cases [OF this] show ?thesis by (simp add: mk_loop_def)
  qed
  finally have eq: "newConnection quiet sample_id (sample_sock []) sample_addr sample_addr 5 6 ?w = connectEstablished quiet 5 ?x" .
  have r: "returns (connectEstablished quiet 5 ?x) (\<lambda>w'. m_phase w' = m_phase ?x \<and> (\<forall>l el. n_loops w' l = Some el \<longrightarrow>
      (\<exists>el0. n_loops ?x l = Some el0 \<and> pendingFunctors el = pendingFunctors el0)))"
    by (rule default_established [OF inv cn]) (simp add: configured_def sample_server_def)
  then show a: "newConnection quiet sample_id (sample_sock []) sample_addr sample_addr 5 6 ?w = Inr sample_accepted"
    by (auto simp: sample_accepted_def eq returns_iff)
  have b: "birth sample_id (sk_fd (sample_sock [])) 5 ?w sample_accepted"
    using newConnection_birth [OF i quiet_local sample_short sample_fresh, of sample_addr sample_addr 5 6] a by simp
  then show "server_inv sample_id sample_accepted" "cn_conns sample_accepted 5 \<noteq> None" by (auto simp: birth_def)
  have ph: "m_phase sample_accepted l = Waiting" for l
    using r unfolding eq [symmetric] a by (simp add: born_def Let_def)
  have "\<forall>l el. n_loops sample_accepted l = Some el \<longrightarrow>
      (\<exists>el0. n_loops ?x l = Some el0 \<and> pendingFunctors el = pendingFunctors el0)"
    using r unfolding eq [symmetric] a by simp
  note loops = this
  have "pendingFunctors el = []" if el: "n_loops sample_accepted l = Some el" for el
  proof -
    obtain el0 where el0: "n_loops ?x l = Some el0" "pendingFunctors el = pendingFunctors el0" using loops el by blast
    then have "el0 = mk_loop 1 (mk_poller (\<lambda>_ _. False)) 3 4" by (simp split: if_splits)
    then show ?thesis using el0(2) by (simp add: mk_loop_def)
  qed
  then show "upcoming l sample_accepted = []"
    by (simp add: upcoming_def pending_at_def ph split: option.split)
qed

theorem accepted_connection_is_born_witness:
  "returns (acceptor_handleRead (newConnection quiet sample_id)
      (sample_machine [Accepted (sample_sock []) sample_addr sample_addr 5 6]))
    (\<lambda>w'. server_inv sample_id w' \<and> (\<exists>cn. cn_conns w' 5 = Some cn \<and> cn_name cn = ''s-127.0.0.1:80#1''))"
proof -
  let ?w = "sample_machine [Accepted (sample_sock []) sample_addr sample_addr 5 6]"
  have acc: "next_accept ?w = Accepted (sample_sock []) sample_addr sample_addr 5 6" "?w\<lparr>sv_accepts := tl (sv_accepts ?w)\<rparr> = sample_machine []"
    by (simp_all add: next_accept_def sample_machine_def sample_net_def server_net.defs machine.defs)
  have cb: "newConnectionCallback (sv_acceptor (sv ?w))" by (simp add: sample_server_def)
  have r: "acceptor_handleRead (newConnection quiet sample_id) ?w = Inr sample_accepted"
    unfolding acceptor_handleRead_def Let_def acc using sample_accepted_ok(1) by (simp add: sample_server_def)
  have "connName sample_id (sv_nextConnId (sv ?w)) = ''s-127.0.0.1:80#1''"
  proof -
    have "(of_char (digit_char 1) :: nat) = of_char CHR ''1''" by simp
    then have "digit_char 1 = CHR ''1''" by (simp only: of_char_eq_iff)
    then have "decimal 1 = ''1''" by (simp add: decimal_def dec_digits.simps [of "Suc 0"])
    then show ?thesis
      using connName_short [OF sample_short, of 1] by (simp add: sample_id_def sample_server_def)
  qed
  then show ?thesis
    using accepted_connection_is_born [OF idle_inv(1) [OF sample_machine_idle] quiet_local sample_short cb acc(1) sample_fresh]
    by (auto simp: r)
qed

theorem nothing_half_way_witness:
  "\<exists>cn ch. cn_conns sample_accepted 5 = Some cn \<and> n_chans sample_accepted (cn_channel cn) = Some ch
    \<and> (kind_of (cn_state cn) = Up \<and> sv_connections (sv sample_accepted) (cn_name cn) = Some 5 \<and> ch_index ch = KAdded
       \<or> kind_of (cn_state cn) = Down \<and> sv_connections (sv sample_accepted) (cn_name cn) \<noteq> Some 5 \<and> ch_index ch = KNew)"
proof -
  obtain cn where cn: "cn_conns sample_accepted 5 = Some cn" using sample_accepted_ok(4) by blast
  have "\<forall>l. upcoming l sample_accepted = []" using sample_accepted_ok(3) by blast
  from nothing_half_way [OF sample_accepted_ok(2) quiet_confined sample_short reachable.start this cn] cn show ?thesis by blast
qed

end
