(* ===== verification/Server_Start.thy ===== *)
theory Server_Start
  imports Server_Properties
begin

text \<open>
  From nothing to a listening server: the loops that the constructor of EventLoop makes, in the
  main thread and in the threads of the pool, the server on them, and its start. What comes out is
  a state in which the invariant of the running server holds.
\<close>

section \<open>A net without connections\<close>

definition blank :: "machine \<Rightarrow> bool" where
  "blank w \<longleftrightarrow> net_inv w \<and> cn_conns w = Map.empty \<and> (\<forall>p s. cn_strings w p = Some s \<longrightarrow> length s < 2 ^ 64)
     \<and> (\<forall>l el. n_loops w l = Some el \<longrightarrow> pendingFunctors el = [])
     \<and> (\<forall>d ch. n_chans w d = Some ch \<longrightarrow> n_loops w (ch_loop ch) \<noteq> None
         \<and> writeCallback ch = None \<and> closeCallback ch = None \<and> errorCallback ch = None
         \<and> readCallback ch \<in> {Some AcceptorHandleRead, Some (LoopHandleRead (ch_loop ch))})"

lemma blank_plain: "blank w \<Longrightarrow> n_chans w d = Some ch \<Longrightarrow> plain sid ch w"
  unfolding blank_def plain_def by blast

lemma blank_conn_inv: "blank w \<Longrightarrow> conn_inv w"
  by (simp add: blank_def conn_inv_def)

definition plain_calls :: "channel \<Rightarrow> bool" where
  "plain_calls ch \<longleftrightarrow> writeCallback ch = None \<and> closeCallback ch = None \<and> errorCallback ch = None
     \<and> readCallback ch \<in> {Some AcceptorHandleRead, Some (LoopHandleRead (ch_loop ch))}"

lemma blank_put_chan:
  assumes "blank w" "n_chans w d = None" "ch_index ch = KNew" "n_loops w (ch_loop ch) \<noteq> None" "plain_calls ch"
  shows "blank (put_chan d ch w)"
  using assms net_inv_new_chan [of w d ch] by (auto simp: blank_def plain_calls_def)

lemma blank_put_loop:
  assumes b: "blank w" and l: "n_loops w l = None" and el: "el_poller el = mk_poller (\<lambda>_ _. False)" "pendingFunctors el = []"
  shows "blank (put_loop l el w)"
proof -
  have "poller_inv l (el_poller el) (n_chans w)"
    unfolding el(1) by (rule poller_inv_mk_poller) (use b l in \<open>unfold blank_def, metis\<close>)
  then have "net_inv (put_loop l el w)" using b by (auto simp: blank_def net_inv_def)
  then show ?thesis using b el(2) by (auto simp: blank_def)
qed

lemma blank_change_mask:
  assumes b: "blank w" and ok: "chan_ok c ch el w"
  shows "blank (put_chan c (masked m ch) (put_loop (ch_loop ch) (synced c (masked m ch) el) w))"
proof -
  have *: "n_chans w c = Some ch" "n_loops w (ch_loop ch) = Some el" using ok by (simp_all add: chan_ok_def)
  have "net_inv (put_chan c (masked m ch) (put_loop (ch_loop ch) (synced c (masked m ch) el) w))"
    using change_mask_ok(1) [of w c ch el m] b ok by (simp add: blank_def)
  then show ?thesis using b * by (fastforce simp: blank_def)
qed

section \<open>A new loop\<close>

text \<open>What one constructor of a loop in the thread \<open>t\<close> adds.\<close>

definition adds_loop :: "nat \<Rightarrow> nat \<Rightarrow> nat \<Rightarrow> machine \<Rightarrow> machine \<Rightarrow> bool" where
  "adds_loop t l c w w' \<longleftrightarrow> (\<exists>el ch. threadId el = t \<and> w' = w\<lparr>n_loops := (n_loops w)(l \<mapsto> el),
     n_chans := (n_chans w)(c \<mapsto> ch), n_loopInThisThread := (n_loopInThisThread w)(t \<mapsto> l)\<rparr>)"

lemma new_loop_blank:
  assumes b: "blank w" and fresh: "n_chans w c = None" "n_loops w l = None" "n_loopInThisThread w (n_tid w) = None"
    and fd: "0 \<le> epfd" "0 \<le> fd"
  shows "returns (new_loop False epfd (\<lambda>_ _. False) l c fd w) (\<lambda>w'. blank w' \<and> adds_loop (n_tid w) l c w w'
     \<and> (\<exists>el. n_loops w' l = Some el \<and> threadId el = n_tid w \<and> channels_map (el_poller el) = [fd \<mapsto> c]))"
proof -
  let ?el = "mk_loop (n_tid w) (mk_poller (\<lambda>_ _. False)) fd c"
    and ?ch = "(mk_channel l fd)\<lparr>readCallback := Some (LoopHandleRead l)\<rparr>"
  let ?w = "w\<lparr>n_loopInThisThread := (n_loopInThisThread w)(n_tid w \<mapsto> l)\<rparr>"
  let ?x = "put_chan c ?ch (put_loop l ?el ?w)"
  have "blank ?w" using b by (simp add: blank_def net_inv_def)
  then have "blank (put_loop l ?el ?w)" by (rule blank_put_loop) (use fresh in \<open>simp_all add: mk_loop_def\<close>)
  then have x: "blank ?x"
    by (rule blank_put_chan) (use fresh in \<open>simp_all add: mk_channel_def KNew_def plain_calls_def\<close>)
  have ok: "chan_ok c ?ch ?el ?x" using fresh by (simp add: chan_ok_def may_add_def mk_loop_def mk_poller_def mk_channel_def)
  have "net_inv ?x" using x by (simp add: blank_def)
  from change_mask_eq [OF this ok]
  have e: "new_loop False epfd (\<lambda>_ _. False) l c fd w
      = Inr (put_chan c (masked EnableReading ?ch) (put_loop l (synced c (masked EnableReading ?ch) ?el) ?x))"
    using fresh fd by (simp add: new_loop_def newDefaultPoller_def new_EPollPoller_def mk_channel_def)
  have "adds_loop (n_tid w) l c w (put_chan c (masked EnableReading ?ch) (put_loop l (synced c (masked EnableReading ?ch) ?el) ?x))"
    unfolding adds_loop_def
    by (intro exI [of _ "synced c (masked EnableReading ?ch) ?el"] exI [of _ "masked EnableReading ?ch"])
      (simp add: mk_loop_def put_chan_def put_loop_def)
  moreover have "channels_map (el_poller (synced c (masked EnableReading ?ch) ?el)) = [fd \<mapsto> c]"
    by (simp add: sync_def mk_loop_def mk_poller_def mk_channel_def masked_def next_index_def KNew_def KAdded_def KDelete_def)
  ultimately show ?thesis using blank_change_mask [OF x ok, of EnableReading] unfolding e
    by (simp add: mk_channel_def) (simp add: mk_loop_def)
qed

lemma startLoop_blank:
  assumes b: "blank w" and fresh: "n_chans w (te_chan te) = None" "n_loops w (te_loop te) = None"
      "n_loopInThisThread w (te_tid te) = None"
    and te: "0 \<le> te_epollfd te" "0 \<le> te_fd te" "\<not> te_use_poll te" "te_refuse te = (\<lambda>_ _. False)"
  shows "returns (startLoop app None te w) (\<lambda>w'. blank w' \<and> adds_loop (te_tid te) (te_loop te) (te_chan te) w w')"
proof -
  let ?w = "w\<lparr>n_tid := te_tid te\<rparr>"
  have "blank ?w" using b by (simp add: blank_def net_inv_def)
  from new_loop_blank [OF this, of "te_chan te" "te_loop te" "te_epollfd te" "te_fd te"] fresh te(1,2)
  obtain x where x: "new_loop False (te_epollfd te) (\<lambda>_ _. False) (te_loop te) (te_chan te) (te_fd te) ?w = Inr x"
    "blank x" "adds_loop (te_tid te) (te_loop te) (te_chan te) ?w x" by (auto simp: returns_iff)
  have "blank (x\<lparr>n_tid := n_tid w\<rparr>)" using x(2) by (simp add: blank_def net_inv_def)
  moreover have "adds_loop (te_tid te) (te_loop te) (te_chan te) w (x\<lparr>n_tid := n_tid w\<rparr>)"
    using x(3) unfolding adds_loop_def by (elim exE conjE, intro exI conjI) simp_all
  ultimately show ?thesis using x(1) te by (simp add: startLoop_def in_thread_def threadInit_def)
qed


section \<open>The pool\<close>

text \<open>
  What the system gives the threads of the pool: fresh addresses and ids, all different, and a
  kernel that accepts.
\<close>

definition fresh_threads :: "(nat \<Rightarrow> thread_env) \<Rightarrow> nat \<Rightarrow> machine \<Rightarrow> bool" where
  "fresh_threads env n w \<longleftrightarrow> (\<forall>i < n. n_loops w (te_loop (env i)) = None \<and> n_chans w (te_chan (env i)) = None
       \<and> n_loopInThisThread w (te_tid (env i)) = None \<and> 0 \<le> te_epollfd (env i) \<and> 0 \<le> te_fd (env i) \<and> \<not> te_use_poll (env i)
       \<and> te_refuse (env i) = (\<lambda>_ _. False))
     \<and> (\<forall>i < n. \<forall>j < i. te_loop (env i) \<noteq> te_loop (env j) \<and> te_chan (env i) \<noteq> te_chan (env j)
       \<and> te_tid (env i) \<noteq> te_tid (env j))"

text \<open>What \<open>n\<close> of them add.\<close>

definition adds_loops :: "(nat \<Rightarrow> thread_env) \<Rightarrow> nat \<Rightarrow> machine \<Rightarrow> machine \<Rightarrow> bool" where
  "adds_loops env n w w' \<longleftrightarrow> (\<exists>ls cs ts. w' = w\<lparr>n_loops := n_loops w ++ ls, n_chans := n_chans w ++ cs,
       n_loopInThisThread := n_loopInThisThread w ++ ts\<rparr>
     \<and> dom ls = (\<lambda>i. te_loop (env i)) ` {..<n} \<and> dom cs = (\<lambda>i. te_chan (env i)) ` {..<n}
     \<and> dom ts = (\<lambda>i. te_tid (env i)) ` {..<n})"

lemma adds_loops_0: "adds_loops env 0 w w"
  unfolding adds_loops_def by (intro exI [of _ Map.empty]) simp

lemma adds_loops_Suc:
  assumes "adds_loops env n w x" "adds_loop (te_tid (env n)) (te_loop (env n)) (te_chan (env n)) x y"
  shows "adds_loops env (Suc n) w y"
proof -
  obtain ls cs ts where a: "x = w\<lparr>n_loops := n_loops w ++ ls, n_chans := n_chans w ++ cs,
       n_loopInThisThread := n_loopInThisThread w ++ ts\<rparr>" "dom ls = (\<lambda>i. te_loop (env i)) ` {..<n}"
    "dom cs = (\<lambda>i. te_chan (env i)) ` {..<n}" "dom ts = (\<lambda>i. te_tid (env i)) ` {..<n}"
    using assms(1) unfolding adds_loops_def by (elim exE conjE)
  obtain el ch where y: "y = x\<lparr>n_loops := (n_loops x)(te_loop (env n) \<mapsto> el),
     n_chans := (n_chans x)(te_chan (env n) \<mapsto> ch),
     n_loopInThisThread := (n_loopInThisThread x)(te_tid (env n) \<mapsto> te_loop (env n))\<rparr>"
    using assms(2) unfolding adds_loop_def by (elim exE conjE)
  show ?thesis unfolding adds_loops_def
    by (intro exI [of _ "ls(te_loop (env n) \<mapsto> el)"] exI [of _ "cs(te_chan (env n) \<mapsto> ch)"]
        exI [of _ "ts(te_tid (env n) \<mapsto> te_loop (env n))"]) (simp add: a y lessThan_Suc)
qed

lemma map_add_other: "x \<notin> dom m \<Longrightarrow> (n ++ m) x = n x"
  by (simp add: map_add_dom_app_simps)

lemma adds_loops_other:
  assumes "adds_loops env n w w'"
  shows "(\<forall>i < n. l \<noteq> te_loop (env i)) \<Longrightarrow> n_loops w' l = n_loops w l"
    and "(\<forall>i < n. c \<noteq> te_chan (env i)) \<Longrightarrow> n_chans w' c = n_chans w c"
    and "(\<forall>i < n. t \<noteq> te_tid (env i)) \<Longrightarrow> n_loopInThisThread w' t = n_loopInThisThread w t"
    and "i < n \<Longrightarrow> n_loops w' (te_loop (env i)) \<noteq> None"
    and "n_tid w' = n_tid w" "sv w' = sv w" "m_phase w' = m_phase w" "cn_conns w' = cn_conns w"
proof -
  obtain ls cs ts where a: "w' = w\<lparr>n_loops := n_loops w ++ ls, n_chans := n_chans w ++ cs,
       n_loopInThisThread := n_loopInThisThread w ++ ts\<rparr>" "dom ls = (\<lambda>i. te_loop (env i)) ` {..<n}"
    "dom cs = (\<lambda>i. te_chan (env i)) ` {..<n}" "dom ts = (\<lambda>i. te_tid (env i)) ` {..<n}"
    using assms unfolding adds_loops_def by (elim exE conjE)
  show "n_loops w' l = n_loops w l" if "\<forall>i < n. l \<noteq> te_loop (env i)"
  proof -
    have "l \<notin> dom ls" using that a(2) by auto
    then show ?thesis by (simp add: a(1) map_add_other)
  qed
  show "n_chans w' c = n_chans w c" if "\<forall>i < n. c \<noteq> te_chan (env i)"
  proof -
    have "c \<notin> dom cs" using that a(3) by auto
    then show ?thesis by (simp add: a(1) map_add_other)
  qed
  show "n_loopInThisThread w' t = n_loopInThisThread w t" if "\<forall>i < n. t \<noteq> te_tid (env i)"
  proof -
    have "t \<notin> dom ts" using that a(4) by auto
    then show ?thesis by (simp add: a(1) map_add_other)
  qed
  show "n_loops w' (te_loop (env i)) \<noteq> None" if "i < n"
  proof -
    have "te_loop (env i) \<in> dom (n_loops w ++ ls)" using that a(2) by (simp add: dom_map_add)
    then show ?thesis by (auto simp: a(1))
  qed
  show "n_tid w' = n_tid w" "sv w' = sv w" "m_phase w' = m_phase w" "cn_conns w' = cn_conns w" by (simp_all add: a(1))
qed

text \<open>The loop of \<open>pool_start\<close> over its first threads.\<close>

definition start_threads :: "(app_event \<Rightarrow> machine \<Rightarrow> api list) \<Rightarrow> (nat \<Rightarrow> thread_env) \<Rightarrow> nat \<Rightarrow> pool \<times> machine \<Rightarrow>
    (pool \<times> machine) res" where
  "start_threads app env n = fold_res (\<lambda>i (p, w).
         let t = snprintf (length (pool_name p) + 32) (pool_name p @ decimal i);
             p = p\<lparr>pool_threads := pool_threads p @ [t]\<rparr> in
         bind_res (startLoop app None (env i) w)
           (\<lambda>w. Inr (p\<lparr>pool_loops := pool_loops p @ [te_loop (env i)]\<rparr>, w)))
       [0..<n]"

lemma start_threads_ok:
  assumes "blank w" "fresh_threads env n w" "pool_loops p = []"
  shows "returns (start_threads app env n (p, w)) (\<lambda>(p', w'). blank w' \<and> adds_loops env n w w'
     \<and> pool_loops p' = map (\<lambda>i. te_loop (env i)) [0..<n] \<and> baseLoop p' = baseLoop p \<and> next_loop p' = next_loop p
     \<and> numThreads p' = numThreads p)"
  using assms(2)
proof (induction n)
  case 0
  then show ?case using assms by (simp add: start_threads_def adds_loops_0)
next
  case (Suc n)
  then have "fresh_threads env n w" by (simp add: fresh_threads_def)
  from Suc.IH [OF this] obtain p' x where x: "start_threads app env n (p, w) = Inr (p', x)" "blank x" "adds_loops env n w x"
    "pool_loops p' = map (\<lambda>i. te_loop (env i)) [0..<n]" "baseLoop p' = baseLoop p" "next_loop p' = next_loop p"
    "numThreads p' = numThreads p"
    by (auto simp: returns_iff)
  have f: "n_chans x (te_chan (env n)) = None" "n_loops x (te_loop (env n)) = None"
      "n_loopInThisThread x (te_tid (env n)) = None"
    "0 \<le> te_epollfd (env n)" "0 \<le> te_fd (env n)" "\<not> te_use_poll (env n)" "te_refuse (env n) = (\<lambda>_ _. False)"
    using Suc.prems by (simp_all add: fresh_threads_def adds_loops_other [OF x(3)])
  obtain y where y: "startLoop app None (env n) x = Inr y" "blank y"
    "adds_loop (te_tid (env n)) (te_loop (env n)) (te_chan (env n)) x y"
    using startLoop_blank [OF x(2) f, of app] by (auto simp: returns_iff)
  show ?case using x y(1,2) adds_loops_Suc [OF x(3) y(3)]
    by (simp add: start_threads_def fold_res_append Let_def)
qed


section \<open>The whole start\<close>

text \<open>
  What a program does before it calls \<open>loop()\<close>: a loop, a server on it, its callbacks \<open>cbs\<close> (of
  connections, messages and completed writes), the number of its threads, \<open>start\<close>.
\<close>

record boot =
  bt_loop :: nat
  bt_chan :: nat
  bt_epollfd :: int
  bt_fd :: int
  bt_sock :: int
  bt_acceptChannel :: nat
  bt_addr :: sockaddr_in
  bt_name :: string
  bt_cbs :: "user_cb option \<times> user_cb option \<times> user_cb option"
  bt_num :: int
  bt_env :: "nat \<Rightarrow> thread_env"

definition setCallbacks :: "user_cb option \<times> user_cb option \<times> user_cb option \<Rightarrow> server \<Rightarrow> server" where
  "setCallbacks = (\<lambda>(c, m, wc) s. setWriteCompleteCallback wc (setMessageCallback m (setConnectionCallback c s)))"

lemmas setter_defs = setCallbacks_def setWriteCompleteCallback_def setMessageCallback_def setConnectionCallback_def
  server_setThreadNum_def

definition boot_server :: "(app_event \<Rightarrow> machine \<Rightarrow> api list) \<Rightarrow> boot \<Rightarrow> machine \<Rightarrow> (server_id \<times> machine) res" where
  "boot_server app b w =
     bind_res (new_loop False (bt_epollfd b) (\<lambda>_ _. False) (bt_loop b) (bt_chan b) (bt_fd b) w) (\<lambda>w.
     bind_res (new_server (bt_loop b) (bt_addr b) (bt_name b) (bt_sock b) True (bt_acceptChannel b) w) (\<lambda>(sid, s, w).
     bind_res (server_start app sid (bt_env b) True
         (w\<lparr>sv := server_setThreadNum (bt_num b) (setCallbacks (bt_cbs b) s)\<rparr>)) (\<lambda>w. Inr (sid, w))))"

text \<open>What the system gives it is new, and the threads of the pool are others than the main thread.\<close>

definition boot_ok :: "boot \<Rightarrow> machine \<Rightarrow> bool" where
  "boot_ok b w \<longleftrightarrow> n_loops w (bt_loop b) = None \<and> n_chans w (bt_chan b) = None \<and> n_chans w (bt_acceptChannel b) = None
     \<and> bt_chan b \<noteq> bt_acceptChannel b \<and> n_loopInThisThread w (n_tid w) = None \<and> 0 \<le> bt_epollfd b \<and> 0 \<le> bt_fd b \<and> 0 \<le> bt_sock b
     \<and> bt_sock b \<noteq> bt_fd b \<and> fresh_threads (bt_env b) (nat (bt_num b)) w
     \<and> (\<forall>i < nat (bt_num b). te_loop (bt_env b i) \<noteq> bt_loop b \<and> te_tid (bt_env b i) \<noteq> n_tid w
          \<and> te_chan (bt_env b i) \<notin> {bt_chan b, bt_acceptChannel b})"


lemma blank_sv [simp]: "blank (w\<lparr>sv := s\<rparr>) \<longleftrightarrow> blank w"
  by (simp add: blank_def net_inv_def)

lemma pool_start_eq:
  "pool_start app None env (p, w) = start_threads app env (nat (numThreads p)) (p\<lparr>pool_started := True\<rparr>, w)"
proof -
  have "(\<lambda>(p, w). if numThreads p = 0 then bind_res (threadInit app None (baseLoop p) w) (\<lambda>w. Inr (p, w)) else Inr (p, w))
      = (Inr :: pool \<times> machine \<Rightarrow> (pool \<times> machine) res)" by (simp add: fun_eq_iff threadInit_def)
  moreover have "bind_res r Inr = r" for r :: "(pool \<times> machine) res" by (cases r) simp_all
  ultimately show ?thesis by (simp add: pool_start_def start_threads_def)
qed

text \<open>The machine in which \<open>start\<close> is called.\<close>

lemma boot_constructs:
  assumes b: "blank w" and ok: "boot_ok b w"
  obtains x el s where
    "new_server (bt_loop b) (bt_addr b) (bt_name b) (bt_sock b) True (bt_acceptChannel b) x
       = Inr (\<lparr>sv_loop = bt_loop b, sv_ipPort = toIpPort (bt_addr b), sv_name = bt_name b\<rparr>, s,
           put_chan (bt_acceptChannel b) ((mk_channel (bt_loop b) (bt_sock b))\<lparr>readCallback := Some AcceptorHandleRead\<rparr>) x)"
    "new_loop False (bt_epollfd b) (\<lambda>_ _. False) (bt_loop b) (bt_chan b) (bt_fd b) w = Inr x" "blank x" "n_tid x = n_tid w"
    "n_loops x (bt_loop b) = Some el" "threadId el = n_tid w" "channels_map (el_poller el) (bt_sock b) = None"
    "n_chans x (bt_acceptChannel b) = None" "fresh_threads (bt_env b) (nat (bt_num b)) x" "m_phase x = m_phase w"
    "acceptChannel (sv_acceptor s) = bt_acceptChannel b" "sv_pool s = mk_pool (bt_loop b) (bt_name b)"
    "sv_threadInitCallback s = None" "sv_started s = 0" "sv_nextConnId s = 1" "sv_connections s = Map.empty"
proof -
  note o = ok [unfolded boot_ok_def]
  obtain x el where x: "new_loop False (bt_epollfd b) (\<lambda>_ _. False) (bt_loop b) (bt_chan b) (bt_fd b) w = Inr x" "blank x"
    "adds_loop (n_tid w) (bt_loop b) (bt_chan b) w x" "n_loops x (bt_loop b) = Some el" "threadId el = n_tid w"
    "channels_map (el_poller el) = [bt_fd b \<mapsto> bt_chan b]"
    using new_loop_blank [OF b, of "bt_chan b" "bt_loop b" "bt_epollfd b" "bt_fd b"] o by (auto simp: returns_iff)
  obtain e ch where e: "x = w\<lparr>n_loops := (n_loops w)(bt_loop b \<mapsto> e), n_chans := (n_chans w)(bt_chan b \<mapsto> ch),
      n_loopInThisThread := (n_loopInThisThread w)(n_tid w \<mapsto> bt_loop b)\<rparr>"
    using x(3) unfolding adds_loop_def by (elim exE conjE)
  have f: "fresh_threads (bt_env b) (nat (bt_num b)) x" using o unfolding fresh_threads_def e by simp
  have d: "n_chans x (bt_acceptChannel b) = None" using o by (simp add: e)
  have m: "n_tid x = n_tid w" "m_phase x = m_phase w" by (simp_all add: e)
  let ?s = "\<lparr>sv_acceptor = \<lparr>acceptSocket = bt_sock b, acceptOptions = [(SO_REUSEADDR, 1), (SO_REUSEPORT, 1)], acceptChannel = bt_acceptChannel b, newConnectionCallback = True, listenning = False\<rparr>,
     sv_pool = mk_pool (bt_loop b) (bt_name b), sv_connectionCallback = None, sv_messageCallback = None,
     sv_writeCompleteCallback = None, sv_threadInitCallback = None, sv_started = 0, sv_nextConnId = 1,
     sv_connections = Map.empty\<rparr>"
  have n: "new_server (bt_loop b) (bt_addr b) (bt_name b) (bt_sock b) True (bt_acceptChannel b) x
       = Inr (\<lparr>sv_loop = bt_loop b, sv_ipPort = toIpPort (bt_addr b), sv_name = bt_name b\<rparr>, ?s,
           put_chan (bt_acceptChannel b) ((mk_channel (bt_loop b) (bt_sock b))\<lparr>readCallback := Some AcceptorHandleRead\<rparr>) x)"
    using d o by (simp add: new_server_def new_acceptor_def bindAddress_def setReuseAddr_def setReusePort_def setsockopt_def)
  show thesis using o x(6) by (intro that [OF n x(1,2) m(1) x(4,5) _ d f m(2)]) simp_all
qed


lemma start_listens:
  assumes b: "blank w" and el: "n_loops w (sv_loop sid) = Some el" "threadId el = n_tid w" "channels_map (el_poller el) fd = None"
    and ch: "n_chans w d = Some ((mk_channel (sv_loop sid) fd)\<lparr>readCallback := Some AcceptorHandleRead\<rparr>)"
    and s: "acceptChannel (sv_acceptor (sv w)) = d" "sv_threadInitCallback (sv w) = None" "sv_started (sv w) = 0"
      "pool_loops (sv_pool (sv w)) = []" "baseLoop (sv_pool (sv w)) = sv_loop sid" "next_loop (sv_pool (sv w)) = 0"
    and env: "fresh_threads env (nat (numThreads (sv_pool (sv w)))) w"
      "\<forall>i < nat (numThreads (sv_pool (sv w))). te_loop (env i) \<noteq> sv_loop sid \<and> te_chan (env i) \<noteq> d"
  shows "returns (server_start app sid env True w) (\<lambda>w'. blank w' \<and> m_phase w' = m_phase w
     \<and> sv_started (sv w') = 1 \<and> sv_connections (sv w') = sv_connections (sv w) \<and> sv_nextConnId (sv w') = sv_nextConnId (sv w)
     \<and> n_loops w' (sv_loop sid) \<noteq> None \<and> pool_ok w'
     \<and> pool_loops (sv_pool (sv w')) = map (\<lambda>i. te_loop (env i)) [0..<nat (numThreads (sv_pool (sv w)))]
     \<and> baseLoop (sv_pool (sv w')) = sv_loop sid
     \<and> (\<exists>ch. n_chans w' d = Some ch \<and> ch_fd ch = fd \<and> isReading ch \<and> ch_index ch = KAdded))"
proof -
  let ?n = "nat (numThreads (sv_pool (sv w)))" and ?p = "(sv_pool (sv w))\<lparr>pool_started := True\<rparr>"
  let ?w = "upd_server (\<lambda>s. s\<lparr>sv_started := 1\<rparr>) w"
  have w: "blank ?w" "fresh_threads env ?n ?w" using b env(1) by (simp_all add: upd_server_def fresh_threads_def)
  obtain p x where x: "start_threads app env ?n (?p, ?w) = Inr (p, x)" "blank x" "adds_loops env ?n ?w x"
    "pool_loops p = map (\<lambda>i. te_loop (env i)) [0..<?n]" "baseLoop p = sv_loop sid" "next_loop p = 0"
    using start_threads_ok [OF w, of ?p app] s by (auto simp: returns_iff)
  note o = adds_loops_other [OF x(3)]
  let ?x = "upd_server (\<lambda>s. s\<lparr>sv_pool := p\<rparr>) x"
    and ?ch = "(mk_channel (sv_loop sid) fd)\<lparr>readCallback := Some AcceptorHandleRead\<rparr>"
  let ?y = "upd_server (\<lambda>s. s\<lparr>sv_acceptor := (sv_acceptor s)\<lparr>listenning := True\<rparr>\<rparr>) ?x"
  have at: "n_loops x (sv_loop sid) = Some el" "n_chans x d = Some ?ch" "n_tid x = n_tid w"
    "sv x = (sv w)\<lparr>sv_started := 1\<rparr>" "m_phase x = m_phase w"
    using o(1) [of "sv_loop sid"] o(2) [of d] o(5-7) el(1) ch env(2) by (fastforce simp: upd_server_def)+
  have y: "blank ?y" using x(2) by (simp add: upd_server_def)
  have ok: "chan_ok d ?ch el ?y"
    using at el(3) by (simp add: chan_ok_def may_add_def mk_channel_def upd_server_def)
  have "net_inv ?y" using y by (simp add: blank_def)
  from change_mask_eq [OF this ok, of EnableReading]
  have "change_mask EnableReading d ?y
      = Inr (put_chan d (masked EnableReading ?ch) (put_loop (sv_loop sid) (synced d (masked EnableReading ?ch) el) ?y))"
    by (simp add: mk_channel_def)
  then have e: "server_start app sid env True w
      = Inr (put_chan d (masked EnableReading ?ch) (put_loop (sv_loop sid) (synced d (masked EnableReading ?ch) el) ?y))"
    using s(1-3) x(1) at el(2)
    by (simp add: server_start_def Let_def pool_start_eq upd_server_def runInLoop_def isInLoopThread_def get_loop_def
        acceptor_listen_def socket_listen_def)
  have "isReading (masked EnableReading ?ch)" "ch_index (masked EnableReading ?ch) = KAdded"
    by (simp_all add: isReading_bits masked_def next_index_def mk_channel_def KNew_def KAdded_def KDelete_def)
  moreover have "pool_inv p" using x(4,6) by (auto simp: pool_inv_def)
  moreover have "\<forall>l \<in> set (getAllLoops p). n_loops x l \<noteq> None"
    using o(4) at(1) x(4,5) by (auto simp: getAllLoops_def)
  ultimately show ?thesis
    using blank_change_mask [OF y ok, of EnableReading] x(4,5) at unfolding e
    by (simp add: upd_server_def pool_ok_def mk_channel_def)
qed


text \<open>
  C3. A server that a program makes and starts is ready. From a net without connections, with the
  new addresses, threads and descriptors that the system gives, the constructors of the loop and the
  server and \<open>start\<close> succeed for every number of threads; then the invariant of the running server
  holds, no connection exists, the pool has one loop per thread in their order (the main loop
  alone when there are none), every one of them alive, and the listening descriptor is watched.
\<close>

theorem started_server_is_ready:
  assumes "blank w" "\<forall>l. m_phase w l = Waiting" "boot_ok b w"
  shows "returns (boot_server app b w) (\<lambda>(sid, w'). server_inv sid w' \<and> short_ipPort sid \<and> (\<forall>c. life_at sid c w' Absent)
     \<and> sv_started (sv w') = 1
     \<and> getAllLoops (sv_pool (sv w')) =
         (if bt_num b \<le> 0 then [bt_loop b] else map (\<lambda>i. te_loop (bt_env b i)) [0..<nat (bt_num b)])
     \<and> (\<exists>ch. n_chans w' (bt_acceptChannel b) = Some ch \<and> ch_fd ch = bt_sock b \<and> isReading ch \<and> ch_index ch = KAdded))"
proof -
  note o = assms(3) [unfolded boot_ok_def]
  let ?sid = "\<lparr>sv_loop = bt_loop b, sv_ipPort = toIpPort (bt_addr b), sv_name = bt_name b\<rparr>"
    and ?ch = "(mk_channel (bt_loop b) (bt_sock b))\<lparr>readCallback := Some AcceptorHandleRead\<rparr>"
  obtain x el s where n: "new_server (bt_loop b) (bt_addr b) (bt_name b) (bt_sock b) True (bt_acceptChannel b) x
       = Inr (?sid, s, put_chan (bt_acceptChannel b) ?ch x)"
    "new_loop False (bt_epollfd b) (\<lambda>_ _. False) (bt_loop b) (bt_chan b) (bt_fd b) w = Inr x" "blank x" "n_tid x = n_tid w"
    and el: "n_loops x (bt_loop b) = Some el" "threadId el = n_tid w" "channels_map (el_poller el) (bt_sock b) = None"
    and d: "n_chans x (bt_acceptChannel b) = None" "fresh_threads (bt_env b) (nat (bt_num b)) x" "m_phase x = m_phase w"
    and s: "acceptChannel (sv_acceptor s) = bt_acceptChannel b" "sv_pool s = mk_pool (bt_loop b) (bt_name b)"
    "sv_threadInitCallback s = None" "sv_started s = 0" "sv_nextConnId s = 1" "sv_connections s = Map.empty"
    by (rule boot_constructs [OF assms(1,3)])
  let ?s = "server_setThreadNum (bt_num b) (setCallbacks (bt_cbs b) s)"
  let ?y = "(put_chan (bt_acceptChannel b) ?ch x)\<lparr>sv := ?s\<rparr>"
  have s': "acceptChannel (sv_acceptor ?s) = bt_acceptChannel b" "sv_threadInitCallback ?s = None" "sv_started ?s = 0"
    "sv_nextConnId ?s = 1" "sv_connections ?s = Map.empty" "sv_pool ?s = setThreadNum (bt_num b) (mk_pool (bt_loop b) (bt_name b))"
    using s by (simp_all add: setter_defs split: prod.split)
  have "blank (put_chan (bt_acceptChannel b) ?ch x)"
    by (rule blank_put_chan [OF n(3) d(1)]) (use el(1) in \<open>simp_all add: mk_channel_def KNew_def plain_calls_def\<close>)
  then have y: "blank ?y" by simp
  have env: "fresh_threads (bt_env b) (nat (bt_num b)) ?y"
    using d(2) o unfolding fresh_threads_def by simp
  have "returns (server_start app ?sid (bt_env b) True ?y) (\<lambda>w'. blank w' \<and> m_phase w' = m_phase ?y
     \<and> sv_started (sv w') = 1 \<and> sv_connections (sv w') = sv_connections (sv ?y) \<and> sv_nextConnId (sv w') = sv_nextConnId (sv ?y)
     \<and> n_loops w' (sv_loop ?sid) \<noteq> None \<and> pool_ok w'
     \<and> pool_loops (sv_pool (sv w')) = map (\<lambda>i. te_loop (bt_env b i)) [0..<nat (numThreads (sv_pool (sv ?y)))]
     \<and> baseLoop (sv_pool (sv w')) = sv_loop ?sid
     \<and> (\<exists>ch. n_chans w' (bt_acceptChannel b) = Some ch \<and> ch_fd ch = bt_sock b \<and> isReading ch \<and> ch_index ch = KAdded))"
    by (rule start_listens [OF y])
      (use el n(4) s' env o in \<open>simp_all add: setThreadNum_def mk_pool_def\<close>)
  then obtain w' where w': "server_start app ?sid (bt_env b) True ?y = Inr w'" "blank w'" "m_phase w' = m_phase w"
    "sv_started (sv w') = 1" "sv_connections (sv w') = Map.empty" "sv_nextConnId (sv w') = 1"
    "n_loops w' (bt_loop b) \<noteq> None" "pool_ok w'" "pool_loops (sv_pool (sv w')) = map (\<lambda>i. te_loop (bt_env b i)) [0..<nat (bt_num b)]"
    "baseLoop (sv_pool (sv w')) = bt_loop b"
    "\<exists>ch. n_chans w' (bt_acceptChannel b) = Some ch \<and> ch_fd ch = bt_sock b \<and> isReading ch \<and> ch_index ch = KAdded"
    using d(3) s' by (auto simp: returns_iff setThreadNum_def)
  have "idle ?sid w'" unfolding idle_def
    using w' assms(2) blank_conn_inv [OF w'(2)] blank_plain [OF w'(2)] w'(2) by (simp add: blank_def)
  moreover have "short_ipPort ?sid" using length_toIpPort [of "bt_addr b"] by (simp add: short_ipPort_def)
  moreover have "boot_server app b w = Inr (?sid, w')" using n(1,2) w'(1) by (simp add: boot_server_def)
  ultimately show ?thesis using idle_inv w' by (auto simp: getAllLoops_def)
qed


text \<open>
  The program example/testserver.cc up to \<open>loop()\<close>: an echo server with three threads (its callbacks are in
  the theory Echo). The addresses and descriptors are examples.
\<close>

definition sample_nothing :: machine where
  "sample_nothing = \<lparr>n_tid = 1, n_chans = Map.empty, n_loops = Map.empty, n_loopInThisThread = Map.empty,
     cn_conns = Map.empty, cn_strings = Map.empty, cn_trace = [], sv = sample_server None, sv_accepts = [],
     m_phase = (\<lambda>_. Waiting)\<rparr>"

definition echo_main :: boot where
  "echo_main = \<lparr>bt_loop = 1, bt_chan = 2, bt_epollfd = 6, bt_fd = 3, bt_sock = 4, bt_acceptChannel = 5,
     bt_addr = mk_InetAddress 8000 ''127.0.0.1'', bt_name = ''EchoServer-01'', bt_cbs = (Some UserCb, Some UserCb, None), bt_num = 3,
     bt_env = (\<lambda>i. \<lparr>te_tid = 10 + i, te_loop = 10 + i, te_chan = 10 + i, te_fd = 10 + int i, te_use_poll = False, te_epollfd = 20 + int i,
       te_refuse = (\<lambda>_ _. False)\<rparr>)\<rparr>"

text \<open>
  The program example/muduoServer.cc, which leaves the number of threads at its default of none.
\<close>

definition muduo_server_main :: boot where
  "muduo_server_main = \<lparr>bt_loop = 1, bt_chan = 2, bt_epollfd = 6, bt_fd = 3, bt_sock = 4, bt_acceptChannel = 5,
     bt_addr = mk_InetAddress 9877 ''127.0.0.1'', bt_name = ''EchoServer'', bt_cbs = (Some UserCb, Some UserCb, None), bt_num = 0,
     bt_env = bt_env echo_main\<rparr>"

theorem started_server_is_ready_witness:
  "(\<exists>sid w. boot_server quiet echo_main sample_nothing = Inr (sid, w) \<and> server_inv sid w
     \<and> getAllLoops (sv_pool (sv w)) = [10, 11, 12])
   \<and> (\<exists>sid w. boot_server quiet muduo_server_main sample_nothing = Inr (sid, w) \<and> server_inv sid w
     \<and> getAllLoops (sv_pool (sv w)) = [1])"
proof
  have b: "blank sample_nothing" "\<forall>l. m_phase sample_nothing l = Waiting"
    by (simp_all add: blank_def net_inv_def sample_nothing_def)
  have ok: "boot_ok echo_main sample_nothing" "boot_ok muduo_server_main sample_nothing"
    by (simp_all add: boot_ok_def fresh_threads_def echo_main_def muduo_server_main_def sample_nothing_def)
  have "bt_num echo_main = 3" "(\<lambda>i. te_loop (bt_env echo_main i)) = (\<lambda>i. 10 + i)" by (simp_all add: echo_main_def)
  with started_server_is_ready [OF b ok(1), of quiet]
  show "\<exists>sid w. boot_server quiet echo_main sample_nothing = Inr (sid, w) \<and> server_inv sid w
     \<and> getAllLoops (sv_pool (sv w)) = [10, 11, 12]"
    by (auto simp: returns_iff upt_rec numeral_3_eq_3)
  have "bt_num muduo_server_main = 0" "bt_loop muduo_server_main = 1" by (simp_all add: muduo_server_main_def)
  with started_server_is_ready [OF b ok(2), of quiet]
  show "\<exists>sid w. boot_server quiet muduo_server_main sample_nothing = Inr (sid, w) \<and> server_inv sid w
     \<and> getAllLoops (sv_pool (sv w)) = [1]"
    by (auto simp: returns_iff)
qed

end
