(* ===== verification/Connector.thy ===== *)
theory Connector
  imports TcpConnection
begin

text \<open>
  Connector.h and Connector.cc: the client's side of a connection before it exists. A non-blocking
  \<open>connect\<close> is watched for writing; when it is done the descriptor goes to the client, when it
  failed it is closed and tried again after a delay that doubles up to a limit.
\<close>

section \<open>State\<close>

datatype States = cDisconnected | cConnecting | cConnected

definition kMaxRetryDelayMs :: int where "kMaxRetryDelayMs = 30 * 1000"
definition kInitRetryDelayMs :: int where "kInitRetryDelayMs = 500"

record connector =
  ct_loop :: nat
  ct_serverAddr :: sockaddr_in
  ct_connect :: bool
  ct_state :: States
  ct_channel :: "nat option"
  ct_newConnectionCallback :: bool
  ct_retryDelayMs :: int

definition mk_connector :: "nat \<Rightarrow> sockaddr_in \<Rightarrow> connector" where
  "mk_connector l addr = \<lparr>ct_loop = l, ct_serverAddr = addr, ct_connect = False, ct_state = cDisconnected,
     ct_channel = None, ct_newConnectionCallback = False, ct_retryDelayMs = kInitRetryDelayMs\<rparr>"

text \<open>
  An address as \<open>getsockname\<close> and \<open>getpeername\<close> fill it in; \<open>as_sockaddr_in\<close> is the view of the
  same bytes as the other structure. \<open>getLocalAddr\<close> and \<open>getPeerAddr\<close> clear the structure first,
  and log a failing call (\<open>None\<close>).
\<close>

record sockaddr_in6 =
  sin6_family :: "16 word"
  sin6_port :: "16 word"
  sin6_flowinfo :: "32 word"
  sin6_addr :: "128 word"

definition AF_INET6 :: "16 word" where "AF_INET6 = 10"

definition as_sockaddr_in :: "sockaddr_in6 \<Rightarrow> sockaddr_in" where
  "as_sockaddr_in a = \<lparr>sin_family = sin6_family a, sin_port = sin6_port a, s_addr = sin6_flowinfo a\<rparr>"

definition zero_addr :: sockaddr_in6 where
  "zero_addr = \<lparr>sin6_family = 0, sin6_port = 0, sin6_flowinfo = 0, sin6_addr = 0\<rparr>"

definition getLocalAddr :: "sockaddr_in6 option \<Rightarrow> sockaddr_in6" where
  "getLocalAddr answer = (case answer of None \<Rightarrow> zero_addr | Some a \<Rightarrow> a)"

definition getPeerAddr :: "sockaddr_in6 option \<Rightarrow> sockaddr_in6" where
  "getPeerAddr answer = (case answer of None \<Rightarrow> zero_addr | Some a \<Rightarrow> a)"

definition isSelfConnect :: "sockaddr_in6 option \<Rightarrow> sockaddr_in6 option \<Rightarrow> bool" where
  "isSelfConnect sockname peername =
     (let localaddr = getLocalAddr sockname; peeraddr = getPeerAddr peername in
      if sin6_family localaddr = AF_INET
      then sin_port (as_sockaddr_in localaddr) = sin_port (as_sockaddr_in peeraddr)
         \<and> s_addr (as_sockaddr_in localaddr) = s_addr (as_sockaddr_in peeraddr)
      else if sin6_family localaddr = AF_INET6
      then sin6_port localaddr = sin6_port peeraddr \<and> sin6_addr localaddr = sin6_addr peeraddr
      else False)"

text \<open>
  The answers of the system. \<open>connect_env\<close>: the new socket (negative: none), what \<open>connect\<close> says (0
  for success), and the place of the channel. \<open>result_env\<close>: SO_ERROR of a finished attempt, the
  answers for the two addresses, and for the client the socket with its peer, and the places of the connection and
  its channel. A time is the one \<open>Timestamp::now\<close> gives, the one the timer queue sees, and the
  place of the new timer.
\<close>

record connect_env =
  ce_fd :: int
  ce_errno :: int
  ce_chan :: nat

record result_env =
  re_error :: int
  re_local :: "sockaddr_in6 option"
  re_peer :: "sockaddr_in6 option"
  re_sock :: sock
  re_conn :: nat
  re_chan :: nat

record connector_net = conn_net +
  ct :: connector
  ct_connects :: "connect_env list"
  ct_results :: "result_env list"
  ct_times :: "(timestamp \<times> timestamp \<times> nat) list"
  ct_open :: "int list"

text \<open>
  \<open>ct_open\<close> are the descriptors that the connector has opened and neither closed nor handed on.
\<close>

definition upd_connector :: "(connector \<Rightarrow> connector) \<Rightarrow> 'a connector_net_scheme \<Rightarrow> 'a connector_net_scheme" where
  "upd_connector f w = w\<lparr>ct := f (ct w)\<rparr>"

definition set_state :: "States \<Rightarrow> 'a connector_net_scheme \<Rightarrow> 'a connector_net_scheme" where
  "set_state s = upd_connector (\<lambda>c. c\<lparr>ct_state := s\<rparr>)"

definition close_fd :: "int \<Rightarrow> 'a connector_net_scheme \<Rightarrow> 'a connector_net_scheme" where
  "close_fd fd w = w\<lparr>ct_open := removeAll fd (ct_open w)\<rparr>"

definition next_time :: "'a connector_net_scheme \<Rightarrow> timestamp \<times> timestamp \<times> nat" where
  "next_time w = (case ct_times w of [] \<Rightarrow> (invalid, invalid, 0) | t # _ \<Rightarrow> t)"

section \<open>Operations\<close>

definition retry :: "int \<Rightarrow> 'a connector_net_scheme \<Rightarrow> 'a connector_net_scheme res" where
  "retry sockfd w =
     (let w = set_state cDisconnected (close_fd sockfd w); delay = ct_retryDelayMs (ct w) in
      if ct_connect (ct w)
      then (case next_time w of (now, clock, p) \<Rightarrow>
        bind_res (runAfter now clock (ct_loop (ct w)) p (of_int delay / 1000) FStartInLoop
            (w\<lparr>ct_times := tl (ct_times w)\<rparr>)) (\<lambda>w.
          Inr (upd_connector (\<lambda>c. c\<lparr>ct_retryDelayMs := min (delay * 2) kMaxRetryDelayMs\<rparr>) w)))
      else Inr w)"

text \<open>\<open>channel_.reset(...)\<close> destroys the channel that was there.\<close>

definition destroy_chan :: "nat option \<Rightarrow> 'a net_scheme \<Rightarrow> 'a net_scheme" where
  "destroy_chan b w = (case b of None \<Rightarrow> w | Some b \<Rightarrow> w\<lparr>n_chans := (n_chans w)(b := None)\<rparr>)"

definition connecting :: "int \<Rightarrow> nat \<Rightarrow> 'a connector_net_scheme \<Rightarrow> 'a connector_net_scheme res" where
  "connecting sockfd d w =
     (let w = set_state cConnecting w; old = ct_channel (ct w) in
      if n_chans w d \<noteq> None then Inl BadAlloc
      else change_mask EnableWriting d
        (upd_connector (\<lambda>c. c\<lparr>ct_channel := Some d\<rparr>)
          (put_chan d (setErrorCallback ConnectorHandleError
               (setWriteCallback ConnectorHandleWrite (mk_channel (ct_loop (ct w)) sockfd)))
            (destroy_chan old w))))"

definition removeAndResetChannel :: "'a connector_net_scheme \<Rightarrow> (int \<times> 'a connector_net_scheme) res" where
  "removeAndResetChannel w =
     bind_res (deref NullPointer (ct_channel (ct w))) (\<lambda>d.
     bind_res (change_mask DisableAll d w) (\<lambda>w.
     bind_res (chan_remove d w) (\<lambda>w.
     bind_res (get_chan d w) (\<lambda>ch.
     bind_res (queueInLoop (ct_loop (ct w)) FResetChannel w) (\<lambda>w. Inr (ch_fd ch, w))))))"

definition resetChannel :: "'a connector_net_scheme \<Rightarrow> 'a connector_net_scheme res" where
  "resetChannel w = Inr (upd_connector (\<lambda>c. c\<lparr>ct_channel := None\<rparr>) (destroy_chan (ct_channel (ct w)) w))"

definition EINTR :: int where "EINTR = 4"
definition EINPROGRESS :: int where "EINPROGRESS = 115"
definition EISCONN :: int where "EISCONN = 106"
definition EAGAIN :: int where "EAGAIN = 11"
definition EADDRINUSE :: int where "EADDRINUSE = 98"
definition EADDRNOTAVAIL :: int where "EADDRNOTAVAIL = 99"
definition ECONNREFUSED :: int where "ECONNREFUSED = 111"
definition ENETUNREACH :: int where "ENETUNREACH = 101"
definition EMFILE :: int where "EMFILE = 24"

definition next_connect :: "'a connector_net_scheme \<Rightarrow> connect_env" where
  "next_connect w = (case ct_connects w of [] \<Rightarrow> \<lparr>ce_fd = - 1, ce_errno = EMFILE, ce_chan = 0\<rparr> | e # _ \<Rightarrow> e)"

definition connect :: "'a connector_net_scheme \<Rightarrow> 'a connector_net_scheme res" where
  "connect w =
     (let e = next_connect w; w = w\<lparr>ct_connects := tl (ct_connects w)\<rparr> in
      if ce_fd e < 0 then Inl (LogFatal ''connect socket create err'')
      else
        let w = w\<lparr>ct_open := ce_fd e # ct_open w\<rparr>; saveErrno = ce_errno e in
        if saveErrno \<in> {0, EINPROGRESS, EINTR, EISCONN} then connecting (ce_fd e) (ce_chan e) w
        else if saveErrno \<in> {EAGAIN, EADDRINUSE, EADDRNOTAVAIL, ECONNREFUSED, ENETUNREACH}
        then retry (ce_fd e) w
        else Inr (close_fd (ce_fd e) w))"

definition startInLoop :: "'a connector_net_scheme \<Rightarrow> 'a connector_net_scheme res" where
  "startInLoop w = (if ct_connect (ct w) then connect w else Inr w)"

definition connector_start :: "'a connector_net_scheme \<Rightarrow> 'a connector_net_scheme res" where
  "connector_start w = runInLoop (ct_loop (ct w)) FStartInLoop startInLoop
     (upd_connector (\<lambda>c. c\<lparr>ct_connect := True\<rparr>) w)"

definition stopInLoop :: "'a connector_net_scheme \<Rightarrow> 'a connector_net_scheme res" where
  "stopInLoop w =
     (if ct_state (ct w) = cConnecting
      then bind_res (removeAndResetChannel (set_state cDisconnected w)) (\<lambda>(sockfd, w). retry sockfd w)
      else Inr w)"

definition connector_stop :: "'a connector_net_scheme \<Rightarrow> 'a connector_net_scheme res" where
  "connector_stop w = runInLoop (ct_loop (ct w)) FStopInLoop stopInLoop
     (upd_connector (\<lambda>c. c\<lparr>ct_connect := False\<rparr>) w)"

definition restart :: "'a connector_net_scheme \<Rightarrow> 'a connector_net_scheme res" where
  "restart w = startInLoop (upd_connector (\<lambda>c. c\<lparr>ct_connect := True\<rparr>) (set_state cDisconnected w))"

text \<open>
  \<open>handleWrite\<close>; \<open>callback\<close> is what calling \<open>newConnectionCallback_\<close> does with a descriptor, which
  is then no longer the connector's.
\<close>

definition no_result :: result_env where
  "no_result = \<lparr>re_error = 0, re_local = None, re_peer = None,
     re_sock = \<lparr>sk_fd = 0, sk_opts = [], sk_reads = [], sk_writes = [], sk_sent = [], sk_fin = False\<rparr>, re_conn = 0, re_chan = 0\<rparr>"

definition next_result :: "'a connector_net_scheme \<Rightarrow> result_env" where
  "next_result w = (case ct_results w of [] \<Rightarrow> no_result | e # _ \<Rightarrow> e)"

definition connector_handleWrite ::
    "(int \<Rightarrow> result_env \<Rightarrow> 'a connector_net_scheme \<Rightarrow> 'a connector_net_scheme res) \<Rightarrow>
     'a connector_net_scheme \<Rightarrow> 'a connector_net_scheme res" where
  "connector_handleWrite callback w =
     (if ct_state (ct w) = cConnecting
      then bind_res (removeAndResetChannel w) (\<lambda>(sockfd, w).
        let e = next_result w; w = w\<lparr>ct_results := tl (ct_results w)\<rparr> in
        if re_error e \<noteq> 0 then retry sockfd w
        else if isSelfConnect (re_local e) (re_peer e) then retry sockfd w
        else
          let w = set_state cConnected w in
          if ct_connect (ct w)
          then if ct_newConnectionCallback (ct w) then callback sockfd e (close_fd sockfd w)
               else Inl BadFunctionCall
          else Inr (close_fd sockfd w))
      else Inr w)"

text \<open>\<open>LOG_FATAL\<close> ends the process, so the \<open>retry\<close> after it is never reached.\<close>

definition connector_handleError :: "'a connector_net_scheme \<Rightarrow> 'a connector_net_scheme res" where
  "connector_handleError w =
     (if ct_state (ct w) = cConnecting
      then bind_res (removeAndResetChannel w) (\<lambda>(sockfd, w). Inl (LogFatal ''SO_ERROR''))
      else Inr w)"

end
