(* ===== verification/TcpClient.thy ===== *)
theory TcpClient
  imports Connector
begin

text \<open>
  TcpClient.h and TcpClient.cc: a client keeps one connector and at most one connection, which it
  makes out of the descriptor that the connector hands over, and starts the connector again when
  the connection goes, if it was told to.
\<close>

section \<open>State\<close>

record client =
  cl_name :: string
  cl_connectionCallback :: "user_cb option"
  cl_messageCallback :: "user_cb option"
  cl_writeCompleteCallback :: "user_cb option"
  cl_retry :: bool
  cl_connect :: bool
  cl_nextConnId :: int
  cl_connection :: "nat option"

text \<open>
  \<open>cl\<close> is \<open>None\<close> when the client is destroyed, and then the connector is as well (only a timer
  could keep it longer, and there is no timer queue). The loop of the client is \<open>ct_loop\<close> of the
  connector, which its constructor passes on.
\<close>

record client_net = connector_net +
  cl :: "client option"

definition get_client :: "'a client_net_scheme \<Rightarrow> client res" where
  "get_client w = deref UseAfterFree (cl w)"

definition put_client :: "client \<Rightarrow> 'a client_net_scheme \<Rightarrow> 'a client_net_scheme" where
  "put_client c w = w\<lparr>cl := Some c\<rparr>"

section \<open>Operations\<close>

text \<open>The constructor; the connector is new as well, and its callback is set.\<close>

definition mk_client :: "string \<Rightarrow> client" where
  "mk_client nameArg = \<lparr>cl_name = nameArg, cl_connectionCallback = Some DefaultCb,
     cl_messageCallback = Some DefaultCb, cl_writeCompleteCallback = None, cl_retry = False,
     cl_connect = True, cl_nextConnId = 1, cl_connection = None\<rparr>"

text \<open>The setters, before the client connects.\<close>

definition client_setConnectionCallback :: "user_cb option \<Rightarrow> client \<Rightarrow> client" where
  "client_setConnectionCallback cb c = c\<lparr>cl_connectionCallback := cb\<rparr>"

definition client_setMessageCallback :: "user_cb option \<Rightarrow> client \<Rightarrow> client" where
  "client_setMessageCallback cb c = c\<lparr>cl_messageCallback := cb\<rparr>"

definition client_setWriteCompleteCallback :: "user_cb option \<Rightarrow> client \<Rightarrow> client" where
  "client_setWriteCompleteCallback cb c = c\<lparr>cl_writeCompleteCallback := cb\<rparr>"

definition enableRetry :: "client \<Rightarrow> client" where
  "enableRetry c = c\<lparr>cl_retry := True\<rparr>"

definition new_client :: "nat \<Rightarrow> sockaddr_in \<Rightarrow> string \<Rightarrow> 'a client_net_scheme \<Rightarrow> 'a client_net_scheme" where
  "new_client l serverAddr nameArg w = put_client (mk_client nameArg)
     (w\<lparr>ct := (mk_connector l serverAddr)\<lparr>ct_newConnectionCallback := True\<rparr>\<rparr>)"

definition client_connect :: "'a client_net_scheme \<Rightarrow> 'a client_net_scheme res" where
  "client_connect w =
     bind_res (get_client w) (\<lambda>c. connector_start (put_client (c\<lparr>cl_connect := True\<rparr>) w))"

definition client_disconnect :: "'a client_net_scheme \<Rightarrow> 'a client_net_scheme res" where
  "client_disconnect w =
     bind_res (get_client w) (\<lambda>c.
       let w = put_client (c\<lparr>cl_connect := False\<rparr>) w in
       case cl_connection c of None \<Rightarrow> Inr w | Some conn \<Rightarrow> tcp_shutdown conn w)"

definition client_stop :: "'a client_net_scheme \<Rightarrow> 'a client_net_scheme res" where
  "client_stop w =
     bind_res (get_client w) (\<lambda>c. connector_stop (put_client (c\<lparr>cl_connect := False\<rparr>) w))"

definition client_connName :: "client \<Rightarrow> sockaddr_in \<Rightarrow> string" where
  "client_connName c peer =
     cl_name c @ snprintf 32 ('':'' @ toIpPort peer @ ''#'' @ decimal_int (cl_nextConnId c))"

text \<open>The client's own \<open>getPeerAddr\<close> and \<open>getLocalAddr\<close>, over the smaller structure.\<close>

definition client_peer :: "result_env \<Rightarrow> sockaddr_in" where
  "client_peer e = as_sockaddr_in (getPeerAddr (re_peer e))"

definition client_local :: "result_env \<Rightarrow> sockaddr_in" where
  "client_local e = as_sockaddr_in (getLocalAddr (re_local e))"

text \<open>The callbacks that the client sets on a new connection.\<close>

definition client_configured :: "client \<Rightarrow> conn \<Rightarrow> conn" where
  "client_configured c cn = conn_setCloseCallback ClientRemove
     (conn_setWriteCompleteCallback (cl_writeCompleteCallback c)
     (conn_setMessageCallback (cl_messageCallback c)
     (conn_setConnectionCallback (cl_connectionCallback c) cn)))"

text \<open>
  \<open>newConnection\<close>; \<open>e\<close> holds the answers of \<open>getpeername\<close> and \<open>getsockname\<close>, the kernel's
  socket behind the descriptor, and the places of the two objects.
\<close>

definition client_newConnection :: "(app_event \<Rightarrow> 'a client_net_scheme \<Rightarrow> api list) \<Rightarrow> int \<Rightarrow>
    result_env \<Rightarrow> 'a client_net_scheme \<Rightarrow> 'a client_net_scheme res" where
  "client_newConnection app sockfd e w =
     bind_res (get_client w) (\<lambda>c.
       let peer = client_peer e; nm = client_connName c peer;
           local = client_local e; conn = re_conn e in
       if cl_nextConnId c = 2 ^ 31 - 1 then Inl SignedOverflow
       else
         bind_res (new_conn conn (re_chan e) (ct_loop (ct w)) nm ((re_sock e)\<lparr>sk_fd := sockfd\<rparr>) local peer
             (put_client (c\<lparr>cl_nextConnId := cl_nextConnId c + 1\<rparr>) w)) (\<lambda>w.
         bind_res (upd_conn conn (client_configured c) w) (\<lambda>w.
         bind_res (get_client w) (\<lambda>c.
           connectEstablished app conn (put_client (c\<lparr>cl_connection := Some conn\<rparr>) w)))))"

definition client_removeConnection :: "nat \<Rightarrow> 'a client_net_scheme \<Rightarrow> 'a client_net_scheme res" where
  "client_removeConnection conn w =
     bind_res (get_client w) (\<lambda>c.
     bind_res (queueInLoop (ct_loop (ct w)) (FConnectDestroyed conn)
         (put_client (c\<lparr>cl_connection := None\<rparr>) w)) (\<lambda>w.
       if cl_retry c \<and> cl_connect c then restart w else Inr w))"

text \<open>\<open>detail::removeConnection\<close>, the close callback of a connection that outlives its client.\<close>

definition detail_removeConnection :: "nat \<Rightarrow> 'a client_net_scheme \<Rightarrow> 'a client_net_scheme res" where
  "detail_removeConnection conn w = queueInLoop (ct_loop (ct w)) (FConnectDestroyed conn) w"

text \<open>The function bound as \<open>removeConnector\<close> does nothing.\<close>

definition removeConnector :: "'a client_net_scheme \<Rightarrow> 'a client_net_scheme res" where
  "removeConnector w = Inr w"

text \<open>
  The destructor; \<open>unique\<close> is the answer of \<open>connection_.unique()\<close>. The connector goes with the
  client, and its channel with the connector.
\<close>

definition destroy_client :: "bool \<Rightarrow> 'a client_net_scheme \<Rightarrow> 'a client_net_scheme res" where
  "destroy_client unique w =
     bind_res (get_client w) (\<lambda>c.
     bind_res (case cl_connection c of
         Some conn \<Rightarrow>
           bind_res (runInLoop (ct_loop (ct w)) (FSetCloseCallback conn DetailRemove)
             (upd_conn conn (\<lambda>cn. cn\<lparr>cn_closeCallback := Some DetailRemove\<rparr>)) w) (\<lambda>w.
           if unique then forceClose conn w else Inr w)
       | None \<Rightarrow>
           bind_res (connector_stop w) (\<lambda>w. case next_time w of (now, clock, p) \<Rightarrow>
             runAfter now clock (ct_loop (ct w)) p 1 FRemoveConnector (w\<lparr>ct_times := tl (ct_times w)\<rparr>)))
       (\<lambda>w. Inr (destroy_chan (ct_channel (ct w)) (w\<lparr>cl := None\<rparr>))))"

section \<open>Handlers and functors of a client\<close>

definition client_close :: "close_target \<Rightarrow> nat \<Rightarrow> 'a client_net_scheme \<Rightarrow> 'a client_net_scheme res" where
  "client_close t conn w = (case t of
      ServerRemove \<Rightarrow> Inr w
    | ClientRemove \<Rightarrow> client_removeConnection conn w
    | DetailRemove \<Rightarrow> detail_removeConnection conn w)"

text \<open>A closure bound to the connector runs on the connector.\<close>

definition on_connector :: "('a client_net_scheme \<Rightarrow> 'a client_net_scheme res) \<Rightarrow> 'a client_net_scheme \<Rightarrow>
    'a client_net_scheme res" where
  "on_connector f w = bind_res (get_client w) (\<lambda>c. f w)"

definition run_client_handler :: "(app_event \<Rightarrow> 'a client_net_scheme \<Rightarrow> api list) \<Rightarrow> timestamp \<Rightarrow>
    handler \<Rightarrow> 'a client_net_scheme \<Rightarrow> 'a client_net_scheme res" where
  "run_client_handler app = run_conn_handler app client_close (\<lambda>h w. case h of
       ConnectorHandleWrite \<Rightarrow> on_connector (connector_handleWrite (client_newConnection app)) w
     | ConnectorHandleError \<Rightarrow> on_connector connector_handleError w
     | _ \<Rightarrow> Inr w)"

definition run_client_functor :: "(app_event \<Rightarrow> 'a client_net_scheme \<Rightarrow> api list) \<Rightarrow> Functor \<Rightarrow>
    'a client_net_scheme \<Rightarrow> 'a client_net_scheme res" where
  "run_client_functor app = run_conn_functor app client_close (\<lambda>f w. case f of
       FStartInLoop \<Rightarrow> on_connector startInLoop w
     | FStopInLoop \<Rightarrow> on_connector stopInLoop w
     | FResetChannel \<Rightarrow> on_connector resetChannel w
     | FRemoveConnector \<Rightarrow> removeConnector w
     | FUser n \<Rightarrow> call_app app (OnUser n) w
     | _ \<Rightarrow> Inr w)"

end
