(* ===== verification/Connector_Steps.thy ===== *)
theory Connector_Steps
  imports Connector Calm
begin

text \<open>
  What each operation of the connector does to an attempt: there is none (\<open>Idle\<close>), one is watched
  (\<open>Trying\<close>), or one is over and its channel waits for the queued \<open>resetChannel\<close> (\<open>Cleaning\<close>), which
  the loop may have taken out of its queue already (\<open>Resetting\<close>).
  \<open>connector_at\<close> says what a state of the program in one of these phases looks like.
\<close>

section \<open>Reading the state of the connector\<close>

lemma connector_simps [simp]:
  "ct (put_loop l el w) = ct w" "ct_open (put_loop l el w) = ct_open w"
  "ct_connects (put_loop l el w) = ct_connects w" "ct_results (put_loop l el w) = ct_results w"
  "ct_times (put_loop l el w) = ct_times w"
  "ct (put_chan d ch w) = ct w" "ct_open (put_chan d ch w) = ct_open w"
  "ct_connects (put_chan d ch w) = ct_connects w" "ct_results (put_chan d ch w) = ct_results w"
  "ct_times (put_chan d ch w) = ct_times w"
  "connector_net.more (put_loop l el w) = connector_net.more w"
  "connector_net.more (put_chan d ch w) = connector_net.more w"
  by (simp_all add: put_loop_def put_chan_def)

lemma upd_connector_simps [simp]:
  "n_loops (upd_connector f w) = n_loops w" "n_chans (upd_connector f w) = n_chans w"
  "n_tid (upd_connector f w) = n_tid w" "cn_conns (upd_connector f w) = cn_conns w"
  "cn_strings (upd_connector f w) = cn_strings w" "ct (upd_connector f w) = f (ct w)"
  "ct_open (upd_connector f w) = ct_open w" "ct_connects (upd_connector f w) = ct_connects w"
  "ct_results (upd_connector f w) = ct_results w" "ct_times (upd_connector f w) = ct_times w"
  "connector_net.more (upd_connector f w) = connector_net.more w"
  by (simp_all add: upd_connector_def)

lemma set_state_simps [simp]:
  "n_loops (set_state s w) = n_loops w" "n_chans (set_state s w) = n_chans w"
  "n_tid (set_state s w) = n_tid w" "cn_conns (set_state s w) = cn_conns w"
  "cn_strings (set_state s w) = cn_strings w" "ct (set_state s w) = (ct w)\<lparr>ct_state := s\<rparr>"
  "ct_open (set_state s w) = ct_open w" "ct_connects (set_state s w) = ct_connects w"
  "ct_results (set_state s w) = ct_results w" "ct_times (set_state s w) = ct_times w"
  "connector_net.more (set_state s w) = connector_net.more w"
  by (simp_all add: set_state_def)

lemma close_fd_simps [simp]:
  "n_loops (close_fd fd w) = n_loops w" "n_chans (close_fd fd w) = n_chans w"
  "n_tid (close_fd fd w) = n_tid w" "cn_conns (close_fd fd w) = cn_conns w"
  "cn_strings (close_fd fd w) = cn_strings w" "ct (close_fd fd w) = ct w"
  "ct_open (close_fd fd w) = removeAll fd (ct_open w)" "ct_connects (close_fd fd w) = ct_connects w"
  "ct_results (close_fd fd w) = ct_results w" "ct_times (close_fd fd w) = ct_times w"
  "connector_net.more (close_fd fd w) = connector_net.more w"
  by (simp_all add: close_fd_def)

section \<open>Away from the connections\<close>

text \<open>
  \<open>w'\<close> differs from \<open>w\<close> in channels and descriptors that no connection has, and poller, kernel
  and channels agree in it.
\<close>

definition apart :: "'a conn_net_scheme \<Rightarrow> 'a conn_net_scheme \<Rightarrow> bool" where
  "apart w w' \<longleftrightarrow> net_inv w' \<and> cn_conns w' = cn_conns w \<and> cn_strings w' = cn_strings w
     \<and> (\<forall>c cn. cn_conns w c = Some cn \<longrightarrow>
          n_chans w' (cn_channel cn) = n_chans w (cn_channel cn)
        \<and> (\<forall>el. n_loops w (cn_loop cn) = Some el \<longrightarrow> (\<exists>el'. n_loops w' (cn_loop cn) = Some el'
             \<and> channels_map (el_poller el') (sk_fd (cn_socket cn))
               = channels_map (el_poller el) (sk_fd (cn_socket cn)))))"

lemma apart_conn_inv:
  assumes inv: "conn_inv w" and a: "apart w w'"
  shows "conn_inv w'"
  unfolding conn_inv_def
proof (intro conjI allI impI)
  have same: "cn_conns w' = cn_conns w" "cn_strings w' = cn_strings w" using a by (simp_all add: apart_def)
  show "net_inv w'" using a by (simp add: apart_def)
  show "\<exists>ch el. linked c cn ch el w' \<and> conn_local cn ch" if c: "cn_conns w' c = Some cn" for c cn
  proof -
    obtain ch el where l: "linked c cn ch el w" "conn_local cn ch"
      using conn_invE [OF inv, of c cn] c same by metis
    then obtain el' where "n_loops w' (cn_loop cn) = Some el'"
      "channels_map (el_poller el') (sk_fd (cn_socket cn)) = channels_map (el_poller el) (sk_fd (cn_socket cn))"
      "n_chans w' (cn_channel cn) = Some ch"
      using a unfolding apart_def linked_def by metis
    then have "linked c cn ch el' w'" using l(1) same by (auto simp: linked_def owns_def may_add_def)
    with l(2) show ?thesis by blast
  qed
  show "sk_fd (cn_socket cn) \<noteq> sk_fd (cn_socket dn)"
    if "cn_conns w' c = Some cn \<and> cn_conns w' d = Some dn \<and> c \<noteq> d" for c d cn dn
    using that conn_inv_fds [OF inv] same by metis
  show "length s < 2 ^ 64" if "cn_strings w' p = Some s" for p s
    using that conn_inv_strings [OF inv] same by simp
qed

lemma apart_registered_up: "registered_up w \<Longrightarrow> apart w w' \<Longrightarrow> registered_up w'"
  unfolding registered_up_def apart_def by metis

lemma apart_refl: "net_inv w \<Longrightarrow> apart w w"
  by (simp add: apart_def)

lemma apart_cong:
  "net_inv w \<Longrightarrow> n_loops w' = n_loops w \<Longrightarrow> n_chans w' = n_chans w \<Longrightarrow> cn_conns w' = cn_conns w \<Longrightarrow>
   cn_strings w' = cn_strings w \<Longrightarrow> apart w w'"
  by (simp add: apart_def net_inv_cong [of w' w])

lemma apart_trans:
  assumes ab: "apart a b" and bc: "apart b c"
  shows "apart a c"
proof -
  have "\<exists>el'. n_loops c (cn_loop cn) = Some el'
       \<and> channels_map (el_poller el') (sk_fd (cn_socket cn)) = channels_map (el_poller el) (sk_fd (cn_socket cn))"
    if h: "cn_conns a d = Some cn" "n_loops a (cn_loop cn) = Some el" for d cn el
  proof -
    obtain x where x: "n_loops b (cn_loop cn) = Some x"
      "channels_map (el_poller x) (sk_fd (cn_socket cn)) = channels_map (el_poller el) (sk_fd (cn_socket cn))"
      using ab h unfolding apart_def by blast
    have "cn_conns b d = Some cn" using ab h(1) by (simp add: apart_def)
    then obtain y where "n_loops c (cn_loop cn) = Some y"
      "channels_map (el_poller y) (sk_fd (cn_socket cn)) = channels_map (el_poller x) (sk_fd (cn_socket cn))"
      using bc x(1) unfolding apart_def by blast
    with x(2) show ?thesis by auto
  qed
  then show ?thesis using ab bc unfolding apart_def by auto
qed

text \<open>Channels and descriptors that no connection has.\<close>

definition no_conn_fd :: "int \<Rightarrow> 'a conn_net_scheme \<Rightarrow> bool" where
  "no_conn_fd fd w \<longleftrightarrow> (\<forall>c cn. cn_conns w c = Some cn \<longrightarrow> sk_fd (cn_socket cn) \<noteq> fd)"

lemma no_conn_chan_free: "conn_inv w \<Longrightarrow> n_chans w d = None \<Longrightarrow> no_conn_chan d w"
  unfolding no_conn_chan_def by (auto elim!: conn_invE simp: linked_def)

lemma no_conn_chan_other:
  "conn_inv w \<Longrightarrow> n_chans w d = Some ch \<Longrightarrow> writeCallback ch = Some ConnectorHandleWrite \<Longrightarrow> no_conn_chan d w"
  unfolding no_conn_chan_def by (auto elim!: conn_invE simp: linked_def owns_def)

lemma apart_sync:
  assumes inv: "net_inv w" and ok: "chan_ok d ch el w" and s: "no_conn_chan d w" "no_conn_fd (ch_fd ch) w"
    and ch': "ch_loop ch' = ch_loop ch" "ch_fd ch' = ch_fd ch" "index_ok ch'"
  shows "apart w (put_chan d ch' (put_loop (ch_loop ch) (synced d ch' el) w))"
  using net_inv_sync [OF inv ok ch'] ok s ch'(2)
  by (auto simp: apart_def no_conn_chan_def no_conn_fd_def chan_ok_def sync_def)

lemma apart_new_chan:
  assumes "conn_inv w" "n_chans w d = None" "ch_index ch = KNew"
  shows "apart w (put_chan d ch w)"
  using net_inv_new_chan [OF conn_inv_net [OF assms(1)] assms(2,3)] no_conn_chan_free [OF assms(1,2)]
  by (auto simp: apart_def no_conn_chan_def)

lemma apart_drop_chan:
  assumes inv: "net_inv w" and d: "n_chans w d = Some ch" "ch_index ch = KNew" and s: "no_conn_chan d w"
  shows "apart w (w\<lparr>n_chans := (n_chans w)(d := None)\<rparr>)"
proof -
  have "poller_inv l p ((n_chans w)(d := None))" if "poller_inv l p (n_chans w)" for l p
    using that by (rule poller_inv_cong) (use d in simp)
  then have "net_inv (w\<lparr>n_chans := (n_chans w)(d := None)\<rparr>)"
    using inv by (simp add: net_inv_def del: fun_upd_apply)
  then show ?thesis using s by (auto simp: apart_def no_conn_chan_def)
qed

lemma apart_put_loop:
  "net_inv w \<Longrightarrow> n_loops w l = Some el \<Longrightarrow> el_poller el' = el_poller el \<Longrightarrow> apart w (put_loop l el' w)"
  using net_inv_put_loop [of w l el el'] by (auto simp: apart_def)

section \<open>The phases of an attempt\<close>

datatype attempt = Idle | Trying | Cleaning | Resetting

text \<open>A channel as \<open>connecting\<close> makes it, on the loop \<open>l\<close>; \<open>revents_\<close> is the poller's.\<close>

definition attempt_chan :: "nat \<Rightarrow> channel \<Rightarrow> bool" where
  "attempt_chan l ch \<longleftrightarrow> ch_loop ch = l \<and> readCallback ch = None \<and> closeCallback ch = None
     \<and> writeCallback ch = Some ConnectorHandleWrite \<and> errorCallback ch = Some ConnectorHandleError"

text \<open>
  While an attempt is watched its descriptor is the only one the connector has open; otherwise it
  has none.
\<close>

fun shape :: "attempt \<Rightarrow> 'a connector_net_scheme \<Rightarrow> bool" where
  "shape Idle w \<longleftrightarrow> ct_channel (ct w) = None \<and> ct_open w = []"
| "shape Trying w \<longleftrightarrow> (\<exists>d ch. ct_channel (ct w) = Some d \<and> n_chans w d = Some ch
     \<and> attempt_chan (ct_loop (ct w)) ch \<and> ch_index ch = KAdded \<and> ch_events ch = kWriteEvent
     \<and> ct_open w = [ch_fd ch] \<and> no_conn_fd (ch_fd ch) w)"
| "shape Cleaning w \<longleftrightarrow> (\<exists>d ch. ct_channel (ct w) = Some d \<and> n_chans w d = Some ch
     \<and> attempt_chan (ct_loop (ct w)) ch \<and> ch_index ch = KNew \<and> ct_open w = [])"
| "shape Resetting w \<longleftrightarrow> (\<exists>d ch. ct_channel (ct w) = Some d \<and> n_chans w d = Some ch
     \<and> attempt_chan (ct_loop (ct w)) ch \<and> ch_index ch = KNew \<and> ct_open w = [])"

text \<open>The connector's loop runs in this thread, and holds a \<open>resetChannel\<close> exactly in \<open>Cleaning\<close>.\<close>

definition home :: "nat \<Rightarrow> evloop \<Rightarrow> 'a connector_net_scheme \<Rightarrow> bool" where
  "home resets el w \<longleftrightarrow> n_loops w (ct_loop (ct w)) = Some el \<and> threadId el = n_tid w \<and> timerQueue el = None
     \<and> count_list (pendingFunctors el) FResetChannel = resets"

fun resets :: "attempt \<Rightarrow> nat" where
  "resets Cleaning = 1"
| "resets ph = 0"

definition connector_at :: "attempt \<Rightarrow> 'a connector_net_scheme \<Rightarrow> bool" where
  "connector_at ph w \<longleftrightarrow> conn_inv w \<and> (\<exists>el. home (resets ph) el w) \<and> shape ph w
     \<and> (ct_state (ct w) = cConnecting \<longleftrightarrow> ph = Trying)"

text \<open>A descriptor, and a place for its channel, that nothing uses.\<close>

definition new_descriptor :: "int \<Rightarrow> nat \<Rightarrow> 'a connector_net_scheme \<Rightarrow> bool" where
  "new_descriptor fd d w \<longleftrightarrow> no_conn_fd fd w \<and> n_chans w d = None
     \<and> (\<forall>el. n_loops w (ct_loop (ct w)) = Some el \<longrightarrow> channels_map (el_poller el) fd = None)"

section \<open>Watching and giving up a descriptor\<close>

text \<open>Changes outside the net: of the connector's own fields and of the environment.\<close>

lemma apart_fields:
  "conn_inv w \<Longrightarrow> apart w (upd_connector f w)" "conn_inv w \<Longrightarrow> apart w (set_state s w)"
  "conn_inv w \<Longrightarrow> apart w (close_fd fd w)"
  by (simp_all add: apart_cong conn_inv_net)

definition old_chan_gone :: "'a connector_net_scheme \<Rightarrow> bool" where
  "old_chan_gone w \<longleftrightarrow> (\<forall>d. ct_channel (ct w) = Some d \<longrightarrow> (\<exists>ch. n_chans w d = Some ch \<and> ch_index ch = KNew
     \<and> attempt_chan (ct_loop (ct w)) ch))"

lemma destroy_chan_simps [simp]:
  "ct (destroy_chan x w) = ct w" "n_loops (destroy_chan x w) = n_loops w" "n_tid (destroy_chan x w) = n_tid w"
  "ct_open (destroy_chan x w) = ct_open w" "connector_net.more (destroy_chan x w) = connector_net.more w"
  "cn_conns (destroy_chan x w) = cn_conns w"
  by (simp_all add: destroy_chan_def split: option.split)

lemma destroy_old_chan:
  assumes inv: "conn_inv w" and old: "old_chan_gone w"
  shows "apart w (destroy_chan (ct_channel (ct w)) w)"
proof (cases "ct_channel (ct w)")
  case None
  then show ?thesis using inv by (simp add: destroy_chan_def apart_refl conn_inv_net)
next
  case (Some d)
  then obtain ch where d: "n_chans w d = Some ch" "ch_index ch = KNew" "attempt_chan (ct_loop (ct w)) ch"
    using old by (auto simp: old_chan_gone_def)
  have "no_conn_chan d w" using no_conn_chan_other [OF inv d(1)] d(3) by (simp add: attempt_chan_def)
  then show ?thesis using apart_drop_chan [OF conn_inv_net [OF inv] d(1,2)] Some by (simp add: destroy_chan_def)
qed

lemma connecting_ok:
  assumes inv: "conn_inv w" and el: "n_loops w (ct_loop (ct w)) = Some el"
    and old: "old_chan_gone w" and new: "new_descriptor fd d w"
  shows "returns (connecting fd d w) (\<lambda>w'. apart w w'
     \<and> ct w' = (ct w)\<lparr>ct_state := cConnecting, ct_channel := Some d\<rparr> \<and> ct_open w' = ct_open w
     \<and> n_tid w' = n_tid w \<and> connector_net.more w' = connector_net.more w
     \<and> (\<exists>el'. n_loops w' (ct_loop (ct w)) = Some el' \<and> pendingFunctors el' = pendingFunctors el
          \<and> threadId el' = threadId el \<and> timerQueue el' = timerQueue el
          \<and> events_size (el_poller el') = events_size (el_poller el))
     \<and> (\<exists>ch. n_chans w' d = Some ch \<and> attempt_chan (ct_loop (ct w)) ch \<and> ch_index ch = KAdded
          \<and> ch_events ch = kWriteEvent \<and> ch_fd ch = fd)
     \<and> (\<forall>b. b \<noteq> d \<and> ct_channel (ct w) \<noteq> Some b \<longrightarrow> n_chans w' b = n_chans w b))"
proof -
  let ?l = "ct_loop (ct w)"
  let ?ch = "(mk_channel ?l fd)\<lparr>writeCallback := Some ConnectorHandleWrite, errorCallback := Some ConnectorHandleError\<rparr>"
  let ?w0 = "destroy_chan (ct_channel (ct w)) (set_state cConnecting w)"
  let ?w1 = "put_chan d ?ch ?w0"
  let ?w2 = "upd_connector (\<lambda>c. c\<lparr>ct_channel := Some d\<rparr>) ?w1"
  let ?ch' = "masked EnableWriting ?ch"
  have d: "n_chans w d = None" "no_conn_fd fd w" "channels_map (el_poller el) fd = None"
    using new el by (simp_all add: new_descriptor_def)
  have s: "apart w (set_state cConnecting w)" using inv by (rule apart_fields)
  have i0: "conn_inv (set_state cConnecting w)" by (rule apart_conn_inv [OF inv s])
  have "old_chan_gone (set_state cConnecting w)" using old by (simp add: old_chan_gone_def)
  from destroy_old_chan [OF i0 this] have s0: "apart w ?w0" by (intro apart_trans [OF s]) simp
  have i1: "conn_inv ?w0" by (rule apart_conn_inv [OF inv s0])
  have d0: "n_chans ?w0 d = None" using d(1) by (simp add: destroy_chan_def split: option.split)
  have a1: "apart w ?w1"
    by (rule apart_trans [OF s0 apart_new_chan [OF i1 d0]]) (simp add: mk_channel_def KNew_def)
  have i: "conn_inv ?w1" by (rule apart_conn_inv [OF inv a1])
  have a2: "apart w ?w2" by (rule apart_trans [OF a1 apart_fields(1) [OF i]])
  have i2: "conn_inv ?w2" by (rule apart_conn_inv [OF inv a2])
  have ok: "chan_ok d ?ch el ?w2"
    using el d by (simp add: chan_ok_def may_add_def mk_channel_def)
  have nc: "no_conn_chan d ?w2" by (rule no_conn_chan_other [OF i2, of d ?ch]) simp_all
  have nf: "no_conn_fd (ch_fd ?ch) ?w2" using d(2) by (simp add: no_conn_fd_def mk_channel_def)
  have a3: "apart w (put_chan d ?ch' (put_loop (ch_loop ?ch) (synced d ?ch' el) ?w2))"
    by (rule apart_trans [OF a2 apart_sync [OF conn_inv_net [OF i2] ok nc nf]]) simp_all
  have r: "connecting fd d w = Inr (put_chan d ?ch' (put_loop (ch_loop ?ch) (synced d ?ch' el) ?w2))"
    using change_mask_eq [OF conn_inv_net [OF i2] ok, of EnableWriting] d
    by (simp add: connecting_def Let_def)
  have "change_events EnableWriting 0 = kWriteEvent" by (rule bit_word_eqI) simp
  then have ch': "attempt_chan ?l ?ch'" "ch_index ?ch' = KAdded" "ch_events ?ch' = kWriteEvent" "ch_fd ?ch' = fd"
    by (simp_all add: attempt_chan_def mk_channel_def masked_def next_index_def KNew_def KAdded_def)
  have "n_chans ?w0 b = n_chans w b" if "ct_channel (ct w) \<noteq> Some b" for b
    using that by (auto simp: destroy_chan_def split: option.split)
  then show ?thesis using a3 ch' unfolding r by (simp add: mk_channel_def sync_def)
qed

text \<open>The environment's answers that are still to come.\<close>

definition same_answers :: "'a connector_net_scheme \<Rightarrow> 'a connector_net_scheme \<Rightarrow> bool" where
  "same_answers w w' \<longleftrightarrow> ct_connects w' = ct_connects w \<and> ct_results w' = ct_results w \<and> ct_times w' = ct_times w"

definition same_places :: "'a net_scheme \<Rightarrow> 'a net_scheme \<Rightarrow> bool" where
  "same_places w w' \<longleftrightarrow> dom (n_chans w') = dom (n_chans w)"

lemma removeAndResetChannel_ok:
  assumes inv: "conn_inv w" and hm: "home n el w" and d: "ct_channel (ct w) = Some d" "n_chans w d = Some ch"
    and ch: "attempt_chan (ct_loop (ct w)) ch" "ch_index ch = KAdded" "no_conn_fd (ch_fd ch) w"
  shows "returns (removeAndResetChannel w) (\<lambda>(fd, w'). fd = ch_fd ch \<and> apart w w' \<and> ct w' = ct w
     \<and> ct_open w' = ct_open w \<and> same_answers w w' \<and> connector_net.more w' = connector_net.more w
     \<and> same_places w w' \<and> (\<exists>el'. home (Suc n) el' w' \<and> channels_map (el_poller el') (ch_fd ch) = None
          \<and> pendingFunctors el' = pendingFunctors el @ [FResetChannel])
     \<and> n_tid w' = n_tid w \<and> (\<forall>b. b \<noteq> d \<longrightarrow> n_chans w' b = n_chans w b)
     \<and> (\<exists>ch'. n_chans w' d = Some ch' \<and> attempt_chan (ct_loop (ct w)) ch' \<and> ch_index ch' = KNew))"
proof -
  let ?l = "ct_loop (ct w)"
  have el: "n_loops w ?l = Some el" and l: "ch_loop ch = ?l" "writeCallback ch = Some ConnectorHandleWrite"
    using hm ch(1) by (simp_all add: home_def attempt_chan_def)
  have ok: "chan_ok d ch el w" using el d(2) l ch(2) by (simp add: chan_ok_def may_add_def)
  have nc: "no_conn_chan d w" using no_conn_chan_other [OF inv d(2) l(2)] .
  let ?ch1 = "masked DisableAll ch"
  let ?el1 = "synced d ?ch1 el"
  let ?w1 = "put_chan d ?ch1 (put_loop (ch_loop ch) ?el1 w)"
  let ?ch2 = "?ch1\<lparr>ch_index := KNew\<rparr>"
  let ?w2 = "put_chan d ?ch2 (put_loop (ch_loop ?ch1) (synced d ?ch2 ?el1) ?w1)"
  let ?el3 = "queued (n_tid w) FResetChannel (synced d ?ch2 ?el1)"
  have a1: "apart w ?w1"
    by (rule apart_sync [OF conn_inv_net [OF inv] ok nc ch(3)]) simp_all
  have i1: "conn_inv ?w1" by (rule apart_conn_inv [OF inv a1])
  have ok1: "chan_ok d ?ch1 ?el1 ?w1" by (rule change_mask_ok(2) [OF conn_inv_net [OF inv] ok])
  have nc1: "no_conn_chan d ?w1" "no_conn_fd (ch_fd ?ch1) ?w1"
    using nc ch(3) by (simp_all add: no_conn_chan_def no_conn_fd_def)
  have a2: "apart ?w1 ?w2"
    by (rule apart_sync [OF conn_inv_net [OF i1] ok1 nc1]) (simp_all add: index_ok_def)
  have a3: "apart ?w2 (put_loop ?l ?el3 ?w2)"
    by (rule apart_put_loop [where el = "synced d ?ch2 ?el1"]) (use a2 l in \<open>simp_all add: apart_def\<close>)
  have a: "apart w (put_loop ?l ?el3 ?w2)" by (rule apart_trans [OF apart_trans [OF a1 a2] a3])
  have r1: "change_mask DisableAll d w = Inr ?w1" by (rule change_mask_eq [OF conn_inv_net [OF inv] ok])
  have r2: "chan_remove d ?w1 = Inr ?w2" by (rule chan_remove_eq [OF conn_inv_net [OF i1] ok1])
  have r3: "queueInLoop ?l FResetChannel ?w2 = Inr (put_loop ?l ?el3 ?w2)"
    using queueInLoop_eq [of ?w2 ?l "synced d ?ch2 ?el1" FResetChannel] l by simp
  have g: "get_chan d ?w2 = Inr ?ch2" by simp
  have r: "removeAndResetChannel w = Inr (ch_fd ch, put_loop ?l ?el3 ?w2)"
    unfolding removeAndResetChannel_def d(1) deref_simps bind_res_simps r1 r2 g using r3 by simp
  have "attempt_chan ?l ?ch2" using ch(1) by (simp add: attempt_chan_def masked_def)
  moreover have "home (Suc n) ?el3 (put_loop ?l ?el3 ?w2)"
    using hm by (simp add: home_def)
  moreover have "channels_map (el_poller ?el3) (ch_fd ch) = None" by (simp add: sync_def)
  moreover have "same_places w (put_loop ?l ?el3 ?w2)" using d(2) by (auto simp: same_places_def)
  ultimately show ?thesis using a unfolding r by (auto simp: same_answers_def)
qed

text \<open>
  The loop as its constructor leaves it has no timer queue: a retry that is wanted ends the
  process, one that is not closes the descriptor.
\<close>

lemma retry_eq:
  assumes "home n el w"
  shows "retry fd w = (if ct_connect (ct w) then Inl NullPointer
     else Inr (set_state cDisconnected (close_fd fd w)))"
proof -
  have "n_loops w (ct_loop (ct w)) = Some el" "timerQueue el = None" using assms by (simp_all add: home_def)
  then show ?thesis
    by (cases "next_time w")
      (auto simp: retry_def Let_def next_time_def runAfter_def runAt_def tq_addTimer_def with_timers_def get_loop_def
        split: list.splits prod.splits)
qed

lemma home_fields:
  "home n el (upd_connector f w) = home n el w" if "ct_loop (f (ct w)) = ct_loop (ct w)"
  using that by (simp add: home_def)

lemma home_simps [simp]:
  "home n el (set_state s w) = home n el w" "home n el (close_fd fd w) = home n el w"
  by (simp_all add: home_def)

section \<open>The operations, phase by phase\<close>

text \<open>What the operations leave alone, the client's part of the state included.\<close>

definition same_queue :: "'a connector_net_scheme \<Rightarrow> 'a connector_net_scheme \<Rightarrow> bool" where
  "same_queue w w' \<longleftrightarrow> (\<forall>el. n_loops w (ct_loop (ct w)) = Some el \<longrightarrow> (\<exists>el'. n_loops w' (ct_loop (ct w)) = Some el'
     \<and> filter (\<lambda>f. f \<noteq> FResetChannel) (pendingFunctors el') = filter (\<lambda>f. f \<noteq> FResetChannel) (pendingFunctors el)))"

definition only_own_chan :: "'a connector_net_scheme \<Rightarrow> 'a connector_net_scheme \<Rightarrow> bool" where
  "only_own_chan w w' \<longleftrightarrow> (\<forall>d. ct_channel (ct w) \<noteq> Some d \<and> ct_channel (ct w') \<noteq> Some d \<longrightarrow> n_chans w' d = n_chans w d)
     \<and> (ct_channel (ct w') = ct_channel (ct w) \<or> (\<forall>d. ct_channel (ct w') = Some d \<longrightarrow> n_chans w d = None)
          \<and> (\<forall>d. ct_channel (ct w) = Some d \<longrightarrow> n_chans w' d = None))"

definition beside :: "'a connector_net_scheme \<Rightarrow> 'a connector_net_scheme \<Rightarrow> bool" where
  "beside w w' \<longleftrightarrow> apart w w' \<and> connector_net.more w' = connector_net.more w \<and> n_tid w' = n_tid w
     \<and> ct_loop (ct w') = ct_loop (ct w) \<and> same_queue w w' \<and> only_own_chan w w'"

lemma besideI:
  "apart w w' \<Longrightarrow> connector_net.more w' = connector_net.more w \<Longrightarrow> n_tid w' = n_tid w \<Longrightarrow>
   ct_loop (ct w') = ct_loop (ct w) \<Longrightarrow> same_queue w w' \<Longrightarrow> only_own_chan w w' \<Longrightarrow> beside w w'"
  by (simp add: beside_def)

lemma same_queueI:
  "n_loops w (ct_loop (ct w)) = Some el \<Longrightarrow> n_loops w' (ct_loop (ct w)) = Some el' \<Longrightarrow>
   filter (\<lambda>f. f \<noteq> FResetChannel) (pendingFunctors el') = filter (\<lambda>f. f \<noteq> FResetChannel) (pendingFunctors el) \<Longrightarrow> same_queue w w'"
  by (simp add: same_queue_def)

text \<open>Changes of the connector's other fields and of the environment.\<close>

lemma beside_cong:
  "conn_inv w \<Longrightarrow> n_loops w' = n_loops w \<Longrightarrow> n_chans w' = n_chans w \<Longrightarrow> cn_conns w' = cn_conns w \<Longrightarrow>
   cn_strings w' = cn_strings w \<Longrightarrow> connector_net.more w' = connector_net.more w \<Longrightarrow> n_tid w' = n_tid w \<Longrightarrow>
   ct_loop (ct w') = ct_loop (ct w) \<Longrightarrow> ct_channel (ct w') = ct_channel (ct w) \<Longrightarrow> beside w w'"
  by (simp add: beside_def apart_cong conn_inv_net same_queue_def only_own_chan_def)

lemma connector_atD:
  assumes "connector_at ph w"
  shows "conn_inv w" "shape ph w" "ct_state (ct w) = cConnecting \<longleftrightarrow> ph = Trying"
  using assms by (simp_all add: connector_at_def)

lemma connector_at_home:
  assumes "connector_at ph w"
  obtains el where "home (resets ph) el w" "n_loops w (ct_loop (ct w)) = Some el"
  using assms by (auto simp: connector_at_def home_def)

text \<open>A state that is apart from one with the invariant has it too.\<close>

lemma connector_atI:
  "conn_inv w \<Longrightarrow> apart w w' \<Longrightarrow> home (resets ph) el w' \<Longrightarrow> shape ph w' \<Longrightarrow>
   (ct_state (ct w') = cConnecting \<longleftrightarrow> ph = Trying) \<Longrightarrow> connector_at ph w'"
  using apart_conn_inv unfolding connector_at_def by blast

lemma connector_at_here: "connector_at ph w \<Longrightarrow> isInLoopThread (ct_loop (ct w)) w = Inr True"
  by (erule connector_at_home) (simp add: home_def isInLoopThread_def)

text \<open>The parts of the state that no phase reads.\<close>

lemma connector_at_answers:
  assumes "connector_at ph w"
  shows "connector_at ph (w\<lparr>ct_connects := a\<rparr>)" "connector_at ph (w\<lparr>ct_results := b\<rparr>)"
proof -
  have inv: "conn_inv w" by (rule connector_atD(1) [OF assms])
  have "apart w (w\<lparr>ct_connects := a\<rparr>)" "apart w (w\<lparr>ct_results := b\<rparr>)"
    by (simp_all add: apart_cong conn_inv_net [OF inv])
  then have "conn_inv (w\<lparr>ct_connects := a\<rparr>)" "conn_inv (w\<lparr>ct_results := b\<rparr>)"
    using apart_conn_inv [OF inv] by blast+
  moreover have "shape ph (w\<lparr>ct_connects := a\<rparr>) = shape ph w" "shape ph (w\<lparr>ct_results := b\<rparr>) = shape ph w"
    by (cases ph; simp add: no_conn_fd_def)+
  ultimately show "connector_at ph (w\<lparr>ct_connects := a\<rparr>)" "connector_at ph (w\<lparr>ct_results := b\<rparr>)"
    using assms by (simp_all add: connector_at_def home_def)
qed

lemma connector_at_wish:
  assumes "connector_at ph w"
  shows "connector_at ph (upd_connector (\<lambda>c. c\<lparr>ct_connect := b\<rparr>) w)"
proof -
  have inv: "conn_inv w" by (rule connector_atD(1) [OF assms])
  have "conn_inv (upd_connector (\<lambda>c. c\<lparr>ct_connect := b\<rparr>) w)" by (rule apart_conn_inv [OF inv apart_fields(1) [OF inv]])
  moreover have "shape ph (upd_connector (\<lambda>c. c\<lparr>ct_connect := b\<rparr>) w) = shape ph w"
    by (cases ph) (simp_all add: no_conn_fd_def)
  ultimately show ?thesis using assms by (simp add: connector_at_def home_def)
qed

text \<open>The errnos with which the connector watches the descriptor, and those with which it retries.\<close>

definition watch_errnos :: "int set" where "watch_errnos = {0, EINPROGRESS, EINTR, EISCONN}"
definition retry_errnos :: "int set" where
  "retry_errnos = {EAGAIN, EADDRINUSE, EADDRNOTAVAIL, ECONNREFUSED, ENETUNREACH}"

lemma errnos_disjoint: "n \<in> watch_errnos \<Longrightarrow> n \<notin> retry_errnos"
  by (auto simp: watch_errnos_def retry_errnos_def EINPROGRESS_def EINTR_def EISCONN_def EAGAIN_def
      EADDRINUSE_def EADDRNOTAVAIL_def ECONNREFUSED_def ENETUNREACH_def)

lemma connect_branches:
  assumes at: "connector_at Idle w" and e: "e = next_connect w"
    and new: "0 \<le> ce_fd e \<Longrightarrow> new_descriptor (ce_fd e) (ce_chan e) w"
  shows "if ce_fd e < 0 then connect w = Inl (LogFatal ''connect socket create err'')
    else if ce_errno e \<in> watch_errnos then returns (connect w) (\<lambda>w'. connector_at Trying w' \<and> beside w w'
      \<and> ct_open w' = [ce_fd e] \<and> ct_connect (ct w') = ct_connect (ct w))
    else if ce_errno e \<in> retry_errnos \<and> ct_connect (ct w) then connect w = Inl NullPointer
    else returns (connect w) (\<lambda>w'. connector_at Idle w' \<and> beside w w' \<and> ct_connect (ct w') = ct_connect (ct w))"
proof (cases "ce_fd e < 0")
  case True
  then show ?thesis by (simp add: connect_def Let_def flip: e)
next
  case False
  define w1 where "w1 = w\<lparr>ct_connects := tl (ct_connects w)\<rparr>"
  define w2 where "w2 = w1\<lparr>ct_open := ce_fd e # ct_open w1\<rparr>"
  have at1: "connector_at Idle w1" unfolding w1_def by (rule connector_at_answers [OF at])
  have inv: "conn_inv w" by (rule connector_atD [OF at])
  obtain el where hm: "home 0 el w" and el: "n_loops w (ct_loop (ct w)) = Some el"
    using at by (rule connector_at_home) simp
  have old: "ct_channel (ct w) = None" "ct_open w = []" "ct_state (ct w) \<noteq> cConnecting"
    using connector_atD [OF at] by simp_all
  have same: "n_loops w2 = n_loops w" "n_chans w2 = n_chans w" "cn_conns w2 = cn_conns w"
    "cn_strings w2 = cn_strings w" "ct w2 = ct w" "n_tid w2 = n_tid w" "ct_open w2 = [ce_fd e]" "connector_net.more w2 = connector_net.more w"
    by (simp_all add: w2_def w1_def old)
  have a2: "apart w w2" by (rule apart_cong [OF conn_inv_net [OF inv] same(1-4)])
  have i2: "conn_inv w2" by (rule apart_conn_inv [OF inv a2])
  have new2: "new_descriptor (ce_fd e) (ce_chan e) w2"
    using new False same by (simp add: new_descriptor_def no_conn_fd_def)
  have hm2: "home 0 el w2" using hm same by (simp add: home_def)
  have body: "connect w = (if ce_errno e \<in> watch_errnos then connecting (ce_fd e) (ce_chan e) w2
      else if ce_errno e \<in> retry_errnos then retry (ce_fd e) w2 else Inr (close_fd (ce_fd e) w2))"
    unfolding connect_def Let_def e [symmetric] w1_def [symmetric] w2_def [symmetric]
      watch_errnos_def [symmetric] retry_errnos_def [symmetric] using False by simp
  have watch: "returns (connecting (ce_fd e) (ce_chan e) w2) (\<lambda>w'. connector_at Trying w' \<and> beside w w'
      \<and> ct_open w' = [ce_fd e] \<and> ct_connect (ct w') = ct_connect (ct w))"
  proof (rule returns_mono [OF connecting_ok [OF i2 _ _ new2]])
    fix w'
    assume a: "apart w2 w'
     \<and> ct w' = (ct w2)\<lparr>ct_state := cConnecting, ct_channel := Some (ce_chan e)\<rparr> \<and> ct_open w' = ct_open w2
     \<and> n_tid w' = n_tid w2 \<and> connector_net.more w' = connector_net.more w2
     \<and> (\<exists>el'. n_loops w' (ct_loop (ct w2)) = Some el' \<and> pendingFunctors el' = pendingFunctors el
          \<and> threadId el' = threadId el \<and> timerQueue el' = timerQueue el
          \<and> events_size (el_poller el') = events_size (el_poller el))
     \<and> (\<exists>ch. n_chans w' (ce_chan e) = Some ch \<and> attempt_chan (ct_loop (ct w2)) ch \<and> ch_index ch = KAdded
          \<and> ch_events ch = kWriteEvent \<and> ch_fd ch = ce_fd e)
     \<and> (\<forall>b. b \<noteq> ce_chan e \<and> ct_channel (ct w2) \<noteq> Some b \<longrightarrow> n_chans w' b = n_chans w2 b)"
    then obtain el' where hm': "home 0 el' w'" "pendingFunctors el' = pendingFunctors el" using hm2 by (auto simp: home_def)
    moreover have "no_conn_fd (ce_fd e) w'" using a new2 by (simp add: new_descriptor_def no_conn_fd_def apart_def)
    ultimately have "connector_at Trying w'"
      using a same hm' by (intro connector_atI [OF i2]) auto
    moreover have "same_queue w w'"
      by (rule same_queueI [OF el, of _ el']) (use hm' a same in \<open>auto simp: home_def\<close>)
    moreover have "only_own_chan w w'"
      using a same new2 old by (auto simp: only_own_chan_def new_descriptor_def)
    ultimately show "connector_at Trying w' \<and> beside w w' \<and> ct_open w' = [ce_fd e] \<and> ct_connect (ct w') = ct_connect (ct w)"
      using a same apart_trans [OF a2] by (simp add: beside_def)
  qed (use el old same in \<open>simp_all add: old_chan_gone_def\<close>)
  have idle: "connector_at Idle (set_state cDisconnected (close_fd (ce_fd e) w2))
      \<and> beside w (set_state cDisconnected (close_fd (ce_fd e) w2))"
    "connector_at Idle (close_fd (ce_fd e) w2) \<and> beside w (close_fd (ce_fd e) w2)"
    using hm2 same old apart_cong [OF conn_inv_net [OF inv]]
    by (auto intro!: connector_atI [OF inv, of _ _ el] beside_cong [OF inv])
  show ?thesis using False watch idle same retry_eq [OF hm2] by (auto simp: body errnos_disjoint)
qed

lemma startInLoop_idle: "ct_connect (ct w) \<Longrightarrow> startInLoop w = connect w" "\<not> ct_connect (ct w) \<Longrightarrow> startInLoop w = Inr w"
  by (simp_all add: startInLoop_def)

lemma reset_beside:
  assumes "apart w w'" "connector_net.more w' = connector_net.more w" "n_tid w' = n_tid w" "ct w' = ct w"
    and "n_loops w (ct_loop (ct w)) = Some el" "ct_channel (ct w) = Some d"
    and "\<exists>el'. n_loops w' (ct_loop (ct w)) = Some el' \<and> pendingFunctors el' = pendingFunctors el @ [FResetChannel]"
    and "\<forall>b. b \<noteq> d \<longrightarrow> n_chans w' b = n_chans w b"
  shows "beside w w'"
  using assms by (auto intro!: besideI simp: same_queue_def only_own_chan_def)

text \<open>A step that touches neither loops nor channels comes after or before another one.\<close>

lemma beside_then:
  assumes "beside w w1" "n_chans w2 = n_chans w1" "n_loops w2 = n_loops w1" "cn_conns w2 = cn_conns w1"
    "cn_strings w2 = cn_strings w1" "n_tid w2 = n_tid w1" "ct_loop (ct w2) = ct_loop (ct w1)"
    "ct_channel (ct w2) = ct_channel (ct w1)" "connector_net.more w2 = connector_net.more w"
  shows "beside w w2"
proof (rule besideI)
  have w1: "apart w w1" "net_inv w1" using assms(1) by (simp_all add: beside_def apart_def)
  show "apart w w2" by (rule apart_trans [OF w1(1) apart_cong [OF w1(2)]]) (use assms in simp_all)
qed (use assms in \<open>simp_all add: beside_def same_queue_def only_own_chan_def\<close>)

lemma beside_after:
  assumes "beside w1 w2" "n_chans w1 = n_chans w" "n_loops w1 = n_loops w" "cn_conns w1 = cn_conns w"
    "cn_strings w1 = cn_strings w" "n_tid w1 = n_tid w" "ct_loop (ct w1) = ct_loop (ct w)"
    "ct_channel (ct w1) = ct_channel (ct w)" "connector_net.more w1 = connector_net.more w"
  shows "beside w w2"
  using assms by (simp add: beside_def apart_def same_queue_def only_own_chan_def)

text \<open>The end of an attempt: its channel is out of the poller, its descriptor free there.\<close>

lemma attempt_over:
  assumes at: "connector_at Trying w"
  obtains fd w1 where "removeAndResetChannel w = Inr (fd, w1)" "ct_open w = [fd]" "ct_open w1 = [fd]"
    "apart w w1" "ct w1 = ct w" "same_answers w w1" "no_conn_fd fd w1"
    "connector_net.more w1 = connector_net.more w" "same_places w w1"
    "\<exists>el. home 1 el w1 \<and> channels_map (el_poller el) fd = None"
    "\<exists>d ch. ct_channel (ct w1) = Some d \<and> n_chans w1 d = Some ch \<and> attempt_chan (ct_loop (ct w1)) ch \<and> ch_index ch = KNew"
    "beside w w1"
proof -
  have inv: "conn_inv w" by (rule connector_atD [OF at])
  obtain el where hm: "home 0 el w" and el: "n_loops w (ct_loop (ct w)) = Some el" using at by (rule connector_at_home) simp
  obtain d ch where d: "ct_channel (ct w) = Some d" "n_chans w d = Some ch" "attempt_chan (ct_loop (ct w)) ch"
    "ch_index ch = KAdded" "no_conn_fd (ch_fd ch) w" "ct_open w = [ch_fd ch]"
    using connector_atD(2) [OF at] by auto
  from removeAndResetChannel_ok [OF inv hm d(1-5)]
  obtain w1 where w1: "removeAndResetChannel w = Inr (ch_fd ch, w1)" "apart w w1" "ct w1 = ct w"
    "ct_open w1 = ct_open w" "same_answers w w1" "connector_net.more w1 = connector_net.more w"
    "same_places w w1"
    "\<exists>el'. home 1 el' w1 \<and> channels_map (el_poller el') (ch_fd ch) = None \<and> pendingFunctors el' = pendingFunctors el @ [FResetChannel]"
    "n_tid w1 = n_tid w" "\<forall>b. b \<noteq> d \<longrightarrow> n_chans w1 b = n_chans w b"
    "\<exists>ch'. n_chans w1 d = Some ch' \<and> attempt_chan (ct_loop (ct w)) ch' \<and> ch_index ch' = KNew"
    by (auto simp: returns_iff)
  have "beside w w1"
    by (rule reset_beside [OF w1(2,6,9,3) el d(1)]) (use w1 in \<open>auto simp: home_def\<close>)
  then show ?thesis
    by (intro that [OF w1(1) d(6) _ w1(2,3,5)]) (use w1 d in \<open>auto simp: no_conn_fd_def apart_def\<close>)
qed

text \<open>After it the descriptor is closed, or on its way to the owner.\<close>

lemma cleaning_state:
  assumes at: "connector_at Trying w" and b: "beside w w1" and ct: "ct w1 = ct w"
    and hm: "\<exists>el. home 1 el w1 \<and> channels_map (el_poller el) fd = None"
    and d: "\<exists>d ch. ct_channel (ct w1) = Some d \<and> n_chans w1 d = Some ch
      \<and> attempt_chan (ct_loop (ct w1)) ch \<and> ch_index ch = KNew"
    and s: "s \<noteq> cConnecting" and w2: "ct_open w2 = []" "n_chans w2 = n_chans w1" "n_loops w2 = n_loops w1"
    "cn_conns w2 = cn_conns w1" "cn_strings w2 = cn_strings w1" "n_tid w2 = n_tid w1"
    "ct w2 = (ct w1)\<lparr>ct_state := s\<rparr>"
    "connector_net.more w2 = connector_net.more w"
  shows "connector_at Cleaning w2 \<and> beside w w2"
proof -
  have inv: "conn_inv w" by (rule connector_atD [OF at])
  have b2: "beside w w2" by (rule beside_then [OF b]) (use w2 in simp_all)
  then have a2: "apart w w2" by (simp add: beside_def)
  obtain el where "home 1 el w2" using hm w2 by (auto simp: home_def)
  then show ?thesis using d s w2 b2 by (auto intro!: connector_atI [OF inv a2, of _ el])
qed

lemma stopInLoop_branches:
  assumes at: "connector_at ph w" and c: "\<not> ct_connect (ct w)"
  shows "returns (stopInLoop w) (\<lambda>w'. connector_at (if ph = Trying then Cleaning else ph) w' \<and> beside w w'
     \<and> \<not> ct_connect (ct w') \<and> ct_channel (ct w') = ct_channel (ct w))"
proof (cases "ph = Trying")
  case False
  then have "ct_state (ct w) \<noteq> cConnecting" using connector_atD(3) [OF at] by simp
  then show ?thesis using at False c beside_cong [OF connector_atD(1) [OF at]]
    by (simp add: stopInLoop_def)
next
  case True
  let ?w0 = "set_state cDisconnected w"
  have st: "ct_state (ct w) = cConnecting" using connector_atD(3) [OF at] True by simp
  have inv: "conn_inv w" by (rule connector_atD [OF at])
  have a0: "apart w ?w0" by (rule apart_fields [OF inv])
  have i0: "conn_inv ?w0" by (rule apart_conn_inv [OF inv a0])
  obtain el where hm: "home 0 el ?w0" and el: "n_loops w (ct_loop (ct w)) = Some el" using at True by (auto elim: connector_at_home)
  obtain d ch where d: "ct_channel (ct ?w0) = Some d" "n_chans ?w0 d = Some ch" "attempt_chan (ct_loop (ct ?w0)) ch"
    "ch_index ch = KAdded" "no_conn_fd (ch_fd ch) ?w0" "ct_open w = [ch_fd ch]"
    using connector_atD(2) [OF at] True by (auto simp: no_conn_fd_def)
  from removeAndResetChannel_ok [OF i0 hm d(1-5)]
  obtain w1 where w1: "removeAndResetChannel ?w0 = Inr (ch_fd ch, w1)" "apart ?w0 w1" "ct w1 = ct ?w0"
    "ct_open w1 = ct_open w" "connector_net.more w1 = connector_net.more w"
    "\<exists>el'. home 1 el' w1 \<and> channels_map (el_poller el') (ch_fd ch) = None \<and> pendingFunctors el' = pendingFunctors el @ [FResetChannel]"
    "\<exists>ch'. n_chans w1 d = Some ch' \<and> attempt_chan (ct_loop (ct ?w0)) ch' \<and> ch_index ch' = KNew"
    "n_tid w1 = n_tid w" "\<forall>b. b \<noteq> d \<longrightarrow> n_chans w1 b = n_chans w b"
    by (auto simp: returns_iff)
  obtain el1 where hm1: "home 1 el1 w1" using w1(6) by blast
  let ?w2 = "set_state cDisconnected (close_fd (ch_fd ch) w1)"
  have b0: "beside ?w0 w1"
    by (rule reset_beside [OF w1(2) _ _ w1(3) _ d(1)]) (use w1 el hm in \<open>auto simp: home_def\<close>)
  have "beside w w1" by (rule beside_after [OF b0]) simp_all
  then have b2: "beside w ?w2" by (rule beside_then) (use w1 in simp_all)
  then have a2: "apart w ?w2" by (simp add: beside_def)
  have "stopInLoop w = Inr ?w2"
    using st w1 retry_eq [OF hm1] c by (simp add: stopInLoop_def)
  moreover have "connector_at Cleaning ?w2"
    using hm1 w1 d by (intro connector_atI [OF inv a2, of _ el1]) auto
  ultimately show ?thesis using True b2 w1 c by simp
qed

lemma handleWrite_branches:
  assumes at: "connector_at ph w" and e: "e = next_result w"
  shows "if ph \<noteq> Trying then connector_handleWrite handover w = Inr w
    else if re_error e \<noteq> 0 \<or> isSelfConnect (re_local e) (re_peer e)
    then (if ct_connect (ct w) then connector_handleWrite handover w = Inl NullPointer
          else returns (connector_handleWrite handover w) (\<lambda>w'. connector_at Cleaning w' \<and> beside w w'))
    else if \<not> ct_connect (ct w) then returns (connector_handleWrite handover w) (\<lambda>w'. connector_at Cleaning w' \<and> beside w w')
    else if \<not> ct_newConnectionCallback (ct w) then connector_handleWrite handover w = Inl BadFunctionCall
    else \<exists>fd w1. ct_open w = [fd] \<and> connector_handleWrite handover w = handover fd e w1 \<and> connector_at Cleaning w1
      \<and> beside w w1 \<and> same_places w w1 \<and> ct w1 = (ct w)\<lparr>ct_state := cConnected\<rparr> \<and> fd_free fd (ct_loop (ct w)) w1"
proof (cases "ph = Trying")
  case False
  then show ?thesis using connector_atD(3) [OF at] by (simp add: connector_handleWrite_def)
next
  case True
  then have at: "connector_at Trying w" and st: "ct_state (ct w) = cConnecting"
    using at connector_atD(3) [OF at] by simp_all
  obtain fd w1 where w1: "removeAndResetChannel w = Inr (fd, w1)" "ct_open w = [fd]" "ct_open w1 = [fd]"
    "apart w w1" "ct w1 = ct w" "same_answers w w1" "no_conn_fd fd w1"
    "connector_net.more w1 = connector_net.more w" "same_places w w1"
    "\<exists>el. home 1 el w1 \<and> channels_map (el_poller el) fd = None"
    "\<exists>d ch. ct_channel (ct w1) = Some d \<and> n_chans w1 d = Some ch \<and> attempt_chan (ct_loop (ct w1)) ch \<and> ch_index ch = KNew"
    "beside w w1"
    using at by (rule attempt_over)
  have e1: "next_result w1 = e" using w1(6) by (simp add: e same_answers_def next_result_def)
  define w2 where "w2 = w1\<lparr>ct_results := tl (ct_results w1)\<rparr>"
  have w2: "n_loops w2 = n_loops w1" "n_chans w2 = n_chans w1" "cn_conns w2 = cn_conns w1"
    "cn_strings w2 = cn_strings w1" "ct w2 = ct w" "n_tid w2 = n_tid w1" "ct_open w2 = [fd]"
    "connector_net.more w2 = connector_net.more w"
    using w1 by (simp_all add: w2_def)
  obtain el where hm2: "home 1 el w2" using w1(10) w2 w1(5) by (auto simp: home_def)
  have closed: "connector_at Cleaning (set_state s (close_fd fd w2)) \<and> beside w (set_state s (close_fd fd w2))"
    "connector_at Cleaning (close_fd fd (set_state s w2)) \<and> beside w (close_fd fd (set_state s w2))"
    if "s \<noteq> cConnecting" for s
    by (rule cleaning_state [OF at w1(12,5,10,11) that]; use w2 w1(5) in simp)+
  have body: "connector_handleWrite handover w =
     (if re_error e \<noteq> 0 \<or> isSelfConnect (re_local e) (re_peer e) then retry fd w2
      else if ct_connect (ct w)
      then if ct_newConnectionCallback (ct w) then handover fd e (close_fd fd (set_state cConnected w2)) else Inl BadFunctionCall
      else Inr (close_fd fd (set_state cConnected w2)))"
    using st w1(1,5) e1 by (simp add: connector_handleWrite_def Let_def w2_def)
  have free: "fd_free fd (ct_loop (ct w)) (close_fd fd (set_state cConnected w2))"
    using w1(5,7,10) w2 by (auto simp: fd_free_def no_conn_fd_def home_def)
  have places: "same_places w (close_fd fd (set_state cConnected w2))"
    using w1(9) w2(2) by (simp add: same_places_def)
  show ?thesis
    using True w1(2) w2(5) places closed [of cDisconnected] closed [of cConnected] free retry_eq [OF hm2, of fd]
    by (auto simp: body intro!: exI [of _ "close_fd fd (set_state cConnected w2)"])
qed

lemma handleError_branches:
  assumes "connector_at ph w"
  shows "connector_handleError w = (if ph = Trying then Inl (LogFatal ''SO_ERROR'') else Inr w)"
proof (cases "ph = Trying")
  case True
  with assms obtain fd w1 where "removeAndResetChannel w = Inr (fd, w1)" using attempt_over by metis
  then show ?thesis using True connector_atD(3) [OF assms] by (simp add: connector_handleError_def)
next
  case False
  then show ?thesis using connector_atD(3) [OF assms] by (simp add: connector_handleError_def)
qed

text \<open>The loop takes a queued \<open>resetChannel\<close> out of its vector and calls it.\<close>

definition run_reset :: "'a connector_net_scheme \<Rightarrow> 'a connector_net_scheme res" where
  "run_reset w = bind_res (get_loop (ct_loop (ct w)) w) (\<lambda>el.
     resetChannel (put_loop (ct_loop (ct w)) (el\<lparr>pendingFunctors := remove1 FResetChannel (pendingFunctors el)\<rparr>) w))"

lemma count_remove1: "count_list (remove1 x xs) x = count_list xs x - 1"
  by (induction xs) (auto simp: count_list_0_iff)

lemma resetChannel_ok:
  assumes at: "connector_at Resetting w"
  shows "returns (resetChannel w) (\<lambda>w'. connector_at Idle w' \<and> beside w w')"
proof -
  have inv: "conn_inv w" and st: "ct_state (ct w) \<noteq> cConnecting" using connector_atD [OF at] by simp_all
  obtain el where hm: "home 0 el w" and el: "n_loops w (ct_loop (ct w)) = Some el"
    using at by (rule connector_at_home) simp
  obtain d ch where d: "ct_channel (ct w) = Some d" "n_chans w d = Some ch" "attempt_chan (ct_loop (ct w)) ch"
    "ch_index ch = KNew" "ct_open w = []"
    using connector_atD(2) [OF at] by auto
  let ?w2 = "upd_connector (\<lambda>c. c\<lparr>ct_channel := None\<rparr>) (destroy_chan (Some d) w)"
  have nc: "no_conn_chan d w" by (rule no_conn_chan_other [OF inv d(2)]) (use d(3) in \<open>simp add: attempt_chan_def\<close>)
  have a2: "apart w (destroy_chan (Some d) w)" unfolding destroy_chan_def option.case
    by (rule apart_drop_chan [OF conn_inv_net [OF inv] d(2,4) nc])
  have a3: "apart w ?w2" by (rule apart_trans [OF a2 apart_fields(1) [OF apart_conn_inv [OF inv a2]]])
  have "resetChannel w = Inr ?w2" using d by (simp add: resetChannel_def)
  moreover have "connector_at Idle ?w2"
    by (rule connector_atI [OF inv a3, of _ el]) (use hm st d in \<open>simp_all add: home_def\<close>)
  moreover have "beside w ?w2"
    by (rule besideI [OF a3]) (use el d(1) in \<open>simp_all add: same_queue_def only_own_chan_def destroy_chan_def\<close>)
  ultimately show ?thesis by simp
qed

lemma run_reset_ok:
  assumes at: "connector_at Cleaning w"
  shows "returns (run_reset w) (\<lambda>w'. connector_at Idle w' \<and> beside w w')"
proof -
  have inv: "conn_inv w" by (rule connector_atD [OF at])
  obtain el where hm: "home 1 el w" and el: "n_loops w (ct_loop (ct w)) = Some el"
    using at by (rule connector_at_home) simp
  let ?el = "el\<lparr>pendingFunctors := remove1 FResetChannel (pendingFunctors el)\<rparr>"
  let ?w1 = "put_loop (ct_loop (ct w)) ?el w"
  have a1: "apart w ?w1" by (rule apart_put_loop [OF conn_inv_net [OF inv] el]) simp
  have "shape Resetting ?w1" "ct_state (ct ?w1) \<noteq> cConnecting" using connector_atD(2,3) [OF at] by simp_all
  then have "connector_at Resetting ?w1"
    by (intro connector_atI [OF inv a1, of _ ?el]) (use hm in \<open>simp_all add: home_def count_remove1\<close>)
  from resetChannel_ok [OF this] obtain w2 where w2: "resetChannel ?w1 = Inr w2" "connector_at Idle w2" "beside ?w1 w2"
    by (auto simp: returns_iff)
  have "filter (\<lambda>f. f \<noteq> FResetChannel) (remove1 FResetChannel fs) = filter (\<lambda>f. f \<noteq> FResetChannel) fs" for fs
    by (induction fs) auto
  moreover have "same_queue ?w1 w2" "apart ?w1 w2" using w2(3) by (simp_all add: beside_def)
  ultimately have "same_queue w w2" "apart w w2" using el apart_trans [OF a1] by (simp_all add: same_queue_def)
  then have "beside w w2" using w2(3) by (simp add: beside_def only_own_chan_def)
  then show ?thesis using w2 el by (simp add: run_reset_def)
qed

end
