(* ===== verification/Connector_Properties.thy ===== *)
theory Connector_Properties
  imports Connector_Steps
begin

text \<open>
  The connector over any sequence of its operations: the contract with the owner that takes the
  finished descriptors (\<open>descriptor_owner\<close>), what an attempt comes to on each branch, and two
  orders of operations that the code does not survive.
\<close>

section \<open>Sequences of operations\<close>

text \<open>
  The calls and events of a connector, all in the thread of its loop: \<open>start\<close>, \<open>stop\<close>, the two
  handlers of the watched descriptor, and the queued \<open>resetChannel\<close>.
\<close>

datatype connector_op = Start | Stop | Writable | Failed | Reset

fun run_connector_op :: "(int \<Rightarrow> result_env \<Rightarrow> 'a connector_net_scheme \<Rightarrow> 'a connector_net_scheme res) \<Rightarrow>
    connector_op \<Rightarrow> 'a connector_net_scheme \<Rightarrow> 'a connector_net_scheme res" where
  "run_connector_op handover Start w = connector_start w"
| "run_connector_op handover Stop w = connector_stop w"
| "run_connector_op handover Writable w = connector_handleWrite handover w"
| "run_connector_op handover Failed w = connector_handleError w"
| "run_connector_op handover Reset w = run_reset w"

text \<open>
  When an operation may come, as far as the caller and the system decide: \<open>start\<close> when no channel
  is left over, with a descriptor nothing uses; \<open>resetChannel\<close> when it is queued; a finished
  attempt with free places for the objects of its connection.
\<close>

definition places_free :: "result_env \<Rightarrow> 'a connector_net_scheme \<Rightarrow> bool" where
  "places_free e w \<longleftrightarrow> n_chans w (re_chan e) = None \<and> cn_conns w (re_conn e) = None \<and> \<not> sk_fin (re_sock e)"

fun op_ready :: "connector_op \<Rightarrow> 'a connector_net_scheme \<Rightarrow> bool" where
  "op_ready Start w \<longleftrightarrow> ct_channel (ct w) = None
     \<and> (0 \<le> ce_fd (next_connect w) \<longrightarrow> new_descriptor (ce_fd (next_connect w)) (ce_chan (next_connect w)) w)"
| "op_ready Reset w \<longleftrightarrow> (\<exists>el. n_loops w (ct_loop (ct w)) = Some el \<and> FResetChannel \<in> set (pendingFunctors el))"
| "op_ready Writable w \<longleftrightarrow> places_free (next_result w) w"
| "op_ready _ w \<longleftrightarrow> True"

text \<open>The phases that an operation can lead to.\<close>

fun next_attempts :: "attempt \<Rightarrow> connector_op \<Rightarrow> attempt set" where
  "next_attempts Idle Start = {Idle, Trying}"
| "next_attempts Trying Stop = {Cleaning}"
| "next_attempts Trying Writable = {Cleaning}"
| "next_attempts Trying Failed = {}"
| "next_attempts Cleaning Reset = {Idle}"
| "next_attempts ph _ = {ph}"

text \<open>
  Where the code gives up: no socket, an error event, a retry (the loop has no timer queue), or a
  callback that was never set.
\<close>

definition connector_faults :: "fault set" where
  "connector_faults = {LogFatal ''connect socket create err'', LogFatal ''SO_ERROR'', NullPointer, BadFunctionCall}"

section \<open>The interface to the owner of the descriptors\<close>

locale descriptor_owner =
  fixes I :: "'a connector_net_scheme \<Rightarrow> bool"
    and handover :: "int \<Rightarrow> result_env \<Rightarrow> 'a connector_net_scheme \<Rightarrow> 'a connector_net_scheme res"
    and E :: "fault set"
  assumes I_beside: "I w \<Longrightarrow> beside w w' \<Longrightarrow> I w'"
    and handover_ok: "I w \<Longrightarrow> connector_at Cleaning w \<Longrightarrow> fd_free fd (ct_loop (ct w)) w \<Longrightarrow> places_free e w \<Longrightarrow>
        ends E (handover fd e w) (\<lambda>w'. I w' \<and> connector_at Cleaning w')"
begin

definition leads_to :: "attempt set \<Rightarrow> 'a connector_net_scheme \<Rightarrow> bool" where
  "leads_to A w \<longleftrightarrow> I w \<and> (\<exists>ph \<in> A. connector_at ph w)"

lemma beside_ends:
  assumes "returns r Q" "I w" "\<And>w'. Q w' \<Longrightarrow> connector_at ph w' \<and> beside w w'" "ph \<in> A"
  shows "ends F r (leads_to A)"
  by (rule ends_mono [OF ends_returns [OF assms(1)]]) (use assms(2-4) I_beside leads_to_def in blast)

lemma stays_put: "I w \<Longrightarrow> connector_at ph w \<Longrightarrow> ph \<in> A \<Longrightarrow> ends F (Inr w) (leads_to A)"
  by (auto simp: leads_to_def)

lemma start_step:
  assumes I: "I w" and at: "connector_at ph w" and op: "op_ready Start w"
  shows "ends (E \<union> connector_faults) (connector_start w)
     (leads_to (next_attempts ph Start))"
proof -
  let ?w = "upd_connector (\<lambda>c. c\<lparr>ct_connect := True\<rparr>) w"
  let ?e = "next_connect ?w"
  have ph: "ph = Idle" using connector_atD(2) [OF at] op by (cases ph) auto
  have at0: "connector_at Idle ?w" using connector_at_wish [OF at] ph by simp
  have b: "beside w ?w" by (rule beside_cong [OF connector_atD(1) [OF at]]) simp_all
  have I0: "I ?w" by (rule I_beside [OF I b])
  have e: "?e = next_connect w" by (simp add: next_connect_def)
  have new: "0 \<le> ce_fd ?e \<Longrightarrow> new_descriptor (ce_fd ?e) (ce_chan ?e) ?w"
    using op by (simp add: e new_descriptor_def no_conn_fd_def)
  have r: "connector_start w = connect ?w"
    using connector_at_here [OF at0] by (simp add: connector_start_def runInLoop_def startInLoop_idle)
  have "ends (E \<union> connector_faults) (connect ?w) (leads_to {Idle, Trying})"
    using connect_branches [OF at0 refl new]
    by (auto split: if_splits simp: connector_faults_def elim!: beside_ends [OF _ I0])
  then show ?thesis using ph r by simp
qed

lemma stop_step:
  assumes I: "I w" and at: "connector_at ph w"
  shows "ends (E \<union> connector_faults) (connector_stop w)
     (leads_to (next_attempts ph Stop))"
proof -
  let ?w = "upd_connector (\<lambda>c. c\<lparr>ct_connect := False\<rparr>) w"
  have at0: "connector_at ph ?w" by (rule connector_at_wish [OF at])
  have I0: "I ?w"
    by (rule I_beside [OF I beside_cong [OF connector_atD(1) [OF at]]]) simp_all
  have r: "connector_stop w = stopInLoop ?w"
    using connector_at_here [OF at0] by (simp add: connector_stop_def runInLoop_def)
  show ?thesis unfolding r
    by (rule beside_ends [OF stopInLoop_branches [OF at0] I0, of "if ph = Trying then Cleaning else ph"])
      (simp, simp, cases ph, simp_all)
qed

lemma write_step:
  assumes I: "I w" and at: "connector_at ph w" and op: "op_ready Writable w"
  shows "ends (E \<union> connector_faults) (connector_handleWrite handover w)
     (leads_to (next_attempts ph Writable))"
proof (cases "ph = Trying")
  case False
  then show ?thesis using handleWrite_branches [OF at refl, of handover] stays_put [OF I at] by (cases ph) auto
next
  case True
  have hand: "ends (E \<union> connector_faults) (handover fd (next_result w) w1) (leads_to {Cleaning})"
    if h: "connector_at Cleaning w1" "beside w w1" "same_places w w1" "ct w1 = (ct w)\<lparr>ct_state := cConnected\<rparr>"
      "fd_free fd (ct_loop (ct w)) w1" for fd w1
  proof -
    have "places_free (next_result w) w1"
      using op h(2,3) by (auto simp: places_free_def same_places_def beside_def apart_def)
    then have "ends E (handover fd (next_result w) w1) (\<lambda>w'. I w' \<and> connector_at Cleaning w')"
      using handover_ok [OF I_beside [OF I h(2)] h(1)] h(4,5) by simp
    then show ?thesis by (cases "handover fd (next_result w) w1") (auto simp: leads_to_def)
  qed
  have closed: "ends (E \<union> connector_faults) r (leads_to {Cleaning})"
    if "returns r (\<lambda>w'. connector_at Cleaning w' \<and> beside w w')" for r
    by (rule beside_ends [OF that I]) auto
  have faults: "NullPointer \<in> connector_faults" "BadFunctionCall \<in> connector_faults"
    by (simp_all add: connector_faults_def)
  have "ends (E \<union> connector_faults) (connector_handleWrite handover w) (leads_to {Cleaning})"
    using handleWrite_branches [OF at refl, of handover] True faults closed
    by (auto split: if_splits dest!: hand)
  then show ?thesis using True by simp
qed

text \<open>
  Every operation keeps the connector in one of its phases and goes on only to the next one, and
  ends the process at most in one of the known places.
\<close>

lemma connector_step:
  assumes I: "I w" and at: "connector_at ph w" and op: "op_ready c w"
  shows "ends (E \<union> connector_faults) (run_connector_op handover c w)
     (leads_to (next_attempts ph c))"
proof (cases c)
  case Start
  then show ?thesis using start_step [OF I at] op by simp
next
  case Stop
  then show ?thesis using stop_step [OF I at] by simp
next
  case Writable
  then show ?thesis using write_step [OF I at] op by simp
next
  case Failed
  then show ?thesis using handleError_branches [OF at] stays_put [OF I at]
    by (cases ph) (auto simp: connector_faults_def)
next
  case Reset
  obtain el where "home (resets ph) el w" using at by (rule connector_at_home)
  then have "resets ph \<noteq> 0" using op Reset count_list_0_iff [of "pendingFunctors el" FResetChannel]
    by (auto simp: home_def)
  then have ph: "ph = Cleaning" by (cases ph) simp_all
  show ?thesis using Reset ph run_reset_ok [of w] at by (auto elim!: beside_ends [OF _ I])
qed

end

section \<open>An attempt to connect\<close>

text \<open>
  C26. \<open>connect()\<close> on each branch, with no attempt going on: without a socket the process ends; with a
  result that means a connection in progress, the connector watches the descriptor for writing; with
  one that means to retry, the process ends in a null pointer when a connection is still wanted
  (the loop has no timer queue), and otherwise the descriptor is closed; with any other result the
  descriptor is closed and nothing is tried again. The connector never has another descriptor open.
\<close>

theorem connect_outcome:
  assumes "connector_at Idle w" "e = next_connect w"
    and "0 \<le> ce_fd e \<Longrightarrow> new_descriptor (ce_fd e) (ce_chan e) w"
  shows "if ce_fd e < 0 then connect w = Inl (LogFatal ''connect socket create err'')
    else if ce_errno e \<in> watch_errnos
    then returns (connect w) (\<lambda>w'. ct_state (ct w') = cConnecting \<and> ct_open w' = [ce_fd e]
      \<and> (\<exists>d ch. ct_channel (ct w') = Some d \<and> n_chans w' d = Some ch \<and> ch_fd ch = ce_fd e \<and> ch_events ch = kWriteEvent)
      \<and> connector_at Trying w')
    else if ce_errno e \<in> retry_errnos \<and> ct_connect (ct w) then connect w = Inl NullPointer
    else returns (connect w) (\<lambda>w'. ct_channel (ct w') = None \<and> ct_open w' = [] \<and> connector_at Idle w')"
proof -
  have t: "ct_state (ct w') = cConnecting \<and> ct_open w' = [fd] \<and> (\<exists>d ch. ct_channel (ct w') = Some d
      \<and> n_chans w' d = Some ch \<and> ch_fd ch = fd \<and> ch_events ch = kWriteEvent) \<and> connector_at Trying w'"
    if "connector_at Trying w'" "ct_open w' = [fd]" for fd w'
    using connector_atD(2,3) [OF that(1)] that by auto
  have i: "ct_channel (ct w') = None \<and> ct_open w' = [] \<and> connector_at Idle w'"
    if "connector_at Idle w'" for w'
    using connector_atD(2) [OF that] that by simp
  show ?thesis
    using connect_branches [OF assms] by (auto split: if_splits elim!: returns_mono dest: t i)
qed

definition sample_attempts :: "connect_env list \<Rightarrow> connector_net" where
  "sample_attempts es = \<lparr>n_tid = 1, n_chans = Map.empty,
     n_loops = [1 \<mapsto> mk_loop 1 (mk_poller (\<lambda>_ _. False)) 3 4], n_loopInThisThread = [1 \<mapsto> 1],
     cn_conns = Map.empty, cn_strings = Map.empty, cn_trace = [],
     ct = (mk_connector 1 sample_addr)\<lparr>ct_connect := True\<rparr>, ct_connects = es, ct_results = [], ct_times = [],
     ct_open = []\<rparr>"

lemma sample_attempts_idle: "connector_at Idle (sample_attempts es)"
proof -
  have "conn_inv (sample_attempts es) = conn_inv sample_start"
    by (simp add: conn_inv_def net_inv_def linked_def sample_attempts_def sample_start_def)
  then have "conn_inv (sample_attempts es)" using sample_start_inv by simp
  then show ?thesis
    by (simp add: connector_at_def home_def sample_attempts_def mk_loop_def mk_connector_def)
qed

lemma sample_attempts_new: "new_descriptor fd d (sample_attempts es)"
  by (simp add: new_descriptor_def no_conn_fd_def sample_attempts_def mk_loop_def mk_connector_def mk_poller_def)

text \<open>A connection in progress, and one that is refused.\<close>

theorem connect_outcome_witness:
  "returns (connect (sample_attempts [\<lparr>ce_fd = 5, ce_errno = EINPROGRESS, ce_chan = 6\<rparr>]))
     (\<lambda>w'. ct_state (ct w') = cConnecting \<and> ct_open w' = [5])
   \<and> connect (sample_attempts [\<lparr>ce_fd = 5, ce_errno = ECONNREFUSED, ce_chan = 6\<rparr>]) = Inl NullPointer"
proof
  let ?e = "\<lparr>ce_fd = 5, ce_errno = EINPROGRESS, ce_chan = 6\<rparr>"
  have e: "?e = next_connect (sample_attempts [?e])" by (simp add: next_connect_def sample_attempts_def)
  show "returns (connect (sample_attempts [?e])) (\<lambda>w'. ct_state (ct w') = cConnecting \<and> ct_open w' = [5])"
    using connect_outcome [OF sample_attempts_idle e sample_attempts_new]
    by (auto simp: watch_errnos_def elim!: returns_mono)
  let ?f = "\<lparr>ce_fd = 5, ce_errno = ECONNREFUSED, ce_chan = 6\<rparr>"
  have f: "?f = next_connect (sample_attempts [?f])" by (simp add: next_connect_def sample_attempts_def)
  have "ct_connect (ct (sample_attempts [?f]))" by (simp add: sample_attempts_def)
  then show "connect (sample_attempts [?f]) = Inl NullPointer"
    using connect_outcome [OF sample_attempts_idle f sample_attempts_new]
    by (simp add: watch_errnos_def retry_errnos_def ECONNREFUSED_def EINPROGRESS_def EINTR_def EISCONN_def)
qed

section \<open>Stop and start again\<close>

text \<open>
  C37. \<open>stop()\<close> and then \<open>start()\<close> before the queued \<open>resetChannel\<close> has run: the new attempt takes the
  place of the old channel, the queued call then destroys the channel of the new one, which the
  kernel still watches, and the next event on its descriptor makes the poll write to freed memory.
\<close>

theorem reset_destroys_new_attempt:
  assumes at: "connector_at Cleaning w" and e: "e = next_connect w" "0 \<le> ce_fd e" "ce_errno e \<in> watch_errnos"
    and new: "new_descriptor (ce_fd e) (ce_chan e) w"
    and size: "\<And>el. n_loops w (ct_loop (ct w)) = Some el \<Longrightarrow> 0 < events_size (el_poller el)"
  shows "returns (bind_res (connector_start w) run_reset) (\<lambda>w'. n_chans w' (ce_chan e) = None
     \<and> (\<exists>el. n_loops w' (ct_loop (ct w)) = Some el
        \<and> poll (Ready [(ce_fd e, EPOLLOUT)]) (el_poller el) (n_chans w') = Inl UseAfterFree))"
proof -
  let ?l = "ct_loop (ct w)" and ?w0 = "upd_connector (\<lambda>c. c\<lparr>ct_connect := True\<rparr>) w"
  define w2 where "w2 = ?w0\<lparr>ct_connects := tl (ct_connects w), ct_open := ce_fd e # ct_open w\<rparr>"
  have at0: "connector_at Cleaning ?w0" by (rule connector_at_wish [OF at])
  have inv: "conn_inv ?w0" by (rule connector_atD [OF at0])
  obtain el where hm: "home 1 el w" and el: "n_loops w ?l = Some el"
    using at by (rule connector_at_home) simp
  have same: "n_loops w2 = n_loops ?w0" "n_chans w2 = n_chans ?w0" "cn_conns w2 = cn_conns ?w0"
    "cn_strings w2 = cn_strings ?w0" "ct w2 = ct ?w0" "n_tid w2 = n_tid w"
    by (simp_all add: w2_def)
  have i2: "conn_inv w2" by (rule apart_conn_inv [OF inv apart_cong [OF conn_inv_net [OF inv] same(1-4)]])
  have gone: "old_chan_gone w2" using connector_atD(2) [OF at0] same by (auto simp: old_chan_gone_def)
  have new2: "new_descriptor (ce_fd e) (ce_chan e) w2" using new same by (simp add: new_descriptor_def no_conn_fd_def)
  obtain w' el' ch where c: "connecting (ce_fd e) (ce_chan e) w2 = Inr w'" "apart w2 w'"
    "ct w' = (ct w2)\<lparr>ct_state := cConnecting, ct_channel := Some (ce_chan e)\<rparr>"
    "n_loops w' ?l = Some el'" "events_size (el_poller el') = events_size (el_poller el)"
    "n_chans w' (ce_chan e) = Some ch" "attempt_chan ?l ch" "ch_index ch = KAdded" "ch_events ch = kWriteEvent"
    "ch_fd ch = ce_fd e"
    using connecting_ok [OF i2 _ gone new2, of el] el same by (auto simp: returns_iff)
  have r: "connector_start w = Inr w'"
    using connector_at_here [OF at0] e c(1)
    by (simp add: connector_start_def runInLoop_def startInLoop_idle connect_def next_connect_def Let_def w2_def
        watch_errnos_def)
  let ?el = "el'\<lparr>pendingFunctors := remove1 FResetChannel (pendingFunctors el')\<rparr>"
  obtain w'' where w'': "run_reset w' = Inr w''" "n_chans w'' = (n_chans w')(ce_chan e := None)"
    "n_loops w'' ?l = Some ?el"
    using c(3,4) same(5) by (simp add: run_reset_def resetChannel_def destroy_chan_def)
  have "net_inv w'" using c(2) by (simp add: apart_def)
  then have "poller_inv ?l (el_poller el') (n_chans w')" using c(4) by (rule net_invD)
  from poller_inv_armed [OF this c(6) _ c(8)] have "interest (kernel (el_poller el')) (ce_fd e) = Some (kWriteEvent, ce_chan e)"
    using c(7,9,10) by (simp add: attempt_chan_def)
  then have "report (kernel (el_poller el')) (ce_fd e, EPOLLOUT) = Some (EPOLLOUT, ce_chan e)"
    by (simp add: report_def event_defs)
  then have "poll (Ready [(ce_fd e, EPOLLOUT)]) (el_poller ?el) (n_chans w'') = Inl UseAfterFree"
    using size [OF el] c(5) w''(2)
    by (cases "events_size (el_poller el')") (simp_all add: poll_def epoll_wait_def List.map_filter_def)
  then show ?thesis using r w'' by simp
qed

text \<open>An attempt was stopped and its \<open>resetChannel\<close> is queued.\<close>

definition sample_cleaning :: connector_net where
  "sample_cleaning = (sample_attempts [\<lparr>ce_fd = 5, ce_errno = EINPROGRESS, ce_chan = 8\<rparr>])\<lparr>
     n_chans := [6 \<mapsto> (mk_channel 1 5)\<lparr>writeCallback := Some ConnectorHandleWrite, errorCallback := Some ConnectorHandleError\<rparr>],
     n_loops := [1 \<mapsto> push_functor FResetChannel (mk_loop 1 (mk_poller (\<lambda>_ _. False)) 3 4)],
     ct := (mk_connector 1 sample_addr)\<lparr>ct_channel := Some 6\<rparr>\<rparr>"

lemma sample_cleaning_at: "connector_at Cleaning sample_cleaning"
proof -
  have "poller_inv 1 (mk_poller (\<lambda>_ _. False)) (n_chans sample_cleaning)"
    by (rule poller_inv_mk_poller) (auto simp: sample_cleaning_def mk_channel_def KNew_def split: if_splits)
  then have "conn_inv sample_cleaning"
    by (simp add: conn_inv_def net_inv_def sample_cleaning_def sample_attempts_def mk_loop_def push_functor_def)
  then show ?thesis
    by (simp add: connector_at_def home_def sample_cleaning_def sample_attempts_def mk_loop_def mk_connector_def
        push_functor_def attempt_chan_def mk_channel_def KNew_def)
qed

theorem reset_destroys_new_attempt_witness:
  "returns (bind_res (connector_start sample_cleaning) run_reset) (\<lambda>w'. n_chans w' 8 = None
     \<and> (\<exists>el. n_loops w' 1 = Some el \<and> poll (Ready [(5, EPOLLOUT)]) (el_poller el) (n_chans w') = Inl UseAfterFree))"
proof -
  let ?e = "\<lparr>ce_fd = 5, ce_errno = EINPROGRESS, ce_chan = 8\<rparr>"
  have e: "?e = next_connect sample_cleaning"
    by (simp add: next_connect_def sample_cleaning_def sample_attempts_def)
  have new: "new_descriptor (ce_fd ?e) (ce_chan ?e) sample_cleaning"
    by (simp add: new_descriptor_def no_conn_fd_def sample_cleaning_def sample_attempts_def mk_loop_def
        mk_connector_def mk_poller_def push_functor_def)
  have "ct_loop (ct sample_cleaning) = 1" by (simp add: sample_cleaning_def mk_connector_def)
  then show ?thesis
    using reset_destroys_new_attempt [OF sample_cleaning_at e _ _ new]
    by (simp add: watch_errnos_def sample_cleaning_def mk_loop_def mk_poller_def kInitEventListSize_def push_functor_def)
qed

section \<open>Connecting twice\<close>

text \<open>
  \<open>connect()\<close> does not look at the state. A second call while an attempt is watched opens a second
  descriptor and destroys the channel of the first one, which the kernel still watches: its
  descriptor is never closed, and the next event on it makes the poll write to freed memory.
\<close>

lemma change_mask_new:
  assumes "n_chans w d = Some (ch :: channel)" "ch_loop ch = l" "ch_index ch = KNew" "n_loops w l = Some el"
    and "interest (kernel (el_poller el)) (ch_fd ch) = None" "\<And>opn fd. \<not> refuse (kernel (el_poller el)) opn fd"
  shows "\<exists>ch' el'. change_mask m d w = Inr (put_chan d ch' (put_loop l el' w))
    \<and> interest (kernel (el_poller el')) = (interest (kernel (el_poller el)))(ch_fd ch \<mapsto> (change_events m (ch_events ch), d))
    \<and> events_size (el_poller el') = events_size (el_poller el)"
proof -
  let ?ch = "ch\<lparr>ch_events := change_events m (ch_events ch)\<rparr>"
  obtain p where p: "updateChannel d ?ch (el_poller el) = Inr (?ch\<lparr>ch_index := KAdded\<rparr>, p)"
      "interest (kernel p) = (interest (kernel (el_poller el)))(ch_fd ch \<mapsto> (change_events m (ch_events ch), d))"
      "events_size p = events_size (el_poller el)"
    using assms(3,5,6) by (simp add: updateChannel_def poller_update_def epoll_ctl_def Let_def)
  have "put_chan d a (put_loop l b (put_chan d c w)) = put_chan d a (put_loop l b w)" for a b c
    by (simp add: put_chan_def put_loop_def)
  then show ?thesis using assms p
    by (intro exI [of _ "?ch\<lparr>ch_index := KAdded\<rparr>"] exI [of _ "el\<lparr>el_poller := p\<rparr>"])
      (simp add: change_mask_def loop_updateChannel_def)
qed

lemma second_connect_leaks:
  assumes at: "connector_at Trying w" and e: "e = next_connect w" "0 \<le> ce_fd e" "ce_errno e \<in> watch_errnos"
    and new: "new_descriptor (ce_fd e) (ce_chan e) w"
    and size: "\<And>el. n_loops w (ct_loop (ct w)) = Some el \<Longrightarrow> 0 < events_size (el_poller el)"
  shows "\<exists>fd d. ct_open w = [fd] \<and> ct_channel (ct w) = Some d
    \<and> returns (connector_start w) (\<lambda>w'. ct_open w' = [ce_fd e, fd] \<and> n_chans w' d = None
        \<and> (\<exists>el. n_loops w' (ct_loop (ct w)) = Some el
             \<and> poll (Ready [(fd, EPOLLOUT)]) (el_poller el) (n_chans w') = Inl UseAfterFree))"
proof -
  let ?l = "ct_loop (ct w)" and ?w0 = "upd_connector (\<lambda>c. c\<lparr>ct_connect := True\<rparr>) w"
  define w2 where "w2 = ?w0\<lparr>ct_connects := tl (ct_connects w), ct_open := ce_fd e # ct_open w\<rparr>"
  have inv: "conn_inv w" by (rule connector_atD [OF at])
  obtain el where el: "n_loops w ?l = Some el" using at by (rule connector_at_home)
  obtain d ch where d: "ct_channel (ct w) = Some d" "n_chans w d = Some ch" "attempt_chan ?l ch" "ch_index ch = KAdded"
      "ch_events ch = kWriteEvent" "ct_open w = [ch_fd ch]"
    using connector_atD(2) [OF at] by auto
  have pi: "poller_inv ?l (el_poller el) (n_chans w)" by (rule net_invD [OF conn_inv_net [OF inv] el])
  have n: "n_chans w (ce_chan e) = None" "channels_map (el_poller el) (ce_fd e) = None" "d \<noteq> ce_chan e"
    using new el d(2) by (auto simp: new_descriptor_def)
  have old: "interest (kernel (el_poller el)) (ch_fd ch) = Some (kWriteEvent, d)"
    using poller_inv_armed [OF pi d(2) _ d(4)] d(3,5) by (simp add: attempt_chan_def)
  have free: "interest (kernel (el_poller el)) (ce_fd e) = None"
    using poller_inv_interest [OF pi] poller_inv_map [OF pi] armed_registered n(2)
    by (metis not_Some_eq option.distinct(1) surj_pair)
  let ?ch = "(mk_channel ?l (ce_fd e))\<lparr>writeCallback := Some ConnectorHandleWrite, errorCallback := Some ConnectorHandleError\<rparr>"
  let ?w3 = "upd_connector (\<lambda>c. c\<lparr>ct_channel := Some (ce_chan e)\<rparr>)
      (put_chan (ce_chan e) ?ch (destroy_chan (Some d) (set_state cConnecting w2)))"
  have "\<exists>ch' el'. change_mask EnableWriting (ce_chan e) ?w3 = Inr (put_chan (ce_chan e) ch' (put_loop ?l el' ?w3))
    \<and> interest (kernel (el_poller el')) = (interest (kernel (el_poller el)))(ch_fd ?ch \<mapsto> (change_events EnableWriting (ch_events ?ch), ce_chan e))
    \<and> events_size (el_poller el') = events_size (el_poller el)"
    by (rule change_mask_new) (use el free in \<open>simp_all add: w2_def mk_channel_def KNew_def poller_inv_refuse [OF pi]\<close>)
  then obtain ch' el' where c: "change_mask EnableWriting (ce_chan e) ?w3 = Inr (put_chan (ce_chan e) ch' (put_loop ?l el' ?w3))"
    "interest (kernel (el_poller el')) = (interest (kernel (el_poller el)))(ce_fd e \<mapsto> (change_events EnableWriting 0, ce_chan e))"
    "events_size (el_poller el') = events_size (el_poller el)"
    by (auto simp: mk_channel_def)
  let ?w4 = "put_chan (ce_chan e) ch' (put_loop ?l el' ?w3)"
  have "connecting (ce_fd e) (ce_chan e) w2 = Inr ?w4"
    using c(1) d(1) n(1) by (simp add: connecting_def Let_def w2_def)
  moreover have "connector_start w = connecting (ce_fd e) (ce_chan e) w2"
    using connector_at_here [OF connector_at_wish [OF at, of True]] e
    by (simp add: connector_start_def runInLoop_def startInLoop_idle connect_def next_connect_def Let_def w2_def watch_errnos_def)
  moreover have "ch_fd ch \<noteq> ce_fd e" using old free by auto
  with c(2) old have "report (kernel (el_poller el')) (ch_fd ch, EPOLLOUT) = Some (EPOLLOUT, d)"
    by (simp add: report_def event_defs)
  moreover have gone: "n_chans ?w4 d = None" using n(3) by (simp add: destroy_chan_def)
  ultimately have "poll (Ready [(ch_fd ch, EPOLLOUT)]) (el_poller el') (n_chans ?w4) = Inl UseAfterFree"
    using size [OF el] c(3)
    by (cases "events_size (el_poller el')") (simp_all add: poll_def epoll_wait_def List.map_filter_def)
  then show ?thesis
    using d gone \<open>connecting (ce_fd e) (ce_chan e) w2 = Inr ?w4\<close> \<open>connector_start w = connecting (ce_fd e) (ce_chan e) w2\<close>
    by (intro exI [of _ "ch_fd ch"] exI [of _ d]) (simp add: w2_def)
qed

end
