(* ===== verification/TcpClient_Properties.thy ===== *)
theory TcpClient_Properties
  imports Server TcpClient Connector_Properties
begin

text \<open>
  The client as the owner of the connector's descriptors: what \<open>newConnection\<close> makes of one, the
  contract \<open>descriptor_owner\<close> discharged on it, and the end of a client.
\<close>

section \<open>A new connection\<close>

lemma client_simps [simp]:
  "n_loops (put_client c w) = n_loops w" "n_chans (put_client c w) = n_chans w" "n_tid (put_client c w) = n_tid w"
  "cn_conns (put_client c w) = cn_conns w" "cn_strings (put_client c w) = cn_strings w" "ct (put_client c w) = ct w"
  "ct_open (put_client c w) = ct_open w" "cl (put_client c w) = Some c"
  by (simp_all add: put_client_def)

lemma cl_simps [simp]:
  "cl (put_loop l el w) = cl w" "cl (put_chan d ch w) = cl w" "cl (put_conn i cn w) = cl w"
  "ct (put_conn i cn w) = ct w" "ct_open (put_conn i cn w) = ct_open w"
  "cl (setc i cn ch el w) = cl w" "ct (setc i cn ch el w) = ct w" "ct_open (setc i cn ch el w) = ct_open w"
  by (simp_all add: put_loop_def put_chan_def put_conn_def setc_def)

lemma client_more:
  fixes w :: "'a client_net_scheme"
  shows "connector_net.more w' = connector_net.more w \<Longrightarrow> cl w' = cl w"
    "conn_net.more w' = conn_net.more w \<Longrightarrow> cl w' = cl w \<and> ct w' = ct w \<and> ct_open w' = ct_open w"
  by (cases w; cases w'; simp)+

text \<open>The state in which \<open>newConnection\<close> calls \<open>connectEstablished\<close>.\<close>

definition client_conn :: "client \<Rightarrow> int \<Rightarrow> result_env \<Rightarrow> nat \<Rightarrow> conn" where
  "client_conn c fd e l = client_configured c (mk_conn l (client_connName c (client_peer e))
     ((re_sock e)\<lparr>sk_fd := fd\<rparr>) (re_chan e) (client_local e) (client_peer e))"

definition client_born :: "client \<Rightarrow> int \<Rightarrow> result_env \<Rightarrow> 'a client_net_scheme \<Rightarrow> 'a client_net_scheme" where
  "client_born c fd e w =
     put_client (c\<lparr>cl_nextConnId := cl_nextConnId c + 1, cl_connection := Some (re_conn e)\<rparr>)
       (put_conn (re_conn e) (client_conn c fd e (ct_loop (ct w)))
         (put_chan (re_chan e) (conn_channel (ct_loop (ct w)) (re_conn e) fd) w))"

lemma client_newConnection_born:
  assumes "cl w = Some c" "cl_nextConnId c \<noteq> 2 ^ 31 - 1" "cn_conns w (re_conn e) = None" "n_chans w (re_chan e) = None"
  shows "client_newConnection app fd e w = connectEstablished app (re_conn e) (client_born c fd e w)"
proof -
  have "put_client c2 (put_conn i x (put_conn i y (put_chan d ch (put_client c1 w))))
      = put_client c2 (put_conn i x (put_chan d ch w))" for c1 c2 i x y d ch
    by (simp add: put_client_def put_conn_def put_chan_def)
  then show ?thesis using assms
    by (simp add: client_newConnection_def get_client_def Let_def new_conn_def upd_conn_def get_conn_def
        client_born_def client_conn_def)
qed

lemma client_born_simps [simp]:
  "n_loops (client_born c fd e w) = n_loops w" "n_tid (client_born c fd e w) = n_tid w"
  "ct (client_born c fd e w) = ct w" "ct_open (client_born c fd e w) = ct_open w"
  "cn_conns (client_born c fd e w) = (cn_conns w)(re_conn e \<mapsto> client_conn c fd e (ct_loop (ct w)))"
  "n_chans (client_born c fd e w) = (n_chans w)(re_chan e \<mapsto> conn_channel (ct_loop (ct w)) (re_conn e) fd)"
  "cl (client_born c fd e w) = Some (c\<lparr>cl_nextConnId := cl_nextConnId c + 1, cl_connection := Some (re_conn e)\<rparr>)"
  by (simp_all add: client_born_def)

lemma client_conn_simps [simp]:
  "cn_state (client_conn c fd e l) = kConnecting" "cn_channel (client_conn c fd e l) = re_chan e"
  "cn_loop (client_conn c fd e l) = l" "sk_fd (cn_socket (client_conn c fd e l)) = fd"
  "cn_name (client_conn c fd e l) = client_connName c (client_peer e)"
  "cn_closeCallback (client_conn c fd e l) = Some ClientRemove"
  by (simp_all add: client_conn_def client_configured_def mk_conn_def)

lemma client_born_inv:
  assumes inv: "conn_inv w" and free: "fd_free fd (ct_loop (ct w)) w" and e: "places_free e w"
  shows "conn_inv (client_born c fd e w)"
proof -
  let ?l = "ct_loop (ct w)" and ?sk = "(re_sock e)\<lparr>sk_fd := fd\<rparr>"
  let ?cn0 = "mk_conn ?l (client_connName c (client_peer e)) ?sk (re_chan e)
      (client_local e) (client_peer e)"
  let ?w2 = "put_conn (re_conn e) ?cn0 (put_chan (re_chan e) (conn_channel ?l (re_conn e) fd) w)"
  have "good {} w (new_conn (re_conn e) (re_chan e) ?l (client_connName c (client_peer e)) ?sk
      (client_local e) (client_peer e) w)"
    by (rule new_conn_good [OF inv]) (use free e in \<open>simp_all add: places_free_def\<close>)
  then have 2: "conn_inv ?w2" using e by (simp add: good_def new_conn_def places_free_def)
  have "good {} ?w2 (Inr (put_conn (re_conn e) (client_conn c fd e ?l) ?w2))"
    by (rule good_put_conn [OF 2, of _ ?cn0])
      (simp_all add: client_conn_def client_configured_def advances_def same_place_def stream_def pending_out_def conn_local_def)
  then have "conn_inv (put_conn (re_conn e) (client_conn c fd e ?l) ?w2)" by (simp add: good_def)
  then show ?thesis
    by (subst conn_inv_cong [where w = "put_conn (re_conn e) (client_conn c fd e ?l) ?w2"])
      (simp_all add: client_born_def)
qed

lemma client_born_evolves:
  assumes "places_free e w"
  shows "evolves w (client_born c fd e w)"
  using assms by (auto simp: evolves_def places_free_def)

section \<open>Up\<close>

text \<open>\<open>connectEstablished\<close> up to the application's callback: the channel is registered for reading.\<close>

definition established :: "nat \<Rightarrow> conn \<Rightarrow> channel \<Rightarrow> evloop \<Rightarrow> 'a conn_net_scheme \<Rightarrow> 'a conn_net_scheme" where
  "established c cn ch el w = setc c (cn\<lparr>cn_state := kConnected\<rparr>) (masked EnableReading (tie_channel c ch))
     (synced (cn_channel cn) (masked EnableReading (tie_channel c ch)) el) w"

lemma connectEstablished_eq:
  assumes inv: "conn_inv w" and cn: "linked c cn ch el w" "cn_state cn = kConnecting"
  shows "connectEstablished app c w = connectionCallback app c (established c cn ch el w)"
    "conn_inv (established c cn ch el w)" "evolves w (established c cn ch el w)"
proof -
  have c: "cn_conns w c = Some cn" "n_chans w (cn_channel cn) = Some ch" using cn by (simp_all add: linked_def)
  obtain ch0 el0 where l: "linked c cn ch0 el0 w" "focused c cn ch0 el0 w" "setc c cn ch0 el0 w = w"
    using inv c(1) by (rule conn_invE)
  then have same: "ch0 = ch" "el0 = el" using cn(1) by (simp_all add: linked_def)
  let ?cn = "cn\<lparr>cn_state := kConnected\<rparr>" and ?tied = "tie_channel c ch"
  have f: "focused c ?cn ?tied el w" using focused_tied [OF focused_conn [OF _ l(2), of ?cn]] same by simp
  have p: "put_chan (cn_channel cn) ?tied (put_conn c ?cn w) = setc c ?cn ?tied el w"
    using setc_put_conn [of ?cn cn c ch el w] setc_put_chan [of "cn_channel cn" ?cn ?tied c ch el w] l(3) same by simp
  have x: "change_mask EnableReading (cn_channel cn) (put_chan (cn_channel cn) ?tied (put_conn c ?cn w))
      = Inr (established c cn ch el w)"
    unfolding p by (simp add: setc_change_mask [OF f] established_def)
  show "connectEstablished app c w = connectionCallback app c (established c cn ch el w)"
    using c x by (simp add: connectEstablished_def get_conn_def get_chan_def)
  show "conn_inv (established c cn ch el w)" "evolves w (established c cn ch el w)"
    using establish_state_good [OF inv c(1) cn(2) c(2), of "{}"] unfolding x by (simp_all add: good_def)
qed

lemma established_registered:
  assumes inv: "conn_inv w" and reg: "\<And>b bn bh. cn_conns w b = Some bn \<Longrightarrow> n_chans w (cn_channel bn) = Some bh \<Longrightarrow> b \<noteq> c \<Longrightarrow>
      (ch_index bh = KAdded \<longleftrightarrow> kind_of (cn_state bn) = Up)"
    and l: "linked c cn ch el w"
  shows "registered_up (established c cn ch el w)"
  unfolding registered_up_def
proof (intro allI impI, elim conjE)
  fix b bn bh
  assume b: "cn_conns (established c cn ch el w) b = Some bn" "n_chans (established c cn ch el w) (cn_channel bn) = Some bh"
  show "ch_index bh = KAdded \<longleftrightarrow> kind_of (cn_state bn) = Up"
  proof (cases "b = c")
    case True
    then show ?thesis using b by (auto simp: established_def masked_index)
  next
    case False
    then have bw: "cn_conns w b = Some bn" using b by (simp add: established_def)
    then obtain bh0 el0 where "linked b bn bh0 el0 w" using inv by (auto elim: conn_invE)
    then have "cn_channel bn \<noteq> cn_channel cn" using linked_channels [OF _ l] False by blast
    then have "n_chans w (cn_channel bn) = Some bh" using b by (simp add: established_def)
    then show ?thesis using reg [OF bw _ False] by simp
  qed
qed

lemma callback_good:
  assumes "conn_inv w" "cn_conns w c \<noteq> None"
  shows "good app_faults w (connectionCallback app c w)"
  using assms call_app_good [OF assms(1), of app_faults] good_Inr [OF assms(1)]
  by (auto simp: connectionCallback_def get_conn_def good_def split: option.split user_cb.split)

text \<open>What the whole operation leaves of the connector's state, and what it makes of the connection.\<close>

definition is_up :: "nat \<Rightarrow> conn \<Rightarrow> 'a conn_net_scheme \<Rightarrow> bool" where
  "is_up c cn0 w \<longleftrightarrow> (\<exists>cn ch. cn_conns w c = Some cn \<and> kind_of (cn_state cn) = Up \<and> cn_name cn = cn_name cn0
     \<and> same_place cn0 cn \<and> cn_closeCallback cn = cn_closeCallback cn0
     \<and> n_chans w (cn_channel cn) = Some ch \<and> ch_index ch = KAdded)"

lemma established_up: "is_up c cn (established c cn ch el w)"
  by (simp add: is_up_def established_def masked_index same_place_def)

lemma is_up_calm:
  assumes up: "is_up c cn0 w" and calm: "calm w w'"
  shows "is_up c cn0 w'"
proof -
  obtain cn ch where a: "cn_conns w c = Some cn" "kind_of (cn_state cn) = Up" "cn_name cn = cn_name cn0"
    "same_place cn0 cn" "cn_closeCallback cn = cn_closeCallback cn0" "n_chans w (cn_channel cn) = Some ch" "ch_index ch = KAdded"
    using up by (auto simp: is_up_def)
  have "rel_option same_conn (cn_conns w c) (cn_conns w' c)" using calm by (simp add: calm_def same_conns_def)
  with a(1) obtain cn' where cn': "cn_conns w' c = Some cn'" "same_conn cn cn'" by (cases "cn_conns w' c") auto
  have "rel_option same_chan (n_chans w (cn_channel cn)) (n_chans w' (cn_channel cn))"
    using calm by (simp add: calm_def same_chans_def)
  with a(6) obtain ch' where "n_chans w' (cn_channel cn) = Some ch'" "same_chan ch ch'"
    by (cases "n_chans w' (cn_channel cn)") auto
  then show ?thesis using a cn' unfolding is_up_def same_conn_def same_place_def same_chan_def by auto
qed

section \<open>The contract of the owner\<close>

lemma ends_wider: "ends E r P \<Longrightarrow> E \<subseteq> F \<Longrightarrow> ends F r P"
  by (cases r) auto

lemma cleaning_kept:
  assumes at: "connector_at Cleaning w" and inv: "conn_inv w'" and ev: "evolves w w'"
    and ct: "ct w' = ct w" "ct_open w' = ct_open w"
    and idx: "\<And>d ch. n_chans w d = Some ch \<Longrightarrow> \<exists>ch'. n_chans w' d = Some ch' \<and> ch_index ch' = ch_index ch"
    and q: "\<And>el. n_loops w (ct_loop (ct w)) = Some el \<Longrightarrow> \<exists>el' new. n_loops w' (ct_loop (ct w)) = Some el'
      \<and> pendingFunctors el' = pendingFunctors el @ new \<and> FResetChannel \<notin> set new"
  shows "connector_at Cleaning w'"
proof -
  obtain el where hm: "home 1 el w" and el: "n_loops w (ct_loop (ct w)) = Some el"
    using at by (rule connector_at_home) simp
  obtain el' new where el': "n_loops w' (ct_loop (ct w)) = Some el'" "pendingFunctors el' = pendingFunctors el @ new"
    "FResetChannel \<notin> set new" using q [OF el] by blast
  have "grows (n_tid w) el el'" "n_tid w' = n_tid w"
    using ev el el'(1) unfolding evolves_def by (metis option.inject)+
  then have "home 1 el' w'" using hm el' ct(1) by (simp add: home_def grows_def count_list_0_iff)
  moreover obtain d ch where d: "ct_channel (ct w) = Some d" "n_chans w d = Some ch" "attempt_chan (ct_loop (ct w)) ch"
    "ch_index ch = KNew" "ct_open w = []"
    using connector_atD(2) [OF at] by auto
  moreover obtain ch' where ch': "n_chans w' d = Some ch'" "ch_index ch' = ch_index ch" using idx [OF d(2)] by blast
  moreover have "attempt_chan (ct_loop (ct w)) ch'"
  proof -
    have "same_dispatch ch ch' \<and> ch_loop ch' = ch_loop ch" using ev d(2) ch'(1) unfolding evolves_def by fastforce
    then show ?thesis using d(3) by (simp add: attempt_chan_def same_dispatch_def)
  qed
  ultimately show ?thesis using inv ct connector_atD(3) [OF at] by (auto simp: connector_at_def)
qed

lemma cleaning_calm:
  assumes at: "connector_at Cleaning w" and inv: "conn_inv w'" and calm: "calm w w'"
  shows "connector_at Cleaning (w' :: 'a client_net_scheme)"
proof (rule cleaning_kept [OF at inv])
  have more: "conn_net.more w' = conn_net.more w" using calm by (simp add: calm_def)
  show "evolves w w'" using calm by (simp add: calm_def)
  show "ct w' = ct w" "ct_open w' = ct_open w" using client_more(2) [OF more] by simp_all
  show "\<exists>ch'. n_chans w' d = Some ch' \<and> ch_index ch' = ch_index ch" if d: "n_chans w d = Some ch" for d ch
  proof -
    have "rel_option same_chan (n_chans w d) (n_chans w' d)" using calm by (simp add: calm_def same_chans_def)
    then show ?thesis using d by (cases "n_chans w' d") (auto simp: same_chan_def)
  qed
  show "\<exists>el' new. n_loops w' (ct_loop (ct w)) = Some el' \<and> pendingFunctors el' = pendingFunctors el @ new
      \<and> FResetChannel \<notin> set new" if el: "n_loops w (ct_loop (ct w)) = Some el" for el
  proof -
    have "rel_option (\<lambda>el el'. \<exists>new. pendingFunctors el' = pendingFunctors el @ new
        \<and> (\<forall>f \<in> set new. benign (ct_loop (ct w)) w f)) (n_loops w (ct_loop (ct w))) (n_loops w' (ct_loop (ct w)))"
      using calm by (simp add: calm_def queues_def)
    then show ?thesis using el by (cases "n_loops w' (ct_loop (ct w))") (auto dest: bspec [where x = FResetChannel])
  qed
qed

definition client_ok :: "'a client_net_scheme \<Rightarrow> bool" where
  "client_ok w \<longleftrightarrow> registered_up w \<and> cl w \<noteq> None"

text \<open>
  What \<open>newConnection\<close> comes to: a connection that is up, belongs to the client and has the
  descriptor; nothing else of the connector changes.
\<close>

definition client_connected :: "client \<Rightarrow> int \<Rightarrow> result_env \<Rightarrow> 'a client_net_scheme \<Rightarrow> bool" where
  "client_connected c fd e w \<longleftrightarrow> is_up (re_conn e) (client_conn c fd e (ct_loop (ct w))) w
     \<and> cl w = Some (c\<lparr>cl_nextConnId := cl_nextConnId c + 1, cl_connection := Some (re_conn e)\<rparr>)"

lemma newConnection_callback:
  assumes at: "connector_at Cleaning w" and cl: "cl w = Some c" "cl_nextConnId c \<noteq> 2 ^ 31 - 1"
    and free: "fd_free fd (ct_loop (ct w)) w" and e: "places_free e w"
  obtains x el where "n_loops w (ct_loop (ct w)) = Some el" "threadId el = n_tid w"
    "x = established (re_conn e) (client_conn c fd e (ct_loop (ct w))) (conn_channel (ct_loop (ct w)) (re_conn e) fd) el
       (client_born c fd e w)"
    "linked (re_conn e) (client_conn c fd e (ct_loop (ct w))) (conn_channel (ct_loop (ct w)) (re_conn e) fd) el
       (client_born c fd e w)"
    "client_newConnection app fd e w = connectionCallback app (re_conn e) x" "conn_inv x" "evolves w x"
proof -
  let ?b = "client_born c fd e w" and ?l = "ct_loop (ct w)"
  let ?cn = "client_conn c fd e ?l" and ?ch = "conn_channel ?l (re_conn e) fd"
  have new: "cn_conns w (re_conn e) = None" "n_chans w (re_chan e) = None" using e by (simp_all add: places_free_def)
  obtain el where el: "home 1 el w" "n_loops w ?l = Some el" using at by (rule connector_at_home) simp
  have ib: "conn_inv ?b" by (rule client_born_inv [OF connector_atD(1) [OF at] free e])
  have cb: "cn_conns ?b (re_conn e) = Some ?cn" by simp
  have l: "linked (re_conn e) ?cn ?ch el ?b"
    using conn_invE [OF ib cb] el(2) by (metis client_born_simps(1,6) client_conn_simps(2,3) fun_upd_same linked_def option.inject)
  note eq = connectEstablished_eq [OF ib l client_conn_simps(1)]
  have "client_newConnection app fd e w = connectionCallback app (re_conn e) (established (re_conn e) ?cn ?ch el ?b)"
    using client_newConnection_born [OF cl new] eq(1) by simp
  then show thesis
    using el l eq(2) evolves_trans [OF client_born_evolves [OF e] eq(3)] by (intro that [of el]) (simp_all add: home_def)
qed

lemma newborn_cleaning:
  fixes w :: "'a client_net_scheme" and c :: client and fd :: int
  assumes at: "connector_at Cleaning w" and e: "places_free e w" and el: "n_loops w (ct_loop (ct w)) = Some el"
  defines "x \<equiv> established (re_conn e) (client_conn c fd e (ct_loop (ct w))) (conn_channel (ct_loop (ct w)) (re_conn e) fd) el
       (client_born c fd e w)"
  assumes inv: "conn_inv x" and ev: "evolves w x"
  shows "connector_at Cleaning x"
proof (rule cleaning_kept [OF at inv ev])
  show "ct x = ct w" "ct_open x = ct_open w" by (simp_all add: x_def established_def)
  show "\<exists>ch'. n_chans x d = Some ch' \<and> ch_index ch' = ch_index ch" if "n_chans w d = Some ch" for d ch
    using that e by (auto simp: x_def established_def places_free_def)
  show "\<exists>el' new. n_loops x (ct_loop (ct w)) = Some el' \<and> pendingFunctors el' = pendingFunctors el0 @ new
      \<and> FResetChannel \<notin> set new" if "n_loops w (ct_loop (ct w)) = Some el0" for el0
    using that el
    by (intro exI [of _ "synced (re_chan e) (masked EnableReading (tie_channel (re_conn e)
          (conn_channel (ct_loop (ct w)) (re_conn e) fd))) el"] exI [of _ "[]"])
      (simp add: x_def established_def)
qed

lemma newConnection_ok:
  fixes w :: "'a client_net_scheme"
  assumes at: "connector_at Cleaning w" and ok: "client_ok w" "cl w = Some c" and app: "local_app app"
    and free: "fd_free fd (ct_loop (ct w)) w" and e: "places_free e w"
  shows "ends (insert SignedOverflow app_faults) (client_newConnection app fd e w)
     (\<lambda>w'. client_ok w' \<and> connector_at Cleaning w' \<and> ct w' = ct w \<and> client_connected c fd e w')"
proof (cases "cl_nextConnId c = 2 ^ 31 - 1")
  case True
  then show ?thesis using ok by (simp add: client_newConnection_def get_client_def Let_def)
next
  case False
  let ?b = "client_born c fd e w" and ?l = "ct_loop (ct w)"
  let ?cn = "client_conn c fd e ?l" and ?ch = "conn_channel ?l (re_conn e) fd"
  have inv: "conn_inv w" by (rule connector_atD [OF at])
  have new: "cn_conns w (re_conn e) = None" "n_chans w (re_chan e) = None" using e by (simp_all add: places_free_def)
  have ib: "conn_inv ?b" by (rule client_born_inv [OF inv free e])
  obtain x el where el: "n_loops w ?l = Some el" and x: "x = established (re_conn e) ?cn ?ch el ?b" and l: "linked (re_conn e) ?cn ?ch el ?b"
    and eqs: "client_newConnection app fd e w = connectionCallback app (re_conn e) x" "conn_inv x" "evolves w x"
    using at ok(2) False free e by (rule newConnection_callback)
  let ?x = "established (re_conn e) ?cn ?ch el ?b"
  note eq = eqs [unfolded x]
  have reg: "registered_up ?x"
  proof (rule established_registered [OF ib _ l])
    fix b bn bh
    assume b: "cn_conns ?b b = Some bn" "n_chans ?b (cn_channel bn) = Some bh" "b \<noteq> re_conn e"
    then have bw: "cn_conns w b = Some bn" by simp
    then obtain bh0 el0 where "linked b bn bh0 el0 w" using inv by (auto elim: conn_invE)
    then have "cn_channel bn \<noteq> re_chan e" using new(2) by (auto simp: linked_def)
    then have "n_chans w (cn_channel bn) = Some bh" using b by simp
    then show "ch_index bh = KAdded \<longleftrightarrow> kind_of (cn_state bn) = Up"
      using ok(1) bw by (auto simp: client_ok_def registered_up_def)
  qed
  note ev = eq(3)
  have ctx: "ct ?x = ct w" "ct_open ?x = ct_open w"
    "cl ?x = Some (c\<lparr>cl_nextConnId := cl_nextConnId c + 1, cl_connection := Some (re_conn e)\<rparr>)"
    by (simp_all add: established_def)
  have atx: "connector_at Cleaning ?x" by (rule newborn_cleaning [OF at e el eq(2) ev])
  have good: "good app_faults ?x (connectionCallback app (re_conn e) ?x)"
    by (rule callback_good [OF eq(2)]) (simp add: established_def)
  have calm: "safely (connectionCallback app (re_conn e) ?x) (calm ?x)"
    by (rule connectionCallback_calm [OF eq(2) reg app])
  have up: "is_up (re_conn e) ?cn ?x" by (rule established_up)
  have fin: "client_ok w' \<and> connector_at Cleaning w' \<and> ct w' = ct w \<and> client_connected c fd e w'"
    if h: "calm ?x w'" "conn_inv w'" for w'
  proof -
    have more: "conn_net.more w' = conn_net.more ?x" using h(1) by (simp add: calm_def)
    have "is_up (re_conn e) ?cn w'" by (rule is_up_calm [OF up h(1)])
    then show ?thesis
      using client_more(2) [OF more] ctx registered_up_calm [OF reg h(1)] cleaning_calm [OF atx h(2,1)]
      by (simp add: client_ok_def client_connected_def)
  qed
  have "ends app_faults (client_newConnection app fd e w)
      (\<lambda>w'. client_ok w' \<and> connector_at Cleaning w' \<and> ct w' = ct w \<and> client_connected c fd e w')"
    unfolding eq(1)
    by (rule ends_mono [OF ends_safely_conj [OF good [unfolded good_def] calm]]) (rule fin, simp_all)
  then show ?thesis by (rule ends_wider) blast
qed

text \<open>The contract includes that the application is \<open>local_app\<close>.\<close>

definition client_of :: "(app_event \<Rightarrow> 'a client_net_scheme \<Rightarrow> api list) \<Rightarrow> 'a client_net_scheme \<Rightarrow> bool" where
  "client_of app w \<longleftrightarrow> client_ok w \<and> local_app app"

interpretation owner: descriptor_owner "client_of app" "client_newConnection app" "insert SignedOverflow app_faults"
  for app :: "app_event \<Rightarrow> 'a client_net_scheme \<Rightarrow> api list"
proof unfold_locales
  show "client_of app w'" if "client_of app w" "beside w w'" for w w'
  proof -
    have b: "apart w w'" "cl w' = cl w" using that(2) client_more(1) [of w' w] by (simp_all add: beside_def)
    then have "registered_up w'" using that(1) apart_registered_up [OF _ b(1)] by (simp add: client_of_def client_ok_def)
    then show ?thesis using that(1) b(2) by (simp add: client_of_def client_ok_def)
  qed
  show "ends (insert SignedOverflow app_faults) (client_newConnection app fd e w)
      (\<lambda>w'. client_of app w' \<and> connector_at Cleaning w')"
    if h: "client_of app w" "connector_at Cleaning w" "fd_free fd (ct_loop (ct w)) w" "places_free e w" for w fd e
  proof -
    have ok: "client_ok w" "local_app app" using h(1) by (simp_all add: client_of_def)
    then obtain c where "cl w = Some c" by (auto simp: client_ok_def)
    from newConnection_ok [OF h(2) ok(1) this ok(2) h(3,4)] show ?thesis
      using ok(2) by (auto simp: client_of_def elim!: ends_mono)
  qed
qed

section \<open>A sample client\<close>

text \<open>A net with one loop, in this thread, and no client yet.\<close>

definition sample_client_net :: "connect_env list \<Rightarrow> result_env list \<Rightarrow> client_net" where
  "sample_client_net es rs = \<lparr>n_tid = 1, n_chans = Map.empty,
     n_loops = [1 \<mapsto> mk_loop 1 (mk_poller (\<lambda>_ _. False)) 3 4], n_loopInThisThread = [1 \<mapsto> 1],
     cn_conns = Map.empty, cn_strings = Map.empty, cn_trace = [],
     ct = mk_connector 1 sample_addr, ct_connects = es, ct_results = rs, ct_times = [], ct_open = [], cl = None\<rparr>"

lemma sample_client_net_simps [simp]:
  "n_tid (sample_client_net es rs) = 1" "cn_conns (sample_client_net es rs) = Map.empty"
  "n_loops (sample_client_net es rs) = [1 \<mapsto> mk_loop 1 (mk_poller (\<lambda>_ _. False)) 3 4]"
  "n_chans (sample_client_net es rs) = Map.empty" "cn_strings (sample_client_net es rs) = Map.empty"
  "ct_open (sample_client_net es rs) = []" "ct_connects (sample_client_net es rs) = es"
  "ct_results (sample_client_net es rs) = rs"
  by (simp_all add: sample_client_net_def)

lemma sample_client_net_inv: "conn_inv (sample_client_net es rs)" "registered_up (sample_client_net es rs)"
proof -
  have "poller_inv 1 (mk_poller (\<lambda>_ _. False)) Map.empty" by (rule poller_inv_mk_poller) simp
  then show "conn_inv (sample_client_net es rs)" by (simp add: conn_inv_def net_inv_def mk_loop_def)
qed (simp add: registered_up_def)

definition sample_result :: result_env where
  "sample_result = no_result\<lparr>re_local := Some \<lparr>sin6_family = AF_INET, sin6_port = htons 4000, sin6_flowinfo = 0x0100007F, sin6_addr = 0\<rparr>,
     re_peer := Some \<lparr>sin6_family = AF_INET, sin6_port = htons 80, sin6_flowinfo = 0x0100007F, sin6_addr = 0\<rparr>,
     re_conn := 7, re_chan := 8\<rparr>"

text \<open>A client whose attempt on descriptor 5 is being watched.\<close>

definition sample_trying :: client_net where
  "sample_trying = (let ch = (mk_channel 1 5)\<lparr>writeCallback := Some ConnectorHandleWrite, errorCallback := Some ConnectorHandleError\<rparr>;
       w = (sample_client_net [] [sample_result])\<lparr>n_chans := [6 \<mapsto> ch],
         ct := (mk_connector 1 sample_addr)\<lparr>ct_connect := True, ct_state := cConnecting, ct_channel := Some 6,
           ct_newConnectionCallback := True\<rparr>, ct_open := [5], cl := Some (mk_client ''c'')\<rparr>;
       ch' = masked EnableWriting ch in
     put_chan 6 ch' (put_loop 1 (synced 6 ch' (mk_loop 1 (mk_poller (\<lambda>_ _. False)) 3 4)) w))"

lemma sample_trying_at: "connector_at Trying sample_trying" "client_ok sample_trying"
proof -
  let ?ch = "(mk_channel 1 5)\<lparr>writeCallback := Some ConnectorHandleWrite, errorCallback := Some ConnectorHandleError\<rparr>"
  let ?el = "mk_loop 1 (mk_poller (\<lambda>_ _. False)) 3 4"
  let ?w = "(sample_client_net [] [sample_result])\<lparr>n_chans := [6 \<mapsto> ?ch],
      ct := (mk_connector 1 sample_addr)\<lparr>ct_connect := True, ct_state := cConnecting, ct_channel := Some 6,
        ct_newConnectionCallback := True\<rparr>, ct_open := [5], cl := Some (mk_client ''c'')\<rparr>"
  have "poller_inv 1 (mk_poller (\<lambda>_ _. False)) [6 \<mapsto> ?ch]"
    by (rule poller_inv_mk_poller) (auto simp: mk_channel_def KNew_def split: if_splits)
  then have inv: "conn_inv ?w" by (simp add: conn_inv_def net_inv_def mk_loop_def)
  have "chan_ok 6 ?ch ?el ?w" by (simp add: chan_ok_def mk_channel_def may_add_def mk_loop_def mk_poller_def)
  from apart_sync [OF conn_inv_net [OF inv] this, of "masked EnableWriting ?ch"]
  have a: "apart ?w sample_trying"
    by (simp add: sample_trying_def Let_def no_conn_chan_def no_conn_fd_def mk_channel_def)
  have "change_events EnableWriting 0 = kWriteEvent" by (rule bit_word_eqI) simp
  then have "attempt_chan 1 (masked EnableWriting ?ch)" "ch_index (masked EnableWriting ?ch) = KAdded"
    "ch_events (masked EnableWriting ?ch) = kWriteEvent" "ch_fd (masked EnableWriting ?ch) = 5"
    by (simp_all add: attempt_chan_def masked_index mk_channel_def)
  then show "connector_at Trying sample_trying"
    by (intro connector_atI [OF inv a, of _ "synced 6 (masked EnableWriting ?ch) ?el"])
      (simp_all add: home_def sample_trying_def Let_def mk_connector_def mk_loop_def no_conn_fd_def)
  show "client_ok sample_trying" by (simp add: client_ok_def registered_up_def sample_trying_def Let_def)
qed

lemma quiet_is_local: "local_app quiet"
  by (simp add: local_app_def quiet_def)

section \<open>The finished attempt\<close>

text \<open>
  C24. When the descriptor of an attempt becomes writable, with no error and no connection to itself,
  and a connection is still wanted, the client gets a connection that is up (established, or already
  being closed by its callback), registered in the poller, with the descriptor of the attempt, the
  next name, and the client as its owner; the connector is done and has no descriptor left. The only
  faults are those of the application, and the count of connections at the end of its range.
\<close>

theorem client_gets_connected:
  fixes w :: "'a client_net_scheme"
  assumes at: "connector_at Trying w" and ok: "client_ok w" "cl w = Some c" and app: "local_app app"
    and wish: "ct_connect (ct w)" "ct_newConnectionCallback (ct w)"
    and e: "e = next_result w" "re_error e = 0" "\<not> isSelfConnect (re_local e) (re_peer e)" "places_free e w"
  shows "\<exists>fd. ct_open w = [fd] \<and> ends {OutOfRange, BadAlloc, BadFunctionCall, Misuse, SignedOverflow}
      (run_client_handler app t ConnectorHandleWrite w)
    (\<lambda>w'. ct_open w' = [] \<and> ct_state (ct w') = cConnected
       \<and> cl w' = Some (c\<lparr>cl_nextConnId := cl_nextConnId c + 1, cl_connection := Some (re_conn e)\<rparr>)
       \<and> (\<exists>cn ch. cn_conns w' (re_conn e) = Some cn \<and> kind_of (cn_state cn) = Up
            \<and> cn_name cn = client_connName c (client_peer e) \<and> sk_fd (cn_socket cn) = fd
            \<and> cn_closeCallback cn = Some ClientRemove
            \<and> n_chans w' (cn_channel cn) = Some ch \<and> ch_index ch = KAdded))"
proof -
  obtain fd w1 where w1: "ct_open w = [fd]"
    "connector_handleWrite (client_newConnection app) w = client_newConnection app fd e w1"
    "connector_at Cleaning w1" "beside w w1" "same_places w w1" "ct w1 = (ct w)\<lparr>ct_state := cConnected\<rparr>"
    "fd_free fd (ct_loop (ct w)) w1"
    using handleWrite_branches [OF at e(1), of "client_newConnection app"] wish e(2,3) by auto
  have "client_of app w1" using owner.I_beside [OF _ w1(4), of app] ok(1) app by (simp add: client_of_def)
  then have ok1: "client_ok w1" by (simp add: client_of_def)
  have cl1: "cl w1 = Some c" using client_more(1) [of w1 w] w1(4) ok(2) by (simp add: beside_def)
  have "places_free e w1" using e(4) w1(4,5) by (auto simp: places_free_def same_places_def beside_def apart_def)
  from newConnection_ok [OF w1(3) ok1 cl1 app _ this, of fd] w1(6,7)
  have n: "ends (insert SignedOverflow app_faults) (client_newConnection app fd e w1)
     (\<lambda>w'. client_ok w' \<and> connector_at Cleaning w' \<and> ct w' = ct w1 \<and> client_connected c fd e w')" by simp
  have r: "run_client_handler app t ConnectorHandleWrite w = client_newConnection app fd e w1"
    using ok(2) w1(2) by (simp add: run_client_handler_def run_conn_handler_def on_connector_def get_client_def)
  have "ends (insert SignedOverflow app_faults) (run_client_handler app t ConnectorHandleWrite w)
    (\<lambda>w'. ct_open w' = [] \<and> ct_state (ct w') = cConnected
       \<and> cl w' = Some (c\<lparr>cl_nextConnId := cl_nextConnId c + 1, cl_connection := Some (re_conn e)\<rparr>)
       \<and> (\<exists>cn ch. cn_conns w' (re_conn e) = Some cn \<and> kind_of (cn_state cn) = Up
            \<and> cn_name cn = client_connName c (client_peer e) \<and> sk_fd (cn_socket cn) = fd
            \<and> cn_closeCallback cn = Some ClientRemove
            \<and> n_chans w' (cn_channel cn) = Some ch \<and> ch_index ch = KAdded))"
    unfolding r using n
  proof (rule ends_mono)
    fix w'
    assume w': "client_ok w' \<and> connector_at Cleaning w' \<and> ct w' = ct w1 \<and> client_connected c fd e w'"
    then have "shape Cleaning w'" using connector_atD(2) by blast
    then show "ct_open w' = [] \<and> ct_state (ct w') = cConnected
       \<and> cl w' = Some (c\<lparr>cl_nextConnId := cl_nextConnId c + 1, cl_connection := Some (re_conn e)\<rparr>)
       \<and> (\<exists>cn ch. cn_conns w' (re_conn e) = Some cn \<and> kind_of (cn_state cn) = Up
            \<and> cn_name cn = client_connName c (client_peer e) \<and> sk_fd (cn_socket cn) = fd
            \<and> cn_closeCallback cn = Some ClientRemove
            \<and> n_chans w' (cn_channel cn) = Some ch \<and> ch_index ch = KAdded)"
      using w' w1(6) by (auto simp: client_connected_def is_up_def same_place_def)
  qed
  from ends_wider [OF this, of "{OutOfRange, BadAlloc, BadFunctionCall, Misuse, SignedOverflow}"]
  show ?thesis by (intro exI [of _ fd] conjI w1(1)) blast
qed

theorem client_gets_connected_witness:
  "\<exists>fd. ct_open sample_trying = [fd] \<and> ends {OutOfRange, BadAlloc, BadFunctionCall, Misuse, SignedOverflow}
      (run_client_handler quiet invalid ConnectorHandleWrite sample_trying)
    (\<lambda>w'. ct_open w' = [] \<and> (\<exists>c. cl w' = Some c \<and> cl_connection c = Some 7)
      \<and> (\<exists>cn. cn_conns w' 7 = Some cn \<and> kind_of (cn_state cn) = Up \<and> sk_fd (cn_socket cn) = fd))"
proof -
  have c: "cl sample_trying = Some (mk_client ''c'')" "ct_connect (ct sample_trying)"
    "ct_newConnectionCallback (ct sample_trying)" "sample_result = next_result sample_trying"
    "places_free sample_result sample_trying"
    by (simp_all add: sample_trying_def Let_def next_result_def places_free_def sample_result_def no_result_def)
  have e: "re_error sample_result = 0" "\<not> isSelfConnect (re_local sample_result) (re_peer sample_result)"
    by (simp_all add: sample_result_def no_result_def isSelfConnect_def getLocalAddr_def
        getPeerAddr_def as_sockaddr_in_def AF_INET_def htons_def)
  have r: "re_conn sample_result = 7" by (simp add: sample_result_def)
  note up = client_gets_connected [OF sample_trying_at c(1) quiet_is_local c(2-4) e c(5), of invalid]
  show ?thesis
    by (rule exE [OF up], elim conjE, rule exI, rule conjI, assumption, erule ends_mono) (auto simp: r)
qed

section \<open>A new client\<close>

lemma new_client_at:
  assumes inv: "conn_inv w" "registered_up w" "n_loops w l = Some el" "threadId el = n_tid w"
    "timerQueue el = None" "FResetChannel \<notin> set (pendingFunctors el)" "ct_open w = []" and app: "local_app app"
  shows "client_of app (new_client l addr nm w)" "connector_at Idle (new_client l addr nm w)"
proof -
  let ?w = "new_client l addr nm w"
  have same: "n_loops ?w = n_loops w" "n_chans ?w = n_chans w" "cn_conns ?w = cn_conns w" "cn_strings ?w = cn_strings w"
    "n_tid ?w = n_tid w" "cl ?w = Some (mk_client nm)" "ct_open ?w = ct_open w"
    "ct ?w = (mk_connector l addr)\<lparr>ct_newConnectionCallback := True\<rparr>"
    by (simp_all add: new_client_def put_client_def)
  have a: "apart w ?w" by (rule apart_cong [OF conn_inv_net [OF inv(1)] same(1-4)])
  show "client_of app ?w" using apart_registered_up [OF inv(2) a] same app by (simp add: client_of_def client_ok_def)
  show "connector_at Idle ?w"
    by (rule connector_atI [OF inv(1) a, of _ el]) (use inv(3-7) same in \<open>simp_all add: home_def mk_connector_def count_list_0_iff\<close>)
qed

section \<open>The end of a client\<close>

text \<open>
  C38. The destructor of a client without a connection, in the thread of its loop: it stops the
  connector and then asks the loop for a timer, through the timer queue that the loop does not have.
\<close>

theorem client_destructor_needs_timers:
  assumes "connector_at ph w" "cl w = Some c" "cl_connection c = None"
  shows "destroy_client unique w = Inl NullPointer"
proof -
  let ?w = "upd_connector (\<lambda>c. c\<lparr>ct_connect := False\<rparr>) w"
  have at: "connector_at ph ?w" by (rule connector_at_wish [OF assms(1)])
  have stop: "connector_stop w = stopInLoop ?w"
    using connector_at_here [OF at] by (simp add: connector_stop_def runInLoop_def)
  obtain w1 where w1: "stopInLoop ?w = Inr w1" "connector_at (if ph = Trying then Cleaning else ph) w1"
    using stopInLoop_branches [OF at] by (auto simp: returns_iff)
  obtain el n where "home n el w1" using w1(2) by (rule connector_at_home)
  then have "n_loops w1 (ct_loop (ct w1)) = Some el" "timerQueue el = None" by (simp_all add: home_def)
  then show ?thesis using assms stop w1(1)
    by (cases "next_time w1") (simp add: destroy_client_def get_client_def runAfter_def runAt_def tq_addTimer_def with_timers_def)
qed

theorem client_destructor_needs_timers_witness:
  "destroy_client True sample_trying = Inl NullPointer"
  by (rule client_destructor_needs_timers [OF sample_trying_at(1), of "mk_client ''c''"])
    (simp_all add: sample_trying_def Let_def mk_client_def)

end
