(* ===== verification/EventLoopThread.thy ===== *)
theory EventLoopThread
  imports EventLoopThreadPool
begin

text \<open>
  EventLoopThread.h, EventLoopThread.cc, Thread.h and Thread.cc: the hand-over of a loop from the
  thread that runs it to the thread that asked for it, and the end of both. The owner's calls
  (\<open>startLoop\<close>, the destructor) and the function of the new thread are cut into the steps that
  another thread can come between; every interleaving of the two is a run of \<open>et_step\<close>. That the
  constructor of the loop or its thread fails ends the process and is not a run.
\<close>

section \<open>Thread\<close>

record thread =
  th_started :: bool
  th_joined :: bool
  th_tid :: nat
  th_name :: string

text \<open>\<open>numCreated_\<close> is counted up; an empty name becomes \<open>Thread<n>\<close>.\<close>

definition setDefaultName :: "int \<Rightarrow> thread \<Rightarrow> int \<times> thread" where
  "setDefaultName numCreated th =
     (let num = numCreated + 1 in
      (num, if th_name th = [] then th\<lparr>th_name := snprintf 32 (''Thread'' @ decimal_int num)\<rparr> else th))"

definition mk_thread :: "int \<Rightarrow> string \<Rightarrow> int \<times> thread" where
  "mk_thread numCreated nm =
     setDefaultName numCreated \<lparr>th_started = False, th_joined = False, th_tid = 0, th_name = nm\<rparr>"

text \<open>
  The owner's part of \<open>start\<close> up to the semaphore, the new thread's part before \<open>func_\<close>, and \<open>join\<close> before it
  blocks.
\<close>

definition thread_start :: "thread \<Rightarrow> thread" where
  "thread_start th = th\<lparr>th_started := True\<rparr>"

definition thread_begin :: "nat \<Rightarrow> thread \<Rightarrow> thread" where
  "thread_begin tid th = th\<lparr>th_tid := tid\<rparr>"

definition thread_join :: "thread \<Rightarrow> thread" where
  "thread_join th = th\<lparr>th_joined := True\<rparr>"

text \<open>The destructor detaches a thread that was started and not joined.\<close>

definition detaches :: "thread \<Rightarrow> bool" where
  "detaches th \<longleftrightarrow> th_started th \<and> \<not> th_joined th"

section \<open>The state of the two threads\<close>

text \<open>
  Where the owner is: before \<open>startLoop\<close>, at the semaphore of \<open>Thread::start\<close>, before the test of
  the waiting loop, in \<open>cond_.wait\<close>, after \<open>startLoop\<close>; in the destructor after the test of \<open>loop_\<close>, between
  the two parts of \<open>quit\<close>, at the join, at the end; \<open>Crashed\<close> is the use of a destroyed loop.
\<close>

datatype owner_at = New | AtSem | CheckLoop | Waiting | Returned | AtQuit | AtWakeup | Joining
  | Destroyed | Crashed

text \<open>
  Where the new thread is: not yet created, before \<open>sem_post\<close>, before the loop and the callback,
  before \<open>loop_ = &loop\<close>, before \<open>loop()\<close>, in it, after it, and done.
\<close>

datatype thread_at = NoThread | Begin | Init | Publish | EnterLoop | Looping | LeaveLoop | Done

record et_state =
  et_owner :: owner_at
  et_at :: thread_at
  et_thread :: thread
  et_sem :: nat
  et_ptr :: bool
  et_loop :: "evloop option"
  et_exiting :: bool
  et_inited :: bool

definition mk_event_loop_thread :: "int \<Rightarrow> string \<Rightarrow> et_state" where
  "mk_event_loop_thread numCreated nm = \<lparr>et_owner = New, et_at = NoThread,
     et_thread = snd (mk_thread numCreated nm), et_sem = 0, et_ptr = False, et_loop = None,
     et_exiting = False, et_inited = False\<rparr>"

section \<open>The steps\<close>

text \<open>
  \<open>startLoop\<close>: \<open>Thread::start\<close> creates the thread and waits for its id, then the owner waits until
  the loop is published. A wait may also end for no reason (\<open>spurious\<close>).
\<close>

inductive startLoop_step :: "et_state \<Rightarrow> et_state \<Rightarrow> bool" where
  spawn: "et_owner s = New \<Longrightarrow> startLoop_step s (s\<lparr>et_owner := AtSem, et_at := Begin,
     et_thread := thread_start (et_thread s)\<rparr>)"
| sem_wait: "et_owner s = AtSem \<Longrightarrow> 0 < et_sem s \<Longrightarrow>
     startLoop_step s (s\<lparr>et_owner := CheckLoop, et_sem := et_sem s - 1\<rparr>)"
| found: "et_owner s = CheckLoop \<Longrightarrow> et_ptr s \<Longrightarrow> startLoop_step s (s\<lparr>et_owner := Returned\<rparr>)"
| not_found: "et_owner s = CheckLoop \<Longrightarrow> \<not> et_ptr s \<Longrightarrow> startLoop_step s (s\<lparr>et_owner := Waiting\<rparr>)"

inductive spurious :: "et_state \<Rightarrow> et_state \<Rightarrow> bool" where
  "et_owner s = Waiting \<Longrightarrow> spurious s (s\<lparr>et_owner := CheckLoop\<rparr>)"

text \<open>
  \<open>threadFunc\<close>, with the loop of the theory Reactor at its start and the flags that \<open>loop()\<close> sets;
  \<open>tid\<close>, \<open>p\<close>, \<open>fd\<close> and \<open>c\<close> are the thread's id and what the constructor of the loop gets.
\<close>

inductive threadFunc_step :: "et_state \<Rightarrow> et_state \<Rightarrow> bool" where
  sem_post: "et_at s = Begin \<Longrightarrow> threadFunc_step s (s\<lparr>et_at := Init, et_sem := et_sem s + 1,
     et_thread := thread_begin tid (et_thread s)\<rparr>)"
| construct: "et_at s = Init \<Longrightarrow> threadFunc_step s (s\<lparr>et_at := Publish, et_inited := True,
     et_loop := Some (mk_loop (th_tid (et_thread s)) p fd c)\<rparr>)"
| publish: "et_at s = Publish \<Longrightarrow> threadFunc_step s (s\<lparr>et_at := EnterLoop, et_ptr := True,
     et_owner := (if et_owner s = Waiting then CheckLoop else et_owner s)\<rparr>)"
| enter: "et_at s = EnterLoop \<Longrightarrow> et_loop s = Some el \<Longrightarrow>
     threadFunc_step s (s\<lparr>et_at := Looping, et_loop := Some (el\<lparr>looping := True, quit_flag := False\<rparr>)\<rparr>)"
| leave: "et_at s = Looping \<Longrightarrow> et_loop s = Some el \<Longrightarrow> quit_flag el \<Longrightarrow>
     threadFunc_step s (s\<lparr>et_at := LeaveLoop, et_loop := Some (el\<lparr>looping := False\<rparr>)\<rparr>)"
| return: "et_at s = LeaveLoop \<Longrightarrow> threadFunc_step s (s\<lparr>et_at := Done, et_ptr := False, et_loop := None\<rparr>)"

text \<open>The destructor, at any time outside \<open>startLoop\<close>.\<close>

inductive destroy_step :: "et_state \<Rightarrow> et_state \<Rightarrow> bool" where
  destroy: "et_owner s \<in> {New, Returned} \<Longrightarrow>
     destroy_step s (s\<lparr>et_exiting := True, et_owner := (if et_ptr s then AtQuit else Destroyed)\<rparr>)"
| quit: "et_owner s = AtQuit \<Longrightarrow> et_loop s = Some el \<Longrightarrow>
     destroy_step s (s\<lparr>et_owner := AtWakeup, et_loop := Some (el\<lparr>quit_flag := True\<rparr>)\<rparr>)"
| wakeup: "et_owner s = AtWakeup \<Longrightarrow> et_loop s = Some el \<Longrightarrow>
     destroy_step s (s\<lparr>et_owner := Joining, et_loop := Some (write_eventfd el),
       et_thread := thread_join (et_thread s)\<rparr>)"
| dangling: "et_owner s = AtWakeup \<Longrightarrow> et_loop s = None \<Longrightarrow> destroy_step s (s\<lparr>et_owner := Crashed\<rparr>)"
| join: "et_owner s = Joining \<Longrightarrow> et_at s = Done \<Longrightarrow> destroy_step s (s\<lparr>et_owner := Destroyed\<rparr>)"

definition et_step :: "et_state \<Rightarrow> et_state \<Rightarrow> bool" where
  "et_step s s' \<longleftrightarrow> startLoop_step s s' \<or> threadFunc_step s s' \<or> destroy_step s s'"

inductive et_reachable :: "et_state \<Rightarrow> bool" where
  created: "et_reachable (mk_event_loop_thread numCreated nm)"
| steps: "et_reachable s \<Longrightarrow> et_step s s' \<or> spurious s s' \<Longrightarrow> et_reachable s'"

inductive_cases startLoopE: "startLoop_step s s'"
inductive_cases threadFuncE: "threadFunc_step s s'"
inductive_cases destroyE: "destroy_step s s'"
inductive_cases spuriousE: "spurious s s'"

section \<open>The invariant\<close>

lemmas thread_defs = thread_start_def thread_begin_def thread_join_def

definition et_inv :: "et_state \<Rightarrow> bool" where
  "et_inv s \<longleftrightarrow>
     (et_at s = NoThread \<longrightarrow> et_owner s \<in> {New, Destroyed})
   \<and> (et_owner s = New \<longrightarrow> et_at s = NoThread)
   \<and> (et_owner s = AtSem \<longrightarrow> et_at s \<in> {Begin, Init, Publish, EnterLoop, Looping} \<and> (0 < et_sem s \<longleftrightarrow> et_at s \<noteq> Begin))
   \<and> (et_owner s = CheckLoop \<longrightarrow> et_at s \<in> {Init, Publish, EnterLoop, Looping})
   \<and> (et_owner s = Waiting \<longrightarrow> et_at s \<in> {Init, Publish})
   \<and> (et_owner s \<in> {Returned, AtQuit} \<longrightarrow> et_at s \<in> {EnterLoop, Looping})
   \<and> (et_owner s \<in> {AtWakeup, Joining} \<longrightarrow> et_at s \<in> {EnterLoop, Looping, LeaveLoop, Done})
   \<and> (et_at s \<in> {NoThread, Begin} \<longrightarrow> et_sem s = 0)
   \<and> (et_ptr s \<longleftrightarrow> et_at s \<in> {EnterLoop, Looping, LeaveLoop})
   \<and> (et_loop s \<noteq> None \<longleftrightarrow> et_at s \<in> {Publish, EnterLoop, Looping, LeaveLoop})
   \<and> (et_inited s \<longleftrightarrow> et_at s \<in> {Publish, EnterLoop, Looping, LeaveLoop, Done})
   \<and> (\<forall>el. et_loop s = Some el \<and> et_owner s \<in> {New, AtSem, CheckLoop, Waiting, Returned, AtQuit} \<longrightarrow>
        \<not> quit_flag el \<and> threadId el = th_tid (et_thread s))"

lemma et_inv_startLoop: "et_inv s \<Longrightarrow> startLoop_step s s' \<Longrightarrow> et_inv s'"
  by (erule startLoopE) (auto simp: et_inv_def)

lemma et_inv_thread: "et_inv s \<Longrightarrow> threadFunc_step s s' \<Longrightarrow> et_inv s'"
  by (erule threadFuncE) (auto simp: et_inv_def mk_loop_def thread_defs)

lemma et_inv_destroy: "et_inv s \<Longrightarrow> destroy_step s s' \<Longrightarrow> et_inv s'"
  by (erule destroyE; cases "et_at s") (simp_all add: et_inv_def thread_defs)

lemma et_inv_spurious: "et_inv s \<Longrightarrow> spurious s s' \<Longrightarrow> et_inv s'"
  by (erule spuriousE) (auto simp: et_inv_def)

lemma et_reachable_inv: "et_reachable s \<Longrightarrow> et_inv s"
proof (induction rule: et_reachable.induct)
  case (created n nm)
  then show ?case by (simp add: et_inv_def mk_event_loop_thread_def)
next
  case (steps s s')
  then show ?case
    using et_inv_startLoop et_inv_thread et_inv_destroy et_inv_spurious unfolding et_step_def by blast
qed

section \<open>Starting\<close>

text \<open>What is left to do until \<open>startLoop\<close> returns.\<close>

fun thread_work :: "thread_at \<Rightarrow> nat" where
  "thread_work NoThread = 7"
| "thread_work Begin = 6"
| "thread_work Init = 5"
| "thread_work Publish = 4"
| "thread_work EnterLoop = 3"
| "thread_work Looping = 2"
| "thread_work LeaveLoop = 1"
| "thread_work Done = 0"

fun owner_work :: "owner_at \<Rightarrow> nat" where
  "owner_work AtSem = 3"
| "owner_work CheckLoop = 2"
| "owner_work Waiting = 1"
| "owner_work _ = 0"

definition start_work :: "et_state \<Rightarrow> nat" where
  "start_work s = 3 * thread_work (et_at s) + owner_work (et_owner s)"

lemma start_work_less:
  assumes "et_inv s" "et_step s s'" "et_owner s \<in> {AtSem, CheckLoop, Waiting}"
  shows "start_work s' < start_work s"
  using assms unfolding et_step_def
  by (elim disjE; elim startLoopE threadFuncE destroyE) (auto simp: start_work_def)

lemma start_progress:
  assumes inv: "et_inv s" and o: "et_owner s \<in> {AtSem, CheckLoop, Waiting}"
  shows "\<exists>s'. et_step s s'"
proof -
  consider "et_at s = Begin" | "et_owner s = AtSem" "0 < et_sem s" | "et_owner s = CheckLoop"
    | "et_at s = Init" | "et_at s = Publish"
    using inv o by (cases "et_owner s"; cases "et_at s") (simp_all add: et_inv_def)
  then show ?thesis unfolding et_step_def
    by cases (blast intro: threadFunc_step.sem_post threadFunc_step.construct threadFunc_step.publish
        startLoop_step.sem_wait startLoop_step.found startLoop_step.not_found)+
qed

text \<open>
  C16. \<open>startLoop\<close> returns: as long as it has not, one of the two threads can go on, and every step of
  either brings its return nearer (the count of steps left is bounded), so that no order of the two
  threads, no early notification and no late one blocks it. When it has returned, and until the
  destructor runs, the owner has the loop of the new thread: constructed in that thread, with the
  init callback run, alive, and not told to quit.
\<close>

theorem startLoop_hands_over:
  assumes "et_reachable s"
  shows "(et_owner s \<in> {AtSem, CheckLoop, Waiting} \<longrightarrow>
       (\<exists>s'. et_step s s') \<and> (\<forall>s'. et_step s s' \<longrightarrow> start_work s' < start_work s))
     \<and> (et_owner s = Returned \<longrightarrow> et_ptr s \<and> et_inited s
       \<and> (\<exists>el. et_loop s = Some el \<and> threadId el = th_tid (et_thread s) \<and> \<not> quit_flag el))"
proof -
  have inv: "et_inv s" by (rule et_reachable_inv [OF assms])
  have "et_ptr s \<and> et_inited s \<and> (\<exists>el. et_loop s = Some el \<and> threadId el = th_tid (et_thread s) \<and> \<not> quit_flag el)"
    if "et_owner s = Returned"
    using inv that unfolding et_inv_def by (cases "et_loop s"; cases "et_at s") simp_all
  then show ?thesis using start_progress [OF inv] start_work_less [OF inv] by blast
qed

section \<open>Ending\<close>

text \<open>The join can never return: the loop was told to quit before it started.\<close>

definition quit_lost :: "et_state \<Rightarrow> bool" where
  "quit_lost s \<longleftrightarrow> et_owner s = Joining
     \<and> (et_at s = EnterLoop \<or> et_at s = Looping \<and> (\<forall>el. et_loop s = Some el \<longrightarrow> \<not> quit_flag el))"

lemma quit_lost_step: "quit_lost s \<Longrightarrow> et_step s s' \<Longrightarrow> quit_lost s'"
  unfolding et_step_def
  by (elim disjE; elim startLoopE threadFuncE destroyE) (auto simp: quit_lost_def)

lemma quit_lost_forever: "et_step\<^sup>*\<^sup>* s s' \<Longrightarrow> quit_lost s \<Longrightarrow> quit_lost s'"
  by (induction rule: rtranclp_induct) (auto intro: quit_lost_step)

lemma step_to:
  "threadFunc_step s s' \<Longrightarrow> et_step\<^sup>*\<^sup>* s' t \<Longrightarrow> et_step\<^sup>*\<^sup>* s t"
  "destroy_step s s' \<Longrightarrow> et_step\<^sup>*\<^sup>* s' t \<Longrightarrow> et_step\<^sup>*\<^sup>* s t"
  by (auto simp: et_step_def intro: converse_rtranclp_into_rtranclp)

text \<open>
  C15. The destructor's \<open>join\<close> returns exactly when the loop has seen the call of \<open>quit\<close>: when it is in
  its rounds with the flag set, or behind them. When the new thread had not yet entered \<open>loop()\<close>,
  which clears the flag at its start, the call is lost and no run of the two threads lets the join
  return.
\<close>

theorem join_returns_iff:
  assumes "et_reachable s" "et_owner s = Joining"
  shows "(\<exists>s'. et_step\<^sup>*\<^sup>* s s' \<and> et_owner s' = Destroyed) \<longleftrightarrow>
     et_at s \<in> {LeaveLoop, Done} \<or> et_at s = Looping \<and> (\<exists>el. et_loop s = Some el \<and> quit_flag el)"
proof
  have inv: "et_inv s" by (rule et_reachable_inv [OF assms(1)])
  assume "\<exists>s'. et_step\<^sup>*\<^sup>* s s' \<and> et_owner s' = Destroyed"
  then have "\<not> quit_lost s" using quit_lost_forever by (fastforce simp: quit_lost_def)
  then show "et_at s \<in> {LeaveLoop, Done} \<or> et_at s = Looping \<and> (\<exists>el. et_loop s = Some el \<and> quit_flag el)"
    using inv assms(2) unfolding et_inv_def quit_lost_def by (elim conjE) auto
next
  have fin: "\<exists>s'. et_step\<^sup>*\<^sup>* s s' \<and> et_owner s' = Destroyed" if "et_owner s = Joining" "et_at s = Done" for s
    using step_to(2) [OF destroy_step.join [OF that] rtranclp.rtrancl_refl]
    by (intro exI [of _ "s\<lparr>et_owner := Destroyed\<rparr>"] conjI) simp_all
  have ret: "\<exists>s'. et_step\<^sup>*\<^sup>* s s' \<and> et_owner s' = Destroyed" if h: "et_owner s = Joining" "et_at s = LeaveLoop" for s
  proof -
    let ?x = "s\<lparr>et_at := Done, et_ptr := False, et_loop := None\<rparr>"
    obtain t where "et_step\<^sup>*\<^sup>* ?x t" "et_owner t = Destroyed" using fin [of ?x] h by auto
    then show ?thesis using step_to(1) [OF threadFunc_step.return [OF h(2)]] by blast
  qed
  assume "et_at s \<in> {LeaveLoop, Done} \<or> et_at s = Looping \<and> (\<exists>el. et_loop s = Some el \<and> quit_flag el)"
  then consider "et_at s = Done" | "et_at s = LeaveLoop" | el where "et_at s = Looping" "et_loop s = Some el" "quit_flag el"
    by blast
  then show "\<exists>s'. et_step\<^sup>*\<^sup>* s s' \<and> et_owner s' = Destroyed"
  proof cases
    case (3 el)
    let ?x = "s\<lparr>et_at := LeaveLoop, et_loop := Some (el\<lparr>looping := False\<rparr>)\<rparr>"
    obtain t where "et_step\<^sup>*\<^sup>* ?x t" "et_owner t = Destroyed" using ret [of ?x] assms(2) by auto
    then show ?thesis using step_to(1) [OF threadFunc_step.leave [OF 3]] by blast
  qed (use assms(2) fin ret in blast)+
qed

section \<open>Runs\<close>

lemma reach_thread: "et_reachable s \<Longrightarrow> threadFunc_step s s' \<Longrightarrow> et_reachable s'"
  and reach_start: "et_reachable s \<Longrightarrow> startLoop_step s s' \<Longrightarrow> et_reachable s'"
  and reach_destroy: "et_reachable s \<Longrightarrow> destroy_step s s' \<Longrightarrow> et_reachable s'"
  by (auto simp: et_step_def intro: et_reachable.steps)

definition sample_thread :: "bool \<Rightarrow> bool \<Rightarrow> nat \<Rightarrow> thread" where
  "sample_thread started joined tid = \<lparr>th_started = started, th_joined = joined, th_tid = tid, th_name = ''t''\<rparr>"

definition sample_et :: "owner_at \<Rightarrow> thread_at \<Rightarrow> thread \<Rightarrow> nat \<Rightarrow> bool \<Rightarrow> evloop option \<Rightarrow> bool \<Rightarrow> bool \<Rightarrow> et_state" where
  "sample_et ow a th n p el ex i = \<lparr>et_owner = ow, et_at = a, et_thread = th, et_sem = n, et_ptr = p, et_loop = el,
     et_exiting = ex, et_inited = i\<rparr>"

abbreviation "sample_new \<equiv> mk_loop 2 (mk_poller (\<lambda>_ _. False)) 3 4"

lemma sample_waiting_reachable:
  "et_reachable (sample_et Waiting Publish (sample_thread True False 2) 0 False (Some sample_new) False True)"
proof -
  note defs = sample_et_def sample_thread_def thread_defs
  have "et_reachable (sample_et New NoThread (sample_thread False False 0) 0 False None False False)"
    using et_reachable.created [of 0 "''t''"]
    by (simp add: defs mk_event_loop_thread_def mk_thread_def setDefaultName_def Let_def)
  from reach_start [OF this startLoop_step.spawn]
  have "et_reachable (sample_et AtSem Begin (sample_thread True False 0) 0 False None False False)" by (simp add: defs)
  from reach_thread [OF this threadFunc_step.sem_post [where tid = 2]]
  have "et_reachable (sample_et AtSem Init (sample_thread True False 2) 1 False None False False)" by (simp add: defs)
  from reach_start [OF this startLoop_step.sem_wait]
  have "et_reachable (sample_et CheckLoop Init (sample_thread True False 2) 0 False None False False)" by (simp add: defs)
  from reach_start [OF this startLoop_step.not_found]
  have "et_reachable (sample_et Waiting Init (sample_thread True False 2) 0 False None False False)" by (simp add: defs)
  from reach_thread [OF this threadFunc_step.construct [where p = "mk_poller (\<lambda>_ _. False)" and fd = 3 and c = 4]]
  show ?thesis by (simp add: defs)
qed

lemma sample_returned_reachable:
  "et_reachable (sample_et Returned EnterLoop (sample_thread True False 2) 0 True (Some sample_new) False True)"
proof -
  from reach_thread [OF sample_waiting_reachable threadFunc_step.publish]
  have "et_reachable (sample_et CheckLoop EnterLoop (sample_thread True False 2) 0 True (Some sample_new) False True)"
    by (simp add: sample_et_def)
  from reach_start [OF this startLoop_step.found] show ?thesis by (simp add: sample_et_def)
qed

theorem startLoop_hands_over_witness:
  "\<exists>s. et_reachable s \<and> et_owner s = Waiting \<and> (\<exists>s'. et_step s s') \<and> (\<forall>s'. et_step s s' \<longrightarrow> start_work s' < start_work s)"
proof -
  let ?s = "sample_et Waiting Publish (sample_thread True False 2) 0 False (Some sample_new) False True"
  have "et_owner ?s = Waiting" by (simp add: sample_et_def)
  then show ?thesis
    using sample_waiting_reachable startLoop_hands_over [OF sample_waiting_reachable] by (intro exI [of _ ?s]) simp
qed

text \<open>The destructor right after \<open>startLoop\<close>, before the new thread enters \<open>loop()\<close>.\<close>

lemma sample_quit_reachable:
  "et_reachable (sample_et AtQuit EnterLoop (sample_thread True False 2) 0 True (Some sample_new) True True)"
  using reach_destroy [OF sample_returned_reachable destroy_step.destroy] by (simp add: sample_et_def)

definition sample_lost :: et_state where
  "sample_lost = sample_et Joining EnterLoop (sample_thread True True 2) 0 True
     (Some (write_eventfd (sample_new\<lparr>quit_flag := True\<rparr>))) True True"

lemma sample_lost_reachable: "et_reachable sample_lost"
proof -
  from reach_destroy [OF sample_quit_reachable destroy_step.quit [where el = sample_new]]
  have "et_reachable (sample_et AtWakeup EnterLoop (sample_thread True False 2) 0 True (Some (sample_new\<lparr>quit_flag := True\<rparr>)) True True)"
    by (simp add: sample_et_def)
  from reach_destroy [OF this destroy_step.wakeup [where el = "sample_new\<lparr>quit_flag := True\<rparr>"]]
  show ?thesis by (simp add: sample_lost_def sample_et_def sample_thread_def thread_defs)
qed

theorem join_returns_iff_witness: "\<not> (\<exists>s'. et_step\<^sup>*\<^sup>* sample_lost s' \<and> et_owner s' = Destroyed)"
  using join_returns_iff [OF sample_lost_reachable] by (simp add: sample_lost_def sample_et_def)

text \<open>
  The other end of the race: \<open>quit()\<close> sets the flag, the loop ends and is destroyed with its thread's
  stack, and \<open>quit()\<close> then wakes it up.
\<close>

lemma quit_uses_destroyed_loop: "\<exists>s. et_reachable s \<and> et_owner s = Crashed"
proof -
  let ?started = "sample_new\<lparr>looping := True, quit_flag := False\<rparr>" and ?told = "sample_new\<lparr>looping := True, quit_flag := True\<rparr>"
  let ?th = "sample_thread True False 2"
  from reach_thread [OF sample_quit_reachable threadFunc_step.enter [where el = sample_new]]
  have "et_reachable (sample_et AtQuit Looping ?th 0 True (Some ?started) True True)" by (simp add: sample_et_def)
  from reach_destroy [OF this destroy_step.quit [where el = ?started]]
  have "et_reachable (sample_et AtWakeup Looping ?th 0 True (Some ?told) True True)" by (simp add: sample_et_def)
  from reach_thread [OF this threadFunc_step.leave [where el = ?told]]
  have "et_reachable (sample_et AtWakeup LeaveLoop ?th 0 True (Some (?told\<lparr>looping := False\<rparr>)) True True)"
    by (simp add: sample_et_def)
  from reach_thread [OF this threadFunc_step.return]
  have "et_reachable (sample_et AtWakeup Done ?th 0 False None True True)" by (simp add: sample_et_def)
  from reach_destroy [OF this destroy_step.dangling]
  have "et_reachable (sample_et Crashed Done ?th 0 False None True True)" by (simp add: sample_et_def)
  then show ?thesis by (intro exI [of _ "sample_et Crashed Done ?th 0 False None True True"]) (simp add: sample_et_def)
qed

end
