(* ===== verification/Logger.thy ===== *)
theory Logger
  imports InetAddress Timestamp
begin

text \<open>
  Logger.h, Logger.cc and the text of a Timestamp: what the macros write to the standard output.
  \<open>localtime\<close> is the environment: a macro gets the broken-down time. A format with its arguments is
  the text it produces.
\<close>

section \<open>The time\<close>

record tm =
  tm_year :: int
  tm_mon :: int
  tm_mday :: int
  tm_hour :: int
  tm_min :: int
  tm_sec :: int

text \<open>\<open>%4d\<close> and \<open>%02d\<close>; a sign comes before the zeros.\<close>

definition pad :: "char \<Rightarrow> nat \<Rightarrow> string \<Rightarrow> string" where
  "pad c n s = replicate (n - length s) c @ s"

definition spaced :: "nat \<Rightarrow> int \<Rightarrow> string" where
  "spaced n i = pad CHR '' '' n (decimal_int i)"

definition zeroed :: "nat \<Rightarrow> int \<Rightarrow> string" where
  "zeroed n i = (if i < 0 then ''-'' @ pad CHR ''0'' (n - 1) (decimal_int (- i)) else pad CHR ''0'' n (decimal_int i))"

definition toString :: "tm \<Rightarrow> string" where
  "toString t = snprintf 128 (spaced 4 (tm_year t + 1900) @ ''/'' @ zeroed 2 (tm_mon t + 1) @ ''/'' @ zeroed 2 (tm_mday t)
     @ '' '' @ zeroed 2 (tm_hour t) @ '':'' @ zeroed 2 (tm_min t) @ '':'' @ zeroed 2 (tm_sec t))"

section \<open>The logger\<close>

datatype LogLevel = INFO | ERROR | FATAL | DEBUG

record logger =
  logLevel :: LogLevel
  log_out :: string

definition setLogLevel :: "LogLevel \<Rightarrow> logger \<Rightarrow> logger" where
  "setLogLevel level l = l\<lparr>logLevel := level\<rparr>"

text \<open>
  The \<open>switch\<close>: its cases in order, with what they print and whether a \<open>break\<close> follows; without one
  the next case runs as well.
\<close>

definition log_cases :: "(LogLevel \<times> string \<times> bool) list" where
  "log_cases = [(INFO, ''[INFO]'', True), (ERROR, ''[ERROR]'', False), (FATAL, ''[FATAL]'', False),
     (DEBUG, ''[DEBUG]'', False)]"

fun run_cases :: "(LogLevel \<times> string \<times> bool) list \<Rightarrow> string" where
  "run_cases [] = []"
| "run_cases ((level, s, brk) # cs) = s @ (if brk then [] else run_cases cs)"

definition log_tag :: "LogLevel \<Rightarrow> string" where
  "log_tag level = run_cases (dropWhile (\<lambda>c. fst c \<noteq> level) log_cases)"

definition log_message :: "tm \<Rightarrow> string \<Rightarrow> logger \<Rightarrow> logger" where
  "log_message now msg l = l\<lparr>log_out := log_out l @ log_tag (logLevel l) @ toString now @ '' : '' @ msg @ [CHR 0x0A]\<rparr>"

text \<open>
  The four macros. \<open>text\<close> is what the format comes to; the buffer has 1024 characters. LOG_FATAL
  ends the process; LOG_DEBUG is empty unless MUDBUG is defined.
\<close>

definition log_macro :: "bool \<Rightarrow> LogLevel \<times> tm \<times> string \<Rightarrow> logger \<Rightarrow> logger res" where
  "log_macro mudbug = (\<lambda>(level, now, msg) l.
     if level = DEBUG \<and> \<not> mudbug then Inr l
     else
       let l = log_message now (snprintf 1024 msg) (setLogLevel level l) in
       if level = FATAL then Inl (LogFatal (log_out l)) else Inr l)"

section \<open>What is written\<close>

lemma log_tag_simps [simp]:
  "log_tag INFO = ''[INFO]''" "log_tag ERROR = ''[ERROR][FATAL][DEBUG]''" "log_tag FATAL = ''[FATAL][DEBUG]''"
  "log_tag DEBUG = ''[DEBUG]''"
  by (simp_all add: log_tag_def log_cases_def)

definition log_line :: "LogLevel \<times> tm \<times> string \<Rightarrow> string" where
  "log_line = (\<lambda>(level, now, msg). log_tag level @ toString now @ '' : '' @ take 1023 msg @ [CHR 0x0A])"

definition logs :: "bool \<Rightarrow> LogLevel \<times> tm \<times> string \<Rightarrow> bool" where
  "logs mudbug m \<longleftrightarrow> fst m \<noteq> DEBUG \<or> mudbug"

lemma log_macro_eq:
  "log_macro mudbug m l = (if \<not> logs mudbug m then Inr l
     else if fst m = FATAL then Inl (LogFatal (log_out l @ log_line m))
     else Inr (l\<lparr>logLevel := fst m, log_out := log_out l @ log_line m\<rparr>))"
  by (cases m) (auto simp: log_macro_def logs_def log_message_def setLogLevel_def snprintf_def log_line_def Let_def)

text \<open>
  C39. A sequence of log macros in one thread writes one line each, in order: the tag, the time, the
  first 1023 characters of the message; the debug ones only in a debug build. The first LOG_FATAL
  still writes its line and then ends the process, and nothing after it is written. The tag of
  LOG_ERROR is followed by those of the two levels after it, and the tag of LOG_FATAL by that of
  debug, since the cases of the switch fall through.
\<close>

theorem logged_lines:
  assumes "\<forall>m \<in> set ms. fst m \<noteq> FATAL"
  shows "returns (fold_res (log_macro mudbug) ms l)
      (\<lambda>l'. log_out l' = log_out l @ concat (map log_line (filter (logs mudbug) ms)))
   \<and> fold_res (log_macro mudbug) (ms @ (FATAL, now, msg) # rest) l
      = Inl (LogFatal (log_out l @ concat (map log_line (filter (logs mudbug) ms)) @ log_line (FATAL, now, msg)))
   \<and> log_line (ERROR, now, msg) = ''[ERROR][FATAL][DEBUG]'' @ toString now @ '' : '' @ take 1023 msg @ [CHR 0x0A]
   \<and> log_line (FATAL, now, msg) = ''[FATAL][DEBUG]'' @ toString now @ '' : '' @ take 1023 msg @ [CHR 0x0A]"
proof -
  have *: "returns (fold_res (log_macro mudbug) ms l)
      (\<lambda>l'. log_out l' = log_out l @ concat (map log_line (filter (logs mudbug) ms)))"
    using assms
  proof (induction ms arbitrary: l)
    case (Cons m ms)
    then have "returns (fold_res (log_macro mudbug) ms l')
        (\<lambda>x. log_out x = log_out l' @ concat (map log_line (filter (logs mudbug) ms)))" for l' by simp
    from this [of l] this [of "l\<lparr>logLevel := fst m, log_out := log_out l @ log_line m\<rparr>"] Cons.prems
    show ?case by (auto simp: log_macro_eq [of mudbug m l] elim!: returns_mono)
  qed simp
  then obtain l' where l': "fold_res (log_macro mudbug) ms l = Inr l'"
    "log_out l' = log_out l @ concat (map log_line (filter (logs mudbug) ms))" by (auto simp: returns_iff)
  have "fold_res (log_macro mudbug) (ms @ (FATAL, now, msg) # rest) l = Inl (LogFatal (log_out l' @ log_line (FATAL, now, msg)))"
    by (simp add: fold_res_append l'(1) log_macro_eq logs_def)
  then show ?thesis using * l'(2) by (simp add: log_line_def)
qed

definition sample_tm :: tm where
  "sample_tm = \<lparr>tm_year = 124, tm_mon = 0, tm_mday = 2, tm_hour = 3, tm_min = 4, tm_sec = 5\<rparr>"

theorem logged_lines_witness:
  "fold_res (log_macro False) [(INFO, sample_tm, ''a''), (DEBUG, sample_tm, ''b''), (FATAL, sample_tm, ''c''), (INFO, sample_tm, ''d'')]
     \<lparr>logLevel = INFO, log_out = []\<rparr>
   = Inl (LogFatal (''[INFO]'' @ toString sample_tm @ '' : a'' @ [CHR 0x0A] @ ''[FATAL][DEBUG]'' @ toString sample_tm @ '' : c'' @ [CHR 0x0A]))"
  using logged_lines [of "[(INFO, sample_tm, ''a''), (DEBUG, sample_tm, ''b'')]" False "\<lparr>logLevel = INFO, log_out = []\<rparr>"
      sample_tm "''c''" "[(INFO, sample_tm, ''d'')]"]
  by (simp add: log_line_def logs_def)

text \<open>
  The level is a member of the one shared logger: a thread that sets it between the two calls of
  another thread's macro decides the tag of that thread's line.
\<close>

lemma level_race:
  "log_out (log_message now msg (setLogLevel INFO (setLogLevel ERROR l)))
     = log_out l @ ''[INFO]'' @ toString now @ '' : '' @ msg @ [CHR 0x0A]"
  by (simp add: log_message_def setLogLevel_def)

end
