(* ===== verification/Echo.thy ===== *)
theory Echo
  imports Connection_Properties
begin

text \<open>
  The application of example/testserver.cc: an echo server on top of the library. Its callbacks are
  an \<open>app\<close> of the theory TcpConnection; \<open>p\<close> is the address of the string \<open>msg\<close> on the stack of the
  thread. The server of example/muduoServer.cc (\<open>server_app\<close>) does not shut down, and so echoes over
  any number of events. The client of example/muduoClient.cc (\<open>client_app\<close>) sends when it is connected.
\<close>

section \<open>The callbacks\<close>

definition echo_onConnection :: "nat \<Rightarrow> 'a conn_net_scheme \<Rightarrow> api list" where
  "echo_onConnection c w = []"

definition echo_onMessage :: "nat \<Rightarrow> nat \<Rightarrow> 'a conn_net_scheme \<Rightarrow> api list" where
  "echo_onMessage p c w = (case cn_conns w c of None \<Rightarrow> []
     | Some cn \<Rightarrow> (case retrieveAllAsString (cn_inputBuffer cn) of Inl f \<Rightarrow> []
        | Inr (msg, b) \<Rightarrow> [NewString p msg, Retrieve c (readableBytes (cn_inputBuffer cn)), Send c p, Shutdown c,
            FreeString p]))"

fun echo_app :: "nat \<Rightarrow> app_event \<Rightarrow> 'a conn_net_scheme \<Rightarrow> api list" where
  "echo_app p (OnConnection c) w = echo_onConnection c w"
| "echo_app p (OnMessage c t) w = echo_onMessage p c w"
| "echo_app p _ w = []"

definition server_onConnection :: "nat \<Rightarrow> 'a conn_net_scheme \<Rightarrow> api list" where
  "server_onConnection c w = []"

definition server_onMessage :: "nat \<Rightarrow> nat \<Rightarrow> 'a conn_net_scheme \<Rightarrow> api list" where
  "server_onMessage p c w = (case cn_conns w c of None \<Rightarrow> []
     | Some cn \<Rightarrow> (case retrieveAllAsString (cn_inputBuffer cn) of Inl f \<Rightarrow> []
        | Inr (msg, b) \<Rightarrow> [NewString p msg, Retrieve c (readableBytes (cn_inputBuffer cn)), Send c p, FreeString p]))"

fun server_app :: "nat \<Rightarrow> app_event \<Rightarrow> 'a conn_net_scheme \<Rightarrow> api list" where
  "server_app p (OnConnection c) w = server_onConnection c w"
| "server_app p (OnMessage c t) w = server_onMessage p c w"
| "server_app p _ w = []"

text \<open>
  The client of example/muduoClient.cc sends a greeting from a temporary string when it is connected,
  and drops what comes back.
\<close>

definition greeting :: "byte list" where
  "greeting = map of_char ''Hello, muduo!''"

definition client_onConnection :: "nat \<Rightarrow> nat \<Rightarrow> 'a conn_net_scheme \<Rightarrow> api list" where
  "client_onConnection p c w = (case cn_conns w c of None \<Rightarrow> []
     | Some cn \<Rightarrow> if connected cn then [NewString p greeting, Send c p, FreeString p] else [])"

definition client_onMessage :: "nat \<Rightarrow> 'a conn_net_scheme \<Rightarrow> api list" where
  "client_onMessage c w = (case cn_conns w c of None \<Rightarrow> []
     | Some cn \<Rightarrow> (case retrieveAllAsString (cn_inputBuffer cn) of Inl f \<Rightarrow> []
        | Inr (msg, b) \<Rightarrow> [Retrieve c (readableBytes (cn_inputBuffer cn))]))"

fun client_app :: "nat \<Rightarrow> app_event \<Rightarrow> 'a conn_net_scheme \<Rightarrow> api list" where
  "client_app p (OnConnection c) w = client_onConnection p c w"
| "client_app p (OnMessage c t) w = client_onMessage c w"
| "client_app p _ w = []"

section \<open>One message\<close>

lemma retrieveAllAsString_ok:
  assumes "wf_buffer b"
  shows "retrieveAllAsString b = Inr (content b, retrieve (readableBytes b) b)"
    "content (retrieve (readableBytes b) b) = []"
proof -
  note d = wf_bufferD [OF assms]
  have "unat (readerIndex b) + unat (readableBytes b) \<le> length (vec b)"
    using d by (simp add: readableBytes_nat [OF assms] length_content [OF assms])
  then show "retrieveAllAsString b = Inr (content b, retrieve (readableBytes b) b)"
    using d by (simp add: retrieveAllAsString_def reteieveAsString_def content_def segment_def readableBytes_nat [OF assms])
  show "content (retrieve (readableBytes b) b) = []"
    by (simp add: retrieve_def retrieveAll_def content_def segment_def)
qed

text \<open>A message sent in the thread of the connection goes behind what was sent or waits.\<close>

definition answered :: "nat \<Rightarrow> byte list \<Rightarrow> 'a conn_net_scheme \<Rightarrow> conn \<Rightarrow> 'a conn_net_scheme \<Rightarrow> conn \<Rightarrow> bool" where
  "answered c msg w cn w' cn' \<longleftrightarrow> conn_inv w' \<and> cn_conns w' c = Some cn'
     \<and> cn' = cn\<lparr>cn_socket := cn_socket cn', cn_outputBuffer := cn_outputBuffer cn'\<rparr> \<and> same_place cn cn'
     \<and> n_tid w' = n_tid w \<and> cn_trace w' = cn_trace w \<and> cn_strings w' = cn_strings w
     \<and> (\<exists>el. n_loops w' (cn_loop cn) = Some el \<and> threadId el = n_tid w)
     \<and> sk_sent (cn_socket cn') = sk_sent (cn_socket cn) @ take (taken cn msg) msg
     \<and> pending_out cn' = pending_out cn @ drop (taken cn msg) msg
     \<and> stream cn' = stream cn @ msg \<and> room_left (length msg) (cn_outputBuffer cn) (cn_outputBuffer cn')
     \<and> sk_reads (cn_socket cn') = sk_reads (cn_socket cn)
     \<and> set (sk_writes (cn_socket cn')) \<subseteq> set (sk_writes (cn_socket cn))"

text \<open>An echo also empties the input buffer; the message is in the memory at \<open>p\<close>.\<close>

definition echoed :: "nat \<Rightarrow> nat \<Rightarrow> byte list \<Rightarrow> 'a conn_net_scheme \<Rightarrow> conn \<Rightarrow> 'a conn_net_scheme \<Rightarrow> conn \<Rightarrow> bool" where
  "echoed c p msg w cn w' cn' \<longleftrightarrow> conn_inv w' \<and> cn_conns w' c = Some cn'
     \<and> cn' = cn\<lparr>cn_socket := cn_socket cn', cn_inputBuffer := cn_inputBuffer cn', cn_outputBuffer := cn_outputBuffer cn'\<rparr>
     \<and> n_tid w' = n_tid w \<and> cn_trace w' = cn_trace w \<and> cn_strings w' = (cn_strings w)(p \<mapsto> msg)
     \<and> (\<exists>el. n_loops w' (cn_loop cn) = Some el \<and> threadId el = n_tid w)
     \<and> content (cn_inputBuffer cn') = [] \<and> room_left 0 (cn_inputBuffer cn) (cn_inputBuffer cn')
     \<and> sk_sent (cn_socket cn') = sk_sent (cn_socket cn) @ take (taken cn msg) msg
     \<and> pending_out cn' = pending_out cn @ drop (taken cn msg) msg
     \<and> stream cn' = stream cn @ msg \<and> room_left (length msg) (cn_outputBuffer cn) (cn_outputBuffer cn')
     \<and> sk_reads (cn_socket cn') = sk_reads (cn_socket cn)
     \<and> set (sk_writes (cn_socket cn')) \<subseteq> set (sk_writes (cn_socket cn))"

lemma same_thread:
  assumes "safely r (evolves w)" "r = Inr w'" "n_loops w l = Some el" "n_loops w' l = Some el'"
  shows "threadId el' = threadId el"
  using assms unfolding evolves_def grows_def by fastforce

lemma set_tl: "set (tl xs) \<subseteq> set xs"
  by (cases xs) auto

lemma send_here:
  assumes inv: "conn_inv w" and cn: "cn_conns w c = Some cn" "cn_state cn = kConnected"
    and el: "n_loops w (cn_loop cn) = Some el" "threadId el = n_tid w"
    and p: "cn_strings w p = Some msg" and msg: "room (length msg) (cn_outputBuffer cn)"
    and up: "\<not> refused cn"
  shows "returns (run_api (Send c p) w) (\<lambda>w'. \<exists>cn'. answered c msg w cn w' cn')"
proof -
  have len: "length msg < 2 ^ 64" by (rule conn_inv_strings [OF inv p])
  obtain ch cn3 ch3 el3 where 3: "sendInLoop c msg w = Inr (setc c cn3 ch3 el3 w)" "sent c cn ch el msg cn3 ch3 el3"
    "conn_inv (setc c cn3 ch3 el3 w)" "same_place cn cn3"
    by (rule sendInLoop_sends [OF inv cn(1) _ el(1) len msg]) (use cn(2) in simp_all)
  let ?w3 = "setc c cn3 ch3 el3 w"
  have "cn3 = cn\<lparr>cn_socket := cn_socket cn3, cn_outputBuffer := cn_outputBuffer cn3\<rparr>"
    using 3(2) by (simp only: sent_def io_only_def)
  then obtain sk b where cn3: "cn3 = cn\<lparr>cn_socket := sk, cn_outputBuffer := b\<rparr>" by blast
  have "safely (sendInLoop c msg w) (evolves w)" by (rule sendInLoop_evolves)
  then have "threadId el3 = threadId el"
    by (rule same_thread [where l = "cn_loop cn", OF _ 3(1)]) (use 3(4) el in \<open>simp_all add: same_place_def\<close>)
  moreover have "stream cn3 = stream cn @ msg" using sent_stream [OF 3(2)] up by simp
  ultimately have "answered c msg w cn ?w3 cn3"
    using 3 el(2) set_tl [of "sk_writes (cn_socket cn)"] up
    by (simp add: answered_def kept_def cn3 sent_def io_only_def same_place_def)
  then show ?thesis
    using cn el p 3(1) by (simp add: get_conn_def tcp_send_def isInLoopThread_def) blast
qed

lemma echo_reply:
  assumes inv: "conn_inv w" and cn: "cn_conns w c = Some cn" "cn_state cn = kConnected"
    and el: "n_loops w (cn_loop cn) = Some el" "threadId el = n_tid w"
    and p: "cn_strings w p = None" and msg: "content (cn_inputBuffer cn) = msg" "room (length msg) (cn_outputBuffer cn)"
    and up: "\<not> refused cn"
  shows "returns (fold_res run_api [NewString p msg, Retrieve c (readableBytes (cn_inputBuffer cn)), Send c p] w)
     (\<lambda>w'. \<exists>cn'. echoed c p msg w cn w' cn')"
proof -
  obtain ch0 el0 where "conn_local cn ch0" using inv cn(1) by (rule conn_invE)
  then have wf: "wf_buffer (cn_inputBuffer cn)" by (simp add: conn_local_def)
  have len: "length msg < 2 ^ 64" using content_length_bounded [OF wf] msg(1) by simp
  let ?w1 = "w\<lparr>cn_strings := (cn_strings w)(p \<mapsto> msg)\<rparr>"
  let ?cn = "cn\<lparr>cn_inputBuffer := retrieve (readableBytes (cn_inputBuffer cn)) (cn_inputBuffer cn)\<rparr>"
  let ?w2 = "put_conn c ?cn ?w1"
  have 1: "conn_inv ?w1" by (rule conn_inv_strings_upd [OF inv]) (use len in simp)
  have "good {} ?w1 (upd_conn c (\<lambda>cn. cn\<lparr>cn_inputBuffer := retrieve (readableBytes (cn_inputBuffer cn)) (cn_inputBuffer cn)\<rparr>) ?w1)"
    using take_input_good [OF 1, of c cn "\<lambda>b. retrieve (readableBytes b) b"] cn(1) wf_retrieve by simp
  then have 2: "conn_inv ?w2" using cn(1) by (simp add: upd_conn_def get_conn_def good_def)
  have "\<not> refused ?cn" using up by (simp add: refused_def pending_out_def)
  then have "returns (run_api (Send c p) ?w2) (\<lambda>w'. \<exists>cn'. answered c msg ?w2 ?cn w' cn')"
    by (intro send_here [OF 2]) (use cn el msg in simp_all)
  moreover have "echoed c p msg w cn w' cn'" if a: "answered c msg ?w2 ?cn w' cn'" for w' cn'
  proof -
    obtain sk b where cn': "cn' = ?cn\<lparr>cn_socket := sk, cn_outputBuffer := b\<rparr>"
      using a by (auto simp only: answered_def)
    show ?thesis
      using a retrieveAllAsString_ok(2) [OF wf]
      by (simp add: answered_def echoed_def cn' stream_def pending_out_def taken_def)
  qed
  ultimately have "returns (run_api (Send c p) ?w2) (\<lambda>w'. \<exists>cn'. echoed c p msg w cn w' cn')"
    by (elim returns_mono) blast
  moreover have "fold_res run_api [NewString p msg, Retrieve c (readableBytes (cn_inputBuffer cn)), Send c p] w
      = run_api (Send c p) ?w2"
    using cn p len by (cases "run_api (Send c p) ?w2") (simp_all add: upd_conn_def get_conn_def)
  ultimately show ?thesis by simp
qed

text \<open>The whole callback of testserver.cc, in the thread of the connection.\<close>

lemma echo_calls:
  assumes inv: "conn_inv w" and cn: "cn_conns w c = Some cn" "cn_state cn = kConnected"
    and el: "n_loops w (cn_loop cn) = Some el" "threadId el = n_tid w"
    and p: "cn_strings w p = None" and msg: "content (cn_inputBuffer cn) = msg" "room (length msg) (cn_outputBuffer cn)"
    and up: "\<not> refused cn"
  shows "returns (fold_res run_api [NewString p msg, Retrieve c (readableBytes (cn_inputBuffer cn)), Send c p, Shutdown c,
        FreeString p] w) (\<lambda>w'. conn_inv w' \<and> cn_trace w' = cn_trace w \<and> cn_strings w' = cn_strings w
     \<and> (\<exists>cn'. cn_conns w' c = Some cn' \<and> cn_state cn' = kDisconnecting \<and> content (cn_inputBuffer cn') = []
          \<and> stream cn' = stream cn @ msg \<and> (sk_fin (cn_socket cn') \<longleftrightarrow> pending_out cn' = [])))"
proof -
  have calls: "fold_res run_api [NewString p msg, Retrieve c (readableBytes (cn_inputBuffer cn)), Send c p, Shutdown c,
      FreeString p] w = bind_res (fold_res run_api [NewString p msg, Retrieve c (readableBytes (cn_inputBuffer cn)), Send c p] w)
      (fold_res run_api [Shutdown c, FreeString p])"
    using fold_res_append [of run_api "[NewString p msg, Retrieve c (readableBytes (cn_inputBuffer cn)), Send c p]"
        "[Shutdown c, FreeString p]" w] by (simp only: append_Cons append_Nil)
  show ?thesis unfolding calls returns_simps
  proof (rule returns_mono [OF echo_reply [OF assms]], elim exE)
    fix w' cn'
    assume "echoed c p msg w cn w' cn'"
    then obtain el' where *: "conn_inv w'" "cn_conns w' c = Some cn'" "n_loops w' (cn_loop cn) = Some el'"
      "threadId el' = n_tid w'" and e: "echoed c p msg w cn w' cn'" by (auto simp: echoed_def)
    obtain sk i out where "cn' = cn\<lparr>cn_socket := sk, cn_inputBuffer := i, cn_outputBuffer := out\<rparr>"
      using e by (auto simp only: echoed_def)
    then have st: "cn_state cn' = kConnected" "cn_loop cn' = cn_loop cn"
      using cn(2) by simp_all
    note 4 = tcp_shutdown_here [OF *(1,2) st(1), unfolded st(2), OF *(3,4)]
    have "conn_inv ((put_conn c (closing cn') w')\<lparr>cn_strings := (cn_strings (put_conn c (closing cn') w'))(p := None)\<rparr>)"
      by (rule conn_inv_strings_upd) (use 4 in simp_all)
    then show "returns (fold_res run_api [Shutdown c, FreeString p] w') (\<lambda>w'. conn_inv w' \<and> cn_trace w' = cn_trace w
       \<and> cn_strings w' = cn_strings w \<and> (\<exists>cn'. cn_conns w' c = Some cn' \<and> cn_state cn' = kDisconnecting
          \<and> content (cn_inputBuffer cn') = [] \<and> stream cn' = stream cn @ msg
          \<and> (sk_fin (cn_socket cn') \<longleftrightarrow> pending_out cn' = [])))"
      using 4 p e by (auto simp: echoed_def closing_def stream_def pending_out_def shutdownWrite_def fun_upd_idem)
  qed
qed


section \<open>Echo\<close>

text \<open>
  C8. The echo server of example/testserver.cc on one read event: everything that was in the input
  buffer and everything the kernel delivered goes back to the peer, in order, behind what was
  waiting. The connection is then closing and its input buffer empty, and nothing of the message's
  memory is left. As soon as the kernel has taken the waiting bytes, over any number of partial
  writes and failures, the whole echo has been sent, and only then the sending side is shut down.
\<close>

theorem echo_returns_the_message:
  assumes "conn_inv w" "cn_conns w c = Some cn" "cn_state cn = kConnected" "cn_messageCallback cn = Some UserCb"
    and "n_loops w (cn_loop cn) = Some el" "threadId el = n_tid w" "cn_strings w p = None"
    and "next_read (cn_socket cn) = ReadData data" "data \<noteq> []" "length data \<le> read_capacity (cn_inputBuffer cn)"
    and "room (length data) (cn_inputBuffer cn)"
    and "room (length (content (cn_inputBuffer cn)) + length data) (cn_outputBuffer cn)" "\<not> refused cn"
  shows "returns (handleRead (echo_app p) close t c w) (\<lambda>w'. conn_inv w' \<and> cn_strings w' = cn_strings w
     \<and> cn_trace w' = cn_trace w @ [OnMessage c t]
     \<and> (\<exists>cn'. cn_conns w' c = Some cn' \<and> cn_state cn' = kDisconnecting \<and> content (cn_inputBuffer cn') = []
          \<and> stream cn' = stream cn @ content (cn_inputBuffer cn) @ data
          \<and> (\<forall>n. length (pending_out cn') \<le> write_room (take n (sk_writes (cn_socket cn'))) \<longrightarrow>
               returns (write_events n c w') (\<lambda>w''. \<exists>cn''. cn_conns w'' c = Some cn'' \<and> pending_out cn'' = []
                 \<and> sk_sent (cn_socket cn'') = stream cn @ content (cn_inputBuffer cn) @ data
                 \<and> sk_fin (cn_socket cn'')))))" (is "returns _ ?P")
proof -
  let ?msg = "content (cn_inputBuffer cn) @ data"
  obtain ch0 where l: "conn_local cn ch0" using assms(1,2) by (rule conn_invE)
  have wf: "wf_buffer (cn_inputBuffer cn)" using l by (simp add: conn_local_def)
  obtain b where b: "readFd (ReadData data) 0 (cn_inputBuffer cn) = Inr (int (length data), 0, b)" "wf_buffer b"
    "content b = ?msg"
    using readFd_ok [OF wf assms(11), of 0] assms(10) by (auto simp: returns_iff)
  let ?cn = "cn\<lparr>cn_inputBuffer := b, cn_socket := (cn_socket cn)\<lparr>sk_reads := tl (sk_reads (cn_socket cn))\<rparr>\<rparr>"
  let ?w1 = "put_conn c ?cn w"
  let ?w = "?w1\<lparr>cn_trace := cn_trace w @ [OnMessage c t]\<rparr>"
  have "good {} w (Inr ?w1)"
    by (rule good_put_conn [OF assms(1,2)])
      (use b in \<open>auto simp: advances_def same_place_def stream_def pending_out_def conn_local_def\<close>)
  then have "conn_inv ?w1" by (simp add: good_def)
  then have w: "conn_inv ?w" by (rule conn_inv_trace)
  have same: "refused ?cn \<longleftrightarrow> refused cn" by (simp add: refused_def pending_out_def next_write_def)
  have calls: "returns (fold_res run_api [NewString p ?msg, Retrieve c (readableBytes (cn_inputBuffer ?cn)), Send c p,
        Shutdown c, FreeString p] ?w) (\<lambda>w'. conn_inv w' \<and> cn_trace w' = cn_trace ?w \<and> cn_strings w' = cn_strings ?w
     \<and> (\<exists>cn'. cn_conns w' c = Some cn' \<and> cn_state cn' = kDisconnecting \<and> content (cn_inputBuffer cn') = []
          \<and> stream cn' = stream ?cn @ ?msg \<and> (sk_fin (cn_socket cn') \<longleftrightarrow> pending_out cn' = [])))"
    by (rule echo_calls [OF w])
      (use assms b same in simp_all)
  have flush: "returns (write_events n c w') (\<lambda>w''. \<exists>cn''. cn_conns w'' c = Some cn'' \<and> pending_out cn'' = []
       \<and> sk_sent (cn_socket cn'') = stream cn' \<and> sk_fin (cn_socket cn''))"
    if "conn_inv w'" "cn_conns w' c = Some cn'" "cn_state cn' = kDisconnecting" "sk_fin (cn_socket cn') \<longleftrightarrow> pending_out cn' = []"
      "length (pending_out cn') \<le> write_room (take n (sk_writes (cn_socket cn')))" for w' :: "'a conn_net_scheme" and cn' n
    by (rule returns_mono [OF write_events_flush [OF that(1-3,5)]]) (use that(4) in \<open>auto simp: flushed_def\<close>)
  have e: "handleRead (echo_app p) close t c w = fold_res run_api [NewString p ?msg,
      Retrieve c (readableBytes (cn_inputBuffer ?cn)), Send c p, Shutdown c, FreeString p] ?w"
    using assms(2,4,8,9) b retrieveAllAsString_ok(1) [OF b(2)]
    by (simp add: handleRead_def get_conn_def messageCallback_def call_app_def echo_onMessage_def)
  show ?thesis unfolding e
  proof (rule returns_mono [OF calls])
    fix w' :: "'a conn_net_scheme"
    assume "conn_inv w' \<and> cn_trace w' = cn_trace ?w \<and> cn_strings w' = cn_strings ?w
     \<and> (\<exists>cn'. cn_conns w' c = Some cn' \<and> cn_state cn' = kDisconnecting \<and> content (cn_inputBuffer cn') = []
          \<and> stream cn' = stream ?cn @ ?msg \<and> (sk_fin (cn_socket cn') \<longleftrightarrow> pending_out cn' = []))"
    then obtain cn' where *: "conn_inv w'" "cn_trace w' = cn_trace ?w" "cn_strings w' = cn_strings ?w" "cn_conns w' c = Some cn'"
      "cn_state cn' = kDisconnecting" "content (cn_inputBuffer cn') = []" "stream cn' = stream ?cn @ ?msg"
      "sk_fin (cn_socket cn') \<longleftrightarrow> pending_out cn' = []" by blast
    have s: "stream cn' = stream cn @ ?msg" using *(7) by (simp add: stream_def pending_out_def)
    show "?P w'"
      using *(1-6) s flush [OF *(1,4,5,8)] by (intro conjI exI [of _ cn'] allI impI) simp_all
  qed
qed


text \<open>The sample connection with two bytes to read, of which the kernel first takes one back.\<close>

definition sample_echo_conn :: conn where
  "sample_echo_conn = (let cn = sample_up [WriteRoom 1, WriteRoom 9] in
     cn\<lparr>cn_messageCallback := Some UserCb, cn_socket := (cn_socket cn)\<lparr>sk_reads := [ReadData [104, 105]]\<rparr>\<rparr>)"

definition sample_echo :: conn_net where
  "sample_echo = put_conn 5 sample_echo_conn (sample_world [WriteRoom 1, WriteRoom 9])"

lemma sample_echo_inv: "conn_inv sample_echo"
proof -
  have "good {} (sample_world [WriteRoom 1, WriteRoom 9]) (Inr sample_echo)"
    unfolding sample_echo_def
    by (rule good_put_conn [OF sample_world_inv, where cn = "sample_up [WriteRoom 1, WriteRoom 9]"])
      (simp_all add: sample_echo_conn_def Let_def advances_def same_place_def stream_def pending_out_def conn_local_def)
  then show ?thesis by (simp add: good_def)
qed

lemma sample_echo_conn_simps [simp]:
  "cn_state sample_echo_conn = kConnected" "cn_loop sample_echo_conn = 1" "cn_messageCallback sample_echo_conn = Some UserCb"
  "cn_inputBuffer sample_echo_conn = mk_buffer kInitialSize" "cn_outputBuffer sample_echo_conn = mk_buffer kInitialSize"
  "next_read (cn_socket sample_echo_conn) = ReadData [104, 105]" "stream sample_echo_conn = []" "\<not> refused sample_echo_conn"
  by (simp_all add: sample_echo_conn_def Let_def next_read_def stream_def pending_out_def refused_def next_write_def sample_sock_def)
    (simp_all add: sample_up_def sample_conn_def mk_conn_def)

theorem echo_returns_the_message_witness:
  "returns (handleRead (echo_app 9) (\<lambda>t c w. Inr w) invalid 5 sample_echo) (\<lambda>w'. \<exists>cn'. cn_conns w' 5 = Some cn'
     \<and> cn_state cn' = kDisconnecting \<and> stream cn' = [104, 105])"
proof -
  have c: "cn_conns sample_echo 5 = Some sample_echo_conn" by (simp add: sample_echo_def)
  have el: "n_loops sample_echo (cn_loop sample_echo_conn) = Some sample_evloop" "threadId sample_evloop = n_tid sample_echo"
    "cn_strings sample_echo 9 = None" by (simp_all add: sample_echo_def)
  have cap: "length [104, 105 :: byte] \<le> read_capacity (cn_inputBuffer sample_echo_conn)"
    using read_capacity_min [of "cn_inputBuffer sample_echo_conn"] by simp
  have new: "content (mk_buffer kInitialSize) = []" by simp
  from echo_returns_the_message [OF sample_echo_inv c _ _ el(1,2,3) _ _ cap, of "\<lambda>t c w. Inr w" invalid]
  show ?thesis using new by (auto simp: room_new_buffer elim!: returns_mono)
qed

section \<open>Echo over any number of events\<close>

text \<open>The read and write events of a connection, in any order.\<close>

datatype io_event = ReadEvent timestamp | WriteEvent

fun is_read :: "io_event \<Rightarrow> bool" where
  "is_read (ReadEvent t) = True"
| "is_read WriteEvent = False"

fun io_step :: "(app_event \<Rightarrow> 'a conn_net_scheme \<Rightarrow> api list) \<Rightarrow>
    (close_target \<Rightarrow> nat \<Rightarrow> 'a conn_net_scheme \<Rightarrow> 'a conn_net_scheme res) \<Rightarrow> nat \<Rightarrow>
    io_event \<Rightarrow> 'a conn_net_scheme \<Rightarrow> 'a conn_net_scheme res" where
  "io_step app close c (ReadEvent t) w = handleRead app close t c w"
| "io_step app close c WriteEvent w = handleWrite c w"

fun messages :: "nat \<Rightarrow> io_event list \<Rightarrow> app_event list" where
  "messages c [] = []"
| "messages c (ReadEvent t # evs) = OnMessage c t # messages c evs"
| "messages c (WriteEvent # evs) = messages c evs"

text \<open>
  A connection of the application in its thread, between two events: established, its input
  consumed, and with room for \<open>n\<close> more bytes in its buffers.
\<close>

definition serving :: "nat \<Rightarrow> nat \<Rightarrow> nat \<Rightarrow> 'a conn_net_scheme \<Rightarrow> conn \<Rightarrow> bool" where
  "serving c p n w cn \<longleftrightarrow> conn_inv w \<and> cn_conns w c = Some cn \<and> cn_state cn = kConnected
     \<and> cn_messageCallback cn = Some UserCb \<and> cn_strings w p = None
     \<and> (\<exists>el. n_loops w (cn_loop cn) = Some el \<and> threadId el = n_tid w)
     \<and> content (cn_inputBuffer cn) = [] \<and> room n (cn_inputBuffer cn) \<and> room n (cn_outputBuffer cn)"

text \<open>No write will report a reset connection.\<close>

definition no_reset :: "conn \<Rightarrow> bool" where
  "no_reset cn \<longleftrightarrow> WriteErr EPIPE \<notin> set (sk_writes (cn_socket cn)) \<and> WriteErr ECONNRESET \<notin> set (sk_writes (cn_socket cn))"

lemma serving_not_refused:
  assumes "serving c p n w cn" "no_reset cn"
  shows "\<not> refused cn" "\<not> sk_fin (cn_socket cn)"
proof -
  obtain ch el where "conn_local cn ch" using assms unfolding serving_def by (metis conn_invE)
  then show fin: "\<not> sk_fin (cn_socket cn)" using assms by (simp add: serving_def conn_local_def)
  show "\<not> refused cn" using assms fin
    by (cases "sk_writes (cn_socket cn)")
      (auto simp: refused_def next_write_def no_reset_def EWOULDBLOCK_def EPIPE_def ECONNRESET_def)
qed

text \<open>A write event sends of what waits; it is the same for every application.\<close>

lemma serving_write:
  assumes "serving c p n w cn"
  shows "returns (handleWrite c w) (\<lambda>w'. cn_strings w' = cn_strings w \<and> cn_trace w' = cn_trace w
     \<and> (\<exists>cn'. serving c p n w' cn' \<and> stream cn' = stream cn
          \<and> sk_sent (cn_socket cn') = sk_sent (cn_socket cn) @ take (written cn) (pending_out cn)
          \<and> pending_out cn' = drop (written cn) (pending_out cn)
          \<and> sk_reads (cn_socket cn') = sk_reads (cn_socket cn)
          \<and> set (sk_writes (cn_socket cn')) \<subseteq> set (sk_writes (cn_socket cn))))"
proof -
  have e: "conn_inv w" "cn_conns w c = Some cn" "cn_state cn = kConnected" using assms by (simp_all add: serving_def)
  obtain el where el: "n_loops w (cn_loop cn) = Some el" "threadId el = n_tid w" using assms by (auto simp: serving_def)
  have up: "cn_state cn \<noteq> kDisconnected" using e(3) by simp
  obtain ch cn' ch' el' where 1: "handleWrite c w = Inr (setc c cn' ch' el' w)" "wrote c cn ch el cn' ch' el'"
    "conn_inv (setc c cn' ch' el' w)" "same_place cn cn'" using e(1,2) up el(1) by (rule handleWrite_writes)
  obtain sk b where cn': "cn' = cn\<lparr>cn_socket := sk, cn_outputBuffer := b\<rparr>" using 1(2) by (rule wrote_conn)
  have "safely (handleWrite c w) (evolves w)" by (rule handleWrite_evolves)
  then have "threadId el' = threadId el"
    by (rule same_thread [where l = "cn_loop cn", OF _ 1(1) el(1)]) (use 1(4) in \<open>simp add: same_place_def\<close>)
  moreover have "stream cn' = stream cn" using 1(2) by (simp add: wrote_def stream_def)
  moreover have "room m b" if "room m (cn_outputBuffer cn)" for m
    using 1(2) that by (simp add: wrote_def cn' room_left_def)
  ultimately have "serving c p n (setc c cn' ch' el' w) cn' \<and> stream cn' = stream cn
          \<and> sk_sent (cn_socket cn') = sk_sent (cn_socket cn) @ take (written cn) (pending_out cn)
          \<and> pending_out cn' = drop (written cn) (pending_out cn)
          \<and> sk_reads (cn_socket cn') = sk_reads (cn_socket cn)
          \<and> set (sk_writes (cn_socket cn')) \<subseteq> set (sk_writes (cn_socket cn))"
    using assms 1 el(2) set_tl [of "sk_writes (cn_socket cn)"]
    by (auto simp: serving_def wrote_def cn' same_place_def split: if_splits)
  then show ?thesis unfolding 1(1) by auto
qed

text \<open>What every read event does before the application's callback runs.\<close>

lemma serving_input:
  fixes w :: "'a conn_net_scheme"
  assumes e: "serving c p (length d + n) w cn" and d: "d \<noteq> []" "length d \<le> 65536" "next_read (cn_socket cn) = ReadData d"
  obtains b x cn0 where "cn0 = cn\<lparr>cn_inputBuffer := b, cn_socket := (cn_socket cn)\<lparr>sk_reads := tl (sk_reads (cn_socket cn))\<rparr>\<rparr>"
    "x = (put_conn c cn0 w)\<lparr>cn_trace := cn_trace w @ [OnMessage c t]\<rparr>" "conn_inv x" "content b = d" "room n b" "wf_buffer b"
    "\<And>app close. handleRead app close t c w = fold_res run_api (app (OnMessage c t) x) x"
proof -
  note E = e [unfolded serving_def]
  obtain ch0 el0 where "conn_local cn ch0" using E by (metis conn_invE)
  then have wf: "wf_buffer (cn_inputBuffer cn)" by (simp add: conn_local_def)
  have cap: "length d \<le> read_capacity (cn_inputBuffer cn)" using d(2) read_capacity_min [of "cn_inputBuffer cn"] by simp
  have room: "room (n + length d) (cn_inputBuffer cn)" using E by (simp add: add.commute)
  have roomd: "room (length d) (cn_inputBuffer cn)" by (rule room_mono [OF room]) simp
  obtain b where b: "readFd (ReadData d) 0 (cn_inputBuffer cn) = Inr (int (length d), 0, b)" "wf_buffer b" "content b = d"
    using readFd_ok [OF wf roomd, of 0] cap E by (auto simp: returns_iff)
  let ?cn = "cn\<lparr>cn_inputBuffer := b, cn_socket := (cn_socket cn)\<lparr>sk_reads := tl (sk_reads (cn_socket cn))\<rparr>\<rparr>"
  let ?x = "(put_conn c ?cn w)\<lparr>cn_trace := cn_trace w @ [OnMessage c t]\<rparr>"
  have "good {} w (Inr (put_conn c ?cn w))"
    by (rule good_put_conn [where cn = cn])
      (use b E in \<open>auto simp: advances_def same_place_def stream_def pending_out_def conn_local_def\<close>)
  then have "conn_inv ?x" by (intro conn_inv_trace) (simp add: good_def)
  moreover have "handleRead app close t c w = fold_res run_api (app (OnMessage c t) ?x) ?x"
    for app :: "app_event \<Rightarrow> 'a conn_net_scheme \<Rightarrow> api list" and close
    using E b(1) d by (simp add: handleRead_def get_conn_def messageCallback_def call_app_def Let_def)
  ultimately show thesis using that [of ?cn b ?x] b readFd_room [OF wf room cap b(1)] by blast
qed

text \<open>The read event of a server sends the message back.\<close>

lemma server_read:
  fixes w :: "'a conn_net_scheme"
  assumes e: "serving c p (length d + n) w cn" and up: "no_reset cn"
    and d: "d \<noteq> []" "length d \<le> 65536" "next_read (cn_socket cn) = ReadData d"
  shows "returns (handleRead (server_app p) close t c w) (\<lambda>w'. cn_strings w' = cn_strings w
     \<and> cn_trace w' = cn_trace w @ [OnMessage c t] \<and> (\<exists>cn'. serving c p n w' cn' \<and> stream cn' = stream cn @ d
          \<and> sk_sent (cn_socket cn') = sk_sent (cn_socket cn) @ take (taken cn d) d
          \<and> pending_out cn' = pending_out cn @ drop (taken cn d) d
          \<and> sk_reads (cn_socket cn') = tl (sk_reads (cn_socket cn))
          \<and> set (sk_writes (cn_socket cn')) \<subseteq> set (sk_writes (cn_socket cn))))" (is "returns _ ?P")
proof -
  note E = e [unfolded serving_def]
  obtain el where el: "n_loops w (cn_loop cn) = Some el" "threadId el = n_tid w" using E by blast
  have room: "room (n + length d) (cn_outputBuffer cn)" using E by (simp add: add.commute)
  obtain b x cn0 where cn0: "cn0 = cn\<lparr>cn_inputBuffer := b, cn_socket := (cn_socket cn)\<lparr>sk_reads := tl (sk_reads (cn_socket cn))\<rparr>\<rparr>"
    and x: "x = (put_conn c cn0 w)\<lparr>cn_trace := cn_trace w @ [OnMessage c t]\<rparr>" "conn_inv x"
    and b: "content b = d" "room n b" "wf_buffer b"
    and read: "\<And>app close. handleRead app close t c w = fold_res run_api (app (OnMessage c t) x) x"
    using serving_input [OF e d, of t thesis] by blast
  have same: "refused cn0 \<longleftrightarrow> refused cn" "taken cn0 d = taken cn d" "pending_out cn0 = pending_out cn" "stream cn0 = stream cn"
    by (simp_all add: cn0 refused_def taken_def pending_out_def next_write_def stream_def)
  let ?q = "[NewString p d, Retrieve c (readableBytes b), Send c p]"
  have reply: "returns (fold_res run_api ?q x) (\<lambda>w'. \<exists>cn'. echoed c p d x cn0 w' cn')"
    using echo_reply [OF x(2), of c cn0 el p d] E el b room_mono [OF room, of "length d"] same(1)
      serving_not_refused(1) [OF e up] by (simp add: x(1) cn0)
  have "handleRead (server_app p) close t c w = fold_res run_api (?q @ [FreeString p]) x"
    unfolding read using retrieveAllAsString_ok(1) [OF b(3)] b(1) by (simp add: x(1) cn0 server_onMessage_def)
  then have run: "handleRead (server_app p) close t c w = bind_res (fold_res run_api ?q x) (fold_res run_api [FreeString p])"
    by (simp only: fold_res_append)
  show ?thesis unfolding run returns_simps
  proof (rule returns_mono [OF reply], elim exE)
    fix w' cn'
    assume r: "echoed c p d x cn0 w' cn'"
    let ?w' = "w'\<lparr>cn_strings := (cn_strings w')(p := None)\<rparr>"
    note R = r [unfolded echoed_def]
    obtain sk i out where cn': "cn' = cn0\<lparr>cn_socket := sk, cn_inputBuffer := i, cn_outputBuffer := out\<rparr>" using R by blast
    have "conn_inv ?w'" by (rule conn_inv_strings_upd) (use R in simp_all)
    moreover have "room n i" using R b(2) by (simp add: cn' cn0 room_left_def)
    moreover have "room n out" using R room by (simp add: cn' cn0 room_left_def)
    ultimately have "serving c p n ?w' cn'" using R E by (auto simp: serving_def cn' cn0 x(1))
    then show "returns (fold_res run_api [FreeString p] w') ?P"
      using R E same by (auto simp: fun_upd_idem x(1) cn0)
  qed
qed

text \<open>The read event of a client takes the message out and sends nothing.\<close>

lemma client_read:
  fixes w :: "'a conn_net_scheme"
  assumes e: "serving c p (length d + n) w cn" and d: "d \<noteq> []" "length d \<le> 65536" "next_read (cn_socket cn) = ReadData d"
  shows "returns (handleRead (client_app p) close t c w) (\<lambda>w'. cn_strings w' = cn_strings w
     \<and> cn_trace w' = cn_trace w @ [OnMessage c t] \<and> (\<exists>cn'. serving c p n w' cn'
          \<and> sk_sent (cn_socket cn') = sk_sent (cn_socket cn) \<and> pending_out cn' = pending_out cn))"
proof -
  note E = e [unfolded serving_def]
  obtain b x cn0 where cn0: "cn0 = cn\<lparr>cn_inputBuffer := b, cn_socket := (cn_socket cn)\<lparr>sk_reads := tl (sk_reads (cn_socket cn))\<rparr>\<rparr>"
    and x: "x = (put_conn c cn0 w)\<lparr>cn_trace := cn_trace w @ [OnMessage c t]\<rparr>" "conn_inv x"
    and b: "content b = d" "room n b" "wf_buffer b"
    and read: "\<And>app close. handleRead app close t c w = fold_res run_api (app (OnMessage c t) x) x"
    using serving_input [OF e d, of t thesis] by blast
  let ?cn = "cn0\<lparr>cn_inputBuffer := retrieve (readableBytes b) b\<rparr>"
  have c: "cn_conns x c = Some cn0" by (simp add: x(1))
  have run: "handleRead (client_app p) close t c w = Inr (put_conn c ?cn x)"
    unfolding read using c retrieveAllAsString_ok(1) [OF b(3)]
    by (simp add: client_onMessage_def upd_conn_def get_conn_def cn0)
  have "good {} x (upd_conn c (\<lambda>cn. cn\<lparr>cn_inputBuffer := retrieve (readableBytes (cn_inputBuffer cn)) (cn_inputBuffer cn)\<rparr>) x)"
    using take_input_good [OF x(2), of c cn0 "\<lambda>b. retrieve (readableBytes b) b"] c wf_retrieve by simp
  then have "conn_inv (put_conn c ?cn x)" using c by (simp add: upd_conn_def get_conn_def good_def cn0)
  moreover have "room n (cn_outputBuffer cn)" using E by (auto elim: room_mono)
  ultimately have "serving c p n (put_conn c ?cn x) ?cn"
    using E b retrieveAllAsString_ok(2) [OF b(3)] room_retrieve [OF b(2)] by (auto simp: serving_def cn0 x(1))
  then show ?thesis unfolding run by (auto simp: x(1) cn0 pending_out_def)
qed

text \<open>The connection of a server to which the kernel will deliver \<open>ds\<close>.\<close>

definition echoing :: "nat \<Rightarrow> nat \<Rightarrow> byte list list \<Rightarrow> 'a conn_net_scheme \<Rightarrow> conn \<Rightarrow> bool" where
  "echoing c p ds w cn \<longleftrightarrow> serving c p (length (concat ds)) w cn \<and> no_reset cn
     \<and> (\<exists>later. sk_reads (cn_socket cn) = map ReadData ds @ later)"

lemma echoing_write:
  assumes "echoing c p ds w cn"
  shows "returns (handleWrite c w) (\<lambda>w'. cn_strings w' = cn_strings w \<and> cn_trace w' = cn_trace w
     \<and> (\<exists>cn'. echoing c p ds w' cn' \<and> stream cn' = stream cn))"
  by (rule returns_mono [OF serving_write [of c p "length (concat ds)" w cn]])
    (use assms in \<open>auto simp: echoing_def no_reset_def\<close>)

lemma echoing_read:
  assumes e: "echoing c p (d # ds) w cn" and d: "d \<noteq> []" "length d \<le> 65536"
  shows "returns (handleRead (server_app p) close t c w) (\<lambda>w'. cn_strings w' = cn_strings w
     \<and> cn_trace w' = cn_trace w @ [OnMessage c t] \<and> (\<exists>cn'. echoing c p ds w' cn' \<and> stream cn' = stream cn @ d))"
proof -
  obtain later where reads: "sk_reads (cn_socket cn) = ReadData d # map ReadData ds @ later"
    using e by (auto simp: echoing_def)
  show ?thesis
    by (rule returns_mono [OF server_read [of c p d "length (concat ds)" w cn]])
      (use e d reads in \<open>auto simp: echoing_def no_reset_def next_read_def\<close>)
qed

lemma server_io:
  fixes w :: "'a conn_net_scheme"
  assumes "echoing c p ds w cn" "length ds = length (filter is_read evs)" "\<forall>d\<in>set ds. d \<noteq> [] \<and> length d \<le> 65536"
  shows "returns (fold_res (io_step (server_app p) close c) evs w) (\<lambda>w'. cn_strings w' = cn_strings w
     \<and> cn_trace w' = cn_trace w @ messages c evs
     \<and> (\<exists>cn'. echoing c p [] w' cn' \<and> stream cn' = stream cn @ concat ds))"
  using assms
proof (induction evs arbitrary: w cn ds)
  case Nil
  then show ?case by auto
next
  case (Cons ev evs)
  show ?case
  proof (cases ev)
    case (ReadEvent t)
    then obtain d ds' where ds: "ds = d # ds'" using Cons.prems(2) by (cases ds) auto
    show ?thesis unfolding fold_res.simps ReadEvent io_step.simps returns_simps
    proof (rule returns_mono [OF echoing_read [of c p d ds' w cn]])
      fix w1 :: "'a conn_net_scheme"
      assume "cn_strings w1 = cn_strings w \<and> cn_trace w1 = cn_trace w @ [OnMessage c t]
        \<and> (\<exists>cn'. echoing c p ds' w1 cn' \<and> stream cn' = stream cn @ d)"
      then obtain cn1 where 1: "echoing c p ds' w1 cn1" "stream cn1 = stream cn @ d"
        "cn_strings w1 = cn_strings w" "cn_trace w1 = cn_trace w @ [OnMessage c t]" by blast
      show "returns (fold_res (io_step (server_app p) close c) evs w1) (\<lambda>w'. cn_strings w' = cn_strings w
         \<and> cn_trace w' = cn_trace w @ messages c (ReadEvent t # evs)
         \<and> (\<exists>cn'. echoing c p [] w' cn' \<and> stream cn' = stream cn @ concat ds))"
        by (rule returns_mono [OF Cons.IH [OF 1(1)]]) (use Cons.prems ReadEvent ds 1 in auto)
    qed (use Cons.prems ds in auto)
  next
    case WriteEvent
    show ?thesis unfolding fold_res.simps WriteEvent io_step.simps returns_simps
    proof (rule returns_mono [OF echoing_write [OF Cons.prems(1)]])
      fix w1 :: "'a conn_net_scheme"
      assume "cn_strings w1 = cn_strings w \<and> cn_trace w1 = cn_trace w
        \<and> (\<exists>cn'. echoing c p ds w1 cn' \<and> stream cn' = stream cn)"
      then obtain cn1 where 1: "echoing c p ds w1 cn1" "stream cn1 = stream cn"
        "cn_strings w1 = cn_strings w" "cn_trace w1 = cn_trace w" by blast
      show "returns (fold_res (io_step (server_app p) close c) evs w1) (\<lambda>w'. cn_strings w' = cn_strings w
         \<and> cn_trace w' = cn_trace w @ messages c (WriteEvent # evs)
         \<and> (\<exists>cn'. echoing c p [] w' cn' \<and> stream cn' = stream cn @ concat ds))"
        by (rule returns_mono [OF Cons.IH [OF 1(1)]]) (use Cons.prems WriteEvent 1 in auto)
    qed
  qed
qed

text \<open>
  C9. The echo server of example/muduoServer.cc over any interleaving of read and write events, with any
  partial writes, interruptions and full socket buffers between them: every message the kernel
  delivers is answered byte for byte in the order of arrival, behind what was waiting. The
  connection stays established and its input buffer empty, its channel watches writing exactly
  while bytes wait, the callback ran once for each read, and nothing of the messages' memory is
  left.
\<close>

theorem server_echoes_everything:
  assumes "conn_inv w" "cn_conns w c = Some cn" "cn_state cn = kConnected" "cn_messageCallback cn = Some UserCb"
    and "n_loops w (cn_loop cn) = Some el" "threadId el = n_tid w" "cn_strings w p = None"
    and "content (cn_inputBuffer cn) = []" "sk_reads (cn_socket cn) = map ReadData ds @ later"
    and "length ds = length (filter is_read evs)" "\<forall>d\<in>set ds. d \<noteq> [] \<and> length d \<le> 65536"
    and "room (length (concat ds)) (cn_inputBuffer cn)" "room (length (concat ds)) (cn_outputBuffer cn)"
    and "WriteErr EPIPE \<notin> set (sk_writes (cn_socket cn))" "WriteErr ECONNRESET \<notin> set (sk_writes (cn_socket cn))"
  shows "returns (fold_res (io_step (server_app p) close c) evs w) (\<lambda>w'. conn_inv w' \<and> cn_strings w' = cn_strings w
     \<and> cn_trace w' = cn_trace w @ messages c evs
     \<and> (\<exists>cn' ch'. cn_conns w' c = Some cn' \<and> cn_state cn' = kConnected \<and> content (cn_inputBuffer cn') = []
          \<and> sk_sent (cn_socket cn') @ pending_out cn' = sk_sent (cn_socket cn) @ pending_out cn @ concat ds
          \<and> n_chans w' (cn_channel cn') = Some ch' \<and> (isWriting ch' \<longleftrightarrow> pending_out cn' \<noteq> [])))"
proof -
  have "echoing c p ds w cn" using assms by (simp add: echoing_def serving_def no_reset_def)
  from server_io [OF this assms(10,11)] show ?thesis
  proof (rule returns_mono, elim conjE exE)
    fix w' :: "'a conn_net_scheme" and cn'
    assume *: "echoing c p [] w' cn'" "stream cn' = stream cn @ concat ds" "cn_strings w' = cn_strings w"
      "cn_trace w' = cn_trace w @ messages c evs"
    then have e: "conn_inv w'" "cn_conns w' c = Some cn'" by (simp_all add: echoing_def serving_def)
    obtain ch el where "linked c cn' ch el w'" "conn_local cn' ch" using e by (rule conn_invE)
    with * show "conn_inv w' \<and> cn_strings w' = cn_strings w \<and> cn_trace w' = cn_trace w @ messages c evs
     \<and> (\<exists>cn' ch'. cn_conns w' c = Some cn' \<and> cn_state cn' = kConnected \<and> content (cn_inputBuffer cn') = []
          \<and> sk_sent (cn_socket cn') @ pending_out cn' = sk_sent (cn_socket cn) @ pending_out cn @ concat ds
          \<and> n_chans w' (cn_channel cn') = Some ch' \<and> (isWriting ch' \<longleftrightarrow> pending_out cn' \<noteq> []))"
      by (intro conjI exI [of _ cn'] exI [of _ ch])
        (auto simp: echoing_def serving_def stream_def linked_def conn_local_def)
  qed
qed

text \<open>Two messages; the kernel takes one byte of the first reply at once and the rest later.\<close>

definition sample_host_conn :: conn where
  "sample_host_conn = (let cn = sample_up [WriteRoom 1, WriteErr EWOULDBLOCK, WriteRoom 9] in
     cn\<lparr>cn_messageCallback := Some UserCb,
        cn_socket := (cn_socket cn)\<lparr>sk_reads := [ReadData [104, 105], ReadData [33]]\<rparr>\<rparr>)"

definition sample_host :: conn_net where
  "sample_host = put_conn 5 sample_host_conn (sample_world [WriteRoom 1, WriteErr EWOULDBLOCK, WriteRoom 9])"

lemma sample_host_inv: "conn_inv sample_host"
proof -
  have "good {} (sample_world [WriteRoom 1, WriteErr EWOULDBLOCK, WriteRoom 9]) (Inr sample_host)"
    unfolding sample_host_def
    by (rule good_put_conn [OF sample_world_inv, where cn = "sample_up [WriteRoom 1, WriteErr EWOULDBLOCK, WriteRoom 9]"])
      (simp_all add: sample_host_conn_def Let_def advances_def same_place_def stream_def pending_out_def conn_local_def)
  then show ?thesis by (simp add: good_def)
qed

lemma sample_host_conn_simps [simp]:
  "cn_state sample_host_conn = kConnected" "cn_loop sample_host_conn = 1"
  "cn_messageCallback sample_host_conn = Some UserCb"
  "cn_inputBuffer sample_host_conn = mk_buffer kInitialSize" "cn_outputBuffer sample_host_conn = mk_buffer kInitialSize"
  "sk_reads (cn_socket sample_host_conn) = [ReadData [104, 105], ReadData [33]]"
  "sk_writes (cn_socket sample_host_conn) = [WriteRoom 1, WriteErr EWOULDBLOCK, WriteRoom 9]"
  "sk_sent (cn_socket sample_host_conn) = []" "pending_out sample_host_conn = []"
  by (simp_all add: sample_host_conn_def Let_def pending_out_def sample_sock_def)
    (simp_all add: sample_up_def sample_conn_def mk_conn_def)

theorem server_echoes_everything_witness:
  "returns (fold_res (io_step (server_app 9) (\<lambda>t c w. Inr w) 5)
      [ReadEvent invalid, WriteEvent, ReadEvent invalid, WriteEvent] sample_host) (\<lambda>w'. \<exists>cn'. cn_conns w' 5 = Some cn'
     \<and> cn_state cn' = kConnected \<and> sk_sent (cn_socket cn') @ pending_out cn' = [104, 105, 33])"
proof -
  have c: "cn_conns sample_host 5 = Some sample_host_conn" by (simp add: sample_host_def)
  have el: "n_loops sample_host (cn_loop sample_host_conn) = Some sample_evloop"
    "threadId sample_evloop = n_tid sample_host" "cn_strings sample_host 9 = None"
    by (simp_all add: sample_host_def)
  have new: "content (mk_buffer kInitialSize) = []" by simp
  have reads: "sk_reads (cn_socket sample_host_conn) = map ReadData [[104, 105], [33]] @ []" by simp
  from server_echoes_everything [OF sample_host_inv c _ _ el(1,2,3) _ reads, of "[ReadEvent invalid, WriteEvent,
      ReadEvent invalid, WriteEvent]" "\<lambda>t c w. Inr w"]
  show ?thesis using new
    by (auto simp: room_new_buffer EWOULDBLOCK_def EPIPE_def ECONNRESET_def elim!: returns_mono)
qed

end
