(* ===== verification/Echo_Client.thy ===== *)
theory Echo_Client
  imports Echo TcpClient_Properties
begin

text \<open>
  The client of example/muduoClient.cc on top of \<open>TcpClient\<close>: from the finished attempt of its
  connector to the bytes it sends.
\<close>

section \<open>The program\<close>

text \<open>\<open>main\<close> up to \<open>loop()\<close>, with the loop at \<open>l\<close>.\<close>

definition client_main :: "nat \<Rightarrow> 'a client_net_scheme \<Rightarrow> 'a client_net_scheme res" where
  "client_main l w =
     (let w = new_client l (mk_InetAddress 9877 ''127.0.0.1'') ''EchoClient'' w in
      bind_res (get_client w) (\<lambda>c.
        client_connect (put_client (client_setMessageCallback (Some UserCb)
          (client_setConnectionCallback (Some UserCb) c)) w)))"

lemma client_of_put_client:
  assumes at: "connector_at ph w" and of: "client_of app w"
  shows "connector_at ph (put_client c w)" "client_of app (put_client c w)"
proof -
  have inv: "conn_inv w" by (rule connector_atD(1) [OF at])
  have a: "apart w (put_client c w)" by (rule apart_cong [OF conn_inv_net [OF inv]]) simp_all
  show "connector_at ph (put_client c w)" using at apart_conn_inv [OF inv a]
    by (cases ph) (simp_all add: connector_at_def home_def no_conn_fd_def)
  show "client_of app (put_client c w)" using of apart_registered_up [OF _ a]
    by (simp add: client_of_def client_ok_def)
qed

text \<open>The program starts one attempt, which is then being watched or was refused at once.\<close>

lemma client_main_starts:
  fixes w :: "'a client_net_scheme"
  assumes w: "conn_inv w" "registered_up w" "n_loops w l = Some el" "threadId el = n_tid w" "timerQueue el = None"
    "FResetChannel \<notin> set (pendingFunctors el)" "ct_open w = []"
    and new: "0 \<le> ce_fd (next_connect w) \<Longrightarrow> no_conn_fd (ce_fd (next_connect w)) w \<and> n_chans w (ce_chan (next_connect w)) = None
      \<and> channels_map (el_poller el) (ce_fd (next_connect w)) = None"
  shows "ends (insert SignedOverflow app_faults \<union> connector_faults) (client_main l w)
    (\<lambda>w'. client_ok w' \<and> (\<exists>ph \<in> {Idle, Trying}. connector_at ph w'))"
proof -
  let ?q = "quiet :: app_event \<Rightarrow> 'a client_net_scheme \<Rightarrow> api list"
  let ?w = "new_client l (mk_InetAddress 9877 ''127.0.0.1'') ''EchoClient'' w"
  let ?c = "(client_setMessageCallback (Some UserCb) (client_setConnectionCallback (Some UserCb)
      (mk_client ''EchoClient'')))\<lparr>cl_connect := True\<rparr>"
  note at = new_client_at [OF w quiet_is_local, of "mk_InetAddress 9877 ''127.0.0.1''" "''EchoClient''"]
  let ?x = "put_client ?c ?w"
  have x: "client_of ?q ?x" "connector_at Idle ?x" using client_of_put_client [OF at(2,1)] by simp_all
  have "next_connect ?x = next_connect w" by (simp add: next_connect_def new_client_def put_client_def)
  then have "op_ready Start ?x"
    using new w(3) by (simp add: new_descriptor_def no_conn_fd_def new_client_def mk_connector_def)
  from owner.connector_step [OF x this]
  have "ends (insert SignedOverflow app_faults \<union> connector_faults) (connector_start ?x)
     (owner.leads_to ?q (next_attempts Idle Start))" by simp
  moreover have "client_main l w = connector_start ?x"
    by (simp add: client_main_def client_connect_def get_client_def new_client_def put_client_def)
  ultimately show ?thesis
    by (auto simp: owner.leads_to_def client_of_def elim!: ends_mono)
qed

section \<open>The greeting\<close>

lemma greeting_calls:
  assumes inv: "conn_inv w" and cn: "cn_conns w c = Some cn" "cn_state cn = kConnected"
    and el: "n_loops w (cn_loop cn) = Some el" "threadId el = n_tid w"
    and p: "cn_strings w p = None" and out: "room (length greeting) (cn_outputBuffer cn)" and up: "\<not> refused cn"
  shows "returns (fold_res run_api [NewString p greeting, Send c p, FreeString p] w) (\<lambda>w'. \<exists>cn'. answered c greeting w cn w' cn')"
proof -
  let ?w1 = "w\<lparr>cn_strings := (cn_strings w)(p \<mapsto> greeting)\<rparr>"
  have len: "length greeting < 2 ^ 64" by (simp add: greeting_def)
  have 1: "conn_inv ?w1" by (rule conn_inv_strings_upd [OF inv]) (use len in simp)
  have "returns (run_api (Send c p) ?w1) (\<lambda>w'. \<exists>cn'. answered c greeting ?w1 cn w' cn')"
    by (rule send_here [OF 1]) (use assms in simp_all)
  moreover have "fold_res run_api [NewString p greeting, Send c p, FreeString p] w
      = bind_res (run_api (Send c p) ?w1) (run_api (FreeString p))"
    using p len by (cases "run_api (Send c p) ?w1") simp_all
  ultimately show ?thesis
  proof (simp only: returns_simps, elim returns_mono exE)
    fix w' cn'
    assume a: "answered c greeting ?w1 cn w' cn'"
    then have "conn_inv (w'\<lparr>cn_strings := (cn_strings w')(p := None)\<rparr>)"
      by (intro conn_inv_strings_upd) (simp_all add: answered_def)
    then have "answered c greeting w cn (w'\<lparr>cn_strings := (cn_strings w')(p := None)\<rparr>) cn'"
      using a p by (simp add: answered_def fun_upd_idem)
    then show "returns (run_api (FreeString p) w') (\<lambda>w'. \<exists>cn'. answered c greeting w cn w' cn')" by auto
  qed
qed

section \<open>From the attempt to the greeting\<close>

lemma client_greets:
  fixes w :: "'a client_net_scheme"
  assumes at: "connector_at Trying w" and ok: "cl w = Some c" "cl_connectionCallback c = Some UserCb" "cl_nextConnId c \<noteq> 2 ^ 31 - 1"
    and wish: "ct_connect (ct w)" "ct_newConnectionCallback (ct w)"
    and e: "e = next_result w" "re_error e = 0" "\<not> isSelfConnect (re_local e) (re_peer e)" "places_free e w"
    and p: "cn_strings w p = None"
    and up: "next_write (re_sock e) \<notin> {WriteErr EPIPE, WriteErr ECONNRESET}"
  obtains fd x where "ct_open w = [fd]" "cn_strings x = cn_strings w"
    "returns (run_client_handler (client_app p) t ConnectorHandleWrite w) (\<lambda>w'. \<exists>cn'.
       answered (re_conn e) greeting x ((client_conn c fd e (ct_loop (ct w)))\<lparr>cn_state := kConnected\<rparr>) w' cn')"
proof -
  let ?app = "client_app p :: app_event \<Rightarrow> 'a client_net_scheme \<Rightarrow> api list"
  obtain fd w1 where w1: "ct_open w = [fd]"
    "connector_handleWrite (client_newConnection ?app) w = client_newConnection ?app fd e w1"
    "connector_at Cleaning w1" "beside w w1" "same_places w w1" "ct w1 = (ct w)\<lparr>ct_state := cConnected\<rparr>"
    "fd_free fd (ct_loop (ct w)) w1"
    using handleWrite_branches [OF at e(1), of "client_newConnection ?app"] wish e(2,3) by auto
  have cl1: "cl w1 = Some c" using client_more(1) [of w1 w] w1(4) ok(1) by (simp add: beside_def)
  have s1: "cn_strings w1 = cn_strings w" using w1(4) by (simp add: beside_def apart_def)
  have free: "places_free e w1" using e(4) w1(4,5) by (auto simp: places_free_def same_places_def beside_def apart_def)
  let ?l = "ct_loop (ct w1)" and ?c = "re_conn e"
  have fd: "fd_free fd ?l w1" using w1(6,7) by simp
  obtain x el where el: "n_loops w1 ?l = Some el" "threadId el = n_tid w1"
    and x: "x = established ?c (client_conn c fd e ?l) (conn_channel ?l ?c fd) el (client_born c fd e w1)"
    and "linked ?c (client_conn c fd e ?l) (conn_channel ?l ?c fd) el (client_born c fd e w1)"
    and run: "client_newConnection ?app fd e w1 = connectionCallback ?app ?c x" "conn_inv x" "evolves w1 x"
    using w1(3) cl1 ok(3) fd free by (rule newConnection_callback)
  let ?cn = "(client_conn c fd e ?l)\<lparr>cn_state := kConnected\<rparr>"
  let ?x = "x\<lparr>cn_trace := cn_trace x @ [OnConnection ?c]\<rparr>"
  have cn: "cn_conns x ?c = Some ?cn" "cn_strings x = cn_strings w" "n_tid x = n_tid w1"
    "n_loops x ?l \<noteq> None" "\<And>el'. n_loops x ?l = Some el' \<Longrightarrow> threadId el' = threadId el"
    using s1 by (auto simp: x established_def client_born_def)
  then obtain el' where el': "n_loops ?x (cn_loop ?cn) = Some el'" "threadId el' = n_tid ?x" using el(2) by auto
  have new: "pending_out ?cn = []" "next_write (cn_socket ?cn) = next_write (re_sock e)"
    "cn_connectionCallback ?cn = Some UserCb" "cn_outputBuffer ?cn = mk_buffer kInitialSize"
    using ok(2) by (simp_all add: client_conn_def client_configured_def mk_conn_def pending_out_def next_write_def)
  have "returns (fold_res run_api [NewString p greeting, Send ?c p, FreeString p] ?x) (\<lambda>w'. \<exists>cn'. answered ?c greeting ?x ?cn w' cn')"
    by (rule greeting_calls [OF conn_inv_trace [OF run(2)] _ _ el'])
      (use cn p up new in \<open>simp_all add: refused_def room_new_buffer greeting_def\<close>)
  moreover have "run_client_handler ?app t ConnectorHandleWrite w
      = fold_res run_api [NewString p greeting, Send ?c p, FreeString p] ?x"
    using ok(1) w1(2) run(1) cn(1) new(3)
    by (simp add: run_client_handler_def run_conn_handler_def on_connector_def get_client_def get_conn_def
        connectionCallback_def call_app_def client_onConnection_def Let_def del: fold_res.simps)
  ultimately show thesis using w1(1,6) cn(2) by (intro that [of fd ?x]) simp_all
qed

text \<open>The connection of the client before it has sent anything.\<close>

lemma client_conn_new [simp]:
  "pending_out (client_conn c fd e l) = []" "sk_sent (cn_socket (client_conn c fd e l)) = sk_sent (re_sock e)"
  "cn_inputBuffer (client_conn c fd e l) = mk_buffer kInitialSize"
  "cn_outputBuffer (client_conn c fd e l) = mk_buffer kInitialSize"
  "cn_messageCallback (client_conn c fd e l) = cl_messageCallback c"
  by (simp_all add: client_conn_def client_configured_def mk_conn_def pending_out_def)

text \<open>
  C25. The client of example/muduoClient.cc, when its attempt succeeds: the connector hands its
  descriptor over, the connection is established under the next name, and in the same step the
  greeting goes out: what the kernel does not take at once waits in the output buffer, and the
  channel then watches writing. Nothing of the temporary string is left, and no branch fails.
\<close>

theorem client_greets_server:
  fixes w :: "'a client_net_scheme"
  assumes at: "connector_at Trying w" and ok: "cl w = Some c" "cl_connectionCallback c = Some UserCb" "cl_nextConnId c \<noteq> 2 ^ 31 - 1"
    and wish: "ct_connect (ct w)" "ct_newConnectionCallback (ct w)"
    and e: "e = next_result w" "re_error e = 0" "\<not> isSelfConnect (re_local e) (re_peer e)" "places_free e w"
    and p: "cn_strings w p = None"
    and up: "next_write (re_sock e) \<notin> {WriteErr EPIPE, WriteErr ECONNRESET}"
  shows "returns (run_client_handler (client_app p) t ConnectorHandleWrite w) (\<lambda>w'. conn_inv w' \<and> cn_strings w' = cn_strings w
    \<and> (\<exists>cn' ch'. cn_conns w' (re_conn e) = Some cn' \<and> cn_state cn' = kConnected
         \<and> cn_name cn' = client_connName c (client_peer e) \<and> ct_open w = [sk_fd (cn_socket cn')]
         \<and> sk_sent (cn_socket cn') @ pending_out cn' = sk_sent (re_sock e) @ greeting
         \<and> n_chans w' (cn_channel cn') = Some ch' \<and> (isWriting ch' \<longleftrightarrow> pending_out cn' \<noteq> [])))"
proof -
  obtain fd x where x: "ct_open w = [fd]" "cn_strings x = cn_strings w"
    "returns (run_client_handler (client_app p) t ConnectorHandleWrite w) (\<lambda>w'. \<exists>cn'.
       answered (re_conn e) greeting x ((client_conn c fd e (ct_loop (ct w)))\<lparr>cn_state := kConnected\<rparr>) w' cn')"
    using assms by (rule client_greets)
  let ?cn = "(client_conn c fd e (ct_loop (ct w)))\<lparr>cn_state := kConnected\<rparr>"
  show ?thesis
  proof (rule returns_mono [OF x(3)], elim exE)
    fix w' cn'
    assume a: "answered (re_conn e) greeting x ?cn w' cn'"
    then obtain sk b where cn': "cn' = ?cn\<lparr>cn_socket := sk, cn_outputBuffer := b\<rparr>" by (auto simp only: answered_def)
    obtain ch el where l: "linked (re_conn e) cn' ch el w'" "conn_local cn' ch"
      using a by (auto simp only: answered_def elim: conn_invE)
    have "stream ?cn = sk_sent (re_sock e)"
      using client_conn_new(1,2) [of c fd e "ct_loop (ct w)"] by (simp add: stream_def pending_out_def)
    then have s: "sk_sent (cn_socket cn') @ pending_out cn' = sk_sent (re_sock e) @ greeting"
      using a by (simp add: answered_def stream_def)
    have st: "cn_state cn' = kConnected" "cn_name cn' = client_connName c (client_peer e)" by (simp_all add: cn')
    show "conn_inv w' \<and> cn_strings w' = cn_strings w
      \<and> (\<exists>cn' ch'. cn_conns w' (re_conn e) = Some cn' \<and> cn_state cn' = kConnected
         \<and> cn_name cn' = client_connName c (client_peer e) \<and> ct_open w = [sk_fd (cn_socket cn')]
         \<and> sk_sent (cn_socket cn') @ pending_out cn' = sk_sent (re_sock e) @ greeting
         \<and> n_chans w' (cn_channel cn') = Some ch' \<and> (isWriting ch' \<longleftrightarrow> pending_out cn' \<noteq> []))"
      using a l s st x(1,2)
      by (intro conjI exI [of _ cn'] exI [of _ ch])
        (simp_all add: answered_def linked_def conn_local_def same_place_def)
  qed
qed

text \<open>The sample client with the application of muduoClient.cc; the kernel takes five bytes at once.\<close>

definition greeter :: client where
  "greeter = client_setMessageCallback (Some UserCb) (client_setConnectionCallback (Some UserCb) (mk_client ''EchoClient''))"

definition sample_greeter :: client_net where
  "sample_greeter = (let w = sample_trying in
     w\<lparr>cl := Some greeter,
       ct_results := [sample_result\<lparr>re_sock := (re_sock sample_result)\<lparr>sk_writes := [WriteRoom 5]\<rparr>\<rparr>]\<rparr>)"

lemma sample_greeter_simps [simp]:
  "n_tid sample_greeter = n_tid sample_trying" "n_loops sample_greeter = n_loops sample_trying"
  "n_chans sample_greeter = n_chans sample_trying" "cn_conns sample_greeter = cn_conns sample_trying"
  "cn_strings sample_greeter = cn_strings sample_trying" "ct sample_greeter = ct sample_trying"
  "ct_open sample_greeter = ct_open sample_trying"
  by (simp_all add: sample_greeter_def Let_def)

lemma sample_greeter_at: "connector_at Trying sample_greeter"
proof -
  have "apart sample_trying sample_greeter"
    by (rule apart_cong [OF conn_inv_net [OF connector_atD(1) [OF sample_trying_at(1)]]]) simp_all
  from apart_conn_inv [OF connector_atD(1) [OF sample_trying_at(1)] this] show ?thesis
    using sample_trying_at(1) by (simp add: connector_at_def home_def no_conn_fd_def)
qed

lemma sample_greeter_ready:
  "cl sample_greeter = Some greeter" "cl_connectionCallback greeter = Some UserCb" "cl_messageCallback greeter = Some UserCb"
  "cl_nextConnId greeter \<noteq> 2 ^ 31 - 1"
  "ct_connect (ct sample_greeter)" "ct_newConnectionCallback (ct sample_greeter)" "cn_strings sample_greeter 9 = None"
  by (simp_all add: sample_greeter_def greeter_def Let_def client_setConnectionCallback_def client_setMessageCallback_def mk_client_def)
    (simp_all add: sample_trying_def Let_def)

lemma sample_greeter_result:
  "re_error (next_result sample_greeter) = 0"
  "\<not> isSelfConnect (re_local (next_result sample_greeter)) (re_peer (next_result sample_greeter))"
  "places_free (next_result sample_greeter) sample_greeter"
  "next_write (re_sock (next_result sample_greeter)) \<notin> {WriteErr EPIPE, WriteErr ECONNRESET}"
  "sk_sent (re_sock (next_result sample_greeter)) = []" "re_conn (next_result sample_greeter) = 7"
proof -
  have "next_result sample_greeter = sample_result\<lparr>re_sock := (re_sock sample_result)\<lparr>sk_writes := [WriteRoom 5]\<rparr>\<rparr>"
    by (simp add: sample_greeter_def Let_def next_result_def)
  then show "re_error (next_result sample_greeter) = 0"
    "\<not> isSelfConnect (re_local (next_result sample_greeter)) (re_peer (next_result sample_greeter))"
    "places_free (next_result sample_greeter) sample_greeter"
    "next_write (re_sock (next_result sample_greeter)) \<notin> {WriteErr EPIPE, WriteErr ECONNRESET}"
    "sk_sent (re_sock (next_result sample_greeter)) = []" "re_conn (next_result sample_greeter) = 7"
    by (simp_all add: sample_result_def no_result_def isSelfConnect_def getLocalAddr_def getPeerAddr_def
        as_sockaddr_in_def AF_INET_def htons_def next_write_def places_free_def)
      (simp_all add: sample_trying_def Let_def)
qed

theorem client_greets_server_witness:
  "returns (run_client_handler (client_app 9) invalid ConnectorHandleWrite sample_greeter) (\<lambda>w'. \<exists>cn'.
     cn_conns w' 7 = Some cn' \<and> cn_state cn' = kConnected
     \<and> sk_sent (cn_socket cn') @ pending_out cn' = map of_char ''Hello, muduo!'')"
  using client_greets_server [OF sample_greeter_at sample_greeter_ready(1,2,4-6) refl sample_greeter_result(1-3)
      sample_greeter_ready(7) sample_greeter_result(4), of invalid] sample_greeter_result(5,6)
  by (auto simp: greeting_def elim!: returns_mono)

end
