(* ===== verification/Echo_Pipe.thy ===== *)
theory Echo_Pipe
  imports TcpConnection
begin

text \<open>
  What the echo programs of example/ promise to one who looks at the network only: the events of the
  network between a client and a server, and a pipe of five byte queues through which every byte of
  the client goes to the server and back.
\<close>

section \<open>Events of the network\<close>

text \<open>
  \<open>CanWrite\<close>: the socket of a host reports that it can be written, and takes what the answer says.
  \<open>Deliver\<close>: up to \<open>k\<close> bytes arrive at a host and are read; the answer is for a write in the callback.
\<close>

datatype host = AtClient | AtServer

datatype link_event = CanWrite host write_env | Deliver host nat timestamp write_env

definition reset :: "write_env \<Rightarrow> bool" where
  "reset e \<longleftrightarrow> e = WriteErr EPIPE \<or> e = WriteErr ECONNRESET"

fun link_event_ok :: "link_event \<Rightarrow> bool" where
  "link_event_ok (CanWrite h e) \<longleftrightarrow> \<not> reset e"
| "link_event_ok (Deliver h k t e) \<longleftrightarrow> \<not> reset e \<and> k \<le> 65536"

section \<open>The specification\<close>

text \<open>
  What the client has not sent, what is on the way to the server, what waits in the server, what is
  on the way back, and what the client has got.
\<close>

record pipe =
  p_unsent :: "byte list"
  p_up :: "byte list"
  p_held :: "byte list"
  p_down :: "byte list"
  p_back :: "byte list"

fun takes_now :: "write_env \<Rightarrow> nat" where
  "takes_now (WriteRoom r) = r"
| "takes_now (WriteErr e) = 0"

fun pipe_step :: "link_event \<Rightarrow> pipe \<Rightarrow> pipe" where
  "pipe_step (CanWrite AtClient e) q =
     q\<lparr>p_unsent := drop (takes_now e) (p_unsent q), p_up := p_up q @ take (takes_now e) (p_unsent q)\<rparr>"
| "pipe_step (CanWrite AtServer e) q =
     q\<lparr>p_held := drop (takes_now e) (p_held q), p_down := p_down q @ take (takes_now e) (p_held q)\<rparr>"
| "pipe_step (Deliver AtServer k t e) q =
     (let m = take k (p_up q); r = (if p_held q = [] then takes_now e else 0) in
      q\<lparr>p_up := drop k (p_up q), p_held := p_held q @ drop r m, p_down := p_down q @ take r m\<rparr>)"
| "pipe_step (Deliver AtClient k t e) q =
     q\<lparr>p_down := drop k (p_down q), p_back := p_back q @ take k (p_down q)\<rparr>"

definition flow :: "pipe \<Rightarrow> byte list" where
  "flow q = p_back q @ p_down q @ p_held q @ p_up q @ p_unsent q"

lemma link_event_cases [case_names ClientWrites ServerWrites ServerReads ClientReads]:
  obtains e where "ev = CanWrite AtClient e" | e where "ev = CanWrite AtServer e"
    | k t e where "ev = Deliver AtServer k t e" | k t e where "ev = Deliver AtClient k t e"
proof (cases ev)
  case (CanWrite h e)
  then show thesis using that(1,2) by (cases h) auto
next
  case (Deliver h k t e)
  then show thesis using that(3,4) by (cases h) auto
qed

lemma take_drop_then: "take n xs @ drop n xs @ ys = xs @ ys"
  by (simp flip: append_assoc)

lemma flow_step [simp]: "flow (pipe_step ev q) = flow q"
  by (cases ev rule: link_event_cases) (simp_all add: flow_def Let_def take_drop_then del: take_take drop_take)

lemma flow_steps [simp]: "flow (fold pipe_step evs q) = flow q"
  by (induction evs arbitrary: q) simp_all

subsection \<open>Progress\<close>

text \<open>How far the bytes still have to go; an event that changes anything brings them closer.\<close>

definition energy :: "pipe \<Rightarrow> nat" where
  "energy q = 4 * length (p_unsent q) + 3 * length (p_up q) + 2 * length (p_held q) + length (p_down q)"

lemma energy_0: "energy q = 0 \<Longrightarrow> p_back q = flow q"
  by (simp add: energy_def flow_def)

text \<open>Moving the first bytes of a queue moves nothing, or makes the queue shorter.\<close>

lemma moved:
  obtains d m where "drop n xs = d" "take n xs = m" "m = [] \<and> d = xs \<or> m \<noteq> [] \<and> length xs = length d + length m"
proof (cases "take n xs = []")
  case True
  moreover from this have "drop n xs = xs" by (metis append_Nil append_take_drop_id)
  ultimately show thesis using that by blast
next
  case False
  have "length xs = length (drop n xs) + length (take n xs)" by simp
  with False show thesis using that by blast
qed

lemma energy_step: "pipe_step ev q = q \<or> energy (pipe_step ev q) < energy q"
proof (cases ev rule: link_event_cases)
  case (ClientWrites e)
  obtain d m where "drop (takes_now e) (p_unsent q) = d" "take (takes_now e) (p_unsent q) = m"
    "m = [] \<and> d = p_unsent q \<or> m \<noteq> [] \<and> length (p_unsent q) = length d + length m" by (rule moved)
  then show ?thesis by (elim disjE) (simp_all add: ClientWrites energy_def)
next
  case (ServerWrites e)
  obtain d m where "drop (takes_now e) (p_held q) = d" "take (takes_now e) (p_held q) = m"
    "m = [] \<and> d = p_held q \<or> m \<noteq> [] \<and> length (p_held q) = length d + length m" by (rule moved)
  then show ?thesis by (elim disjE) (simp_all add: ServerWrites energy_def)
next
  case (ClientReads k t e)
  obtain d m where "drop k (p_down q) = d" "take k (p_down q) = m"
    "m = [] \<and> d = p_down q \<or> m \<noteq> [] \<and> length (p_down q) = length d + length m" by (rule moved)
  then show ?thesis by (elim disjE) (simp_all add: ClientReads energy_def)
next
  case (ServerReads k t e)
  obtain d m where d: "drop k (p_up q) = d" "take k (p_up q) = m"
    "m = [] \<and> d = p_up q \<or> m \<noteq> [] \<and> length (p_up q) = length d + length m" by (rule moved)
  define r where "r = (if p_held q = [] then takes_now e else 0)"
  obtain d' m' where d': "drop r m = d'" "take r m = m'" "m' = [] \<and> d' = m \<or> m' \<noteq> [] \<and> length m = length d' + length m'"
    by (rule moved)
  have step: "pipe_step ev q = q\<lparr>p_up := d, p_held := p_held q @ d', p_down := p_down q @ m'\<rparr>"
    using d(1,2) d'(1,2) by (simp add: ServerReads r_def Let_def)
  show ?thesis using d(3) d' unfolding step by (elim disjE) (auto simp: energy_def)
qed

lemma energy_falls: "energy (fold pipe_step evs q) \<le> energy q"
proof (induction evs arbitrary: q)
  case (Cons ev evs)
  have "energy (pipe_step ev q) \<le> energy q" using energy_step [of ev q] by auto
  then show ?case using Cons.IH [of "pipe_step ev q"] by simp
qed simp

lemma energy_steps: "(\<forall>ev\<in>set evs. pipe_step ev q = q) \<or> energy (fold pipe_step evs q) < energy q"
proof (induction evs arbitrary: q)
  case (Cons ev evs)
  have "energy (fold pipe_step (ev # evs) q) \<le> energy (pipe_step ev q)" by (simp add: energy_falls)
  then show ?case using energy_step [of ev q] Cons.IH [of q] by (cases "pipe_step ev q = q") simp_all
qed simp

text \<open>A round of events in which every stage of the pipe can move at least one byte.\<close>

definition fair_round :: "link_event list \<Rightarrow> bool" where
  "fair_round evs \<longleftrightarrow> (\<forall>h. \<exists>r > 0. CanWrite h (WriteRoom r) \<in> set evs)
     \<and> (\<forall>h. \<exists>k > 0. \<exists>t e. Deliver h k t e \<in> set evs)"

lemma round_moves:
  assumes "fair_round evs" "energy q \<noteq> 0"
  shows "energy (fold pipe_step evs q) < energy q"
proof -
  have "\<not> (\<forall>ev\<in>set evs. pipe_step ev q = q)"
  proof
    assume fixed: "\<forall>ev\<in>set evs. pipe_step ev q = q"
    have none: "xs = []" if "n > 0" "drop n xs = xs" for n and xs :: "byte list"
    proof -
      have "length xs - n = length xs" using arg_cong [OF that(2), of length] by (simp only: length_drop)
      then have "length xs = 0" using that(1) by linarith
      then show ?thesis by simp
    qed
    obtain r1 r2 where r: "r1 > 0" "pipe_step (CanWrite AtClient (WriteRoom r1)) q = q"
      "r2 > 0" "pipe_step (CanWrite AtServer (WriteRoom r2)) q = q"
      using assms(1) fixed unfolding fair_round_def by blast
    obtain k1 t1 e1 where k1: "k1 > 0" "pipe_step (Deliver AtClient k1 t1 e1) q = q"
      using assms(1) fixed unfolding fair_round_def by meson
    obtain k2 t2 e2 where k2: "k2 > 0" "pipe_step (Deliver AtServer k2 t2 e2) q = q"
      using assms(1) fixed unfolding fair_round_def by meson
    have "drop r1 (p_unsent q) = p_unsent q" "drop r2 (p_held q) = p_held q"
      using arg_cong [OF r(2), of p_unsent] arg_cong [OF r(4), of p_held] by simp_all
    moreover have "drop k2 (p_up q) = p_up q" "drop k1 (p_down q) = p_down q"
      using arg_cong [OF k2(2), of p_up] arg_cong [OF k1(2), of p_down] by (simp_all add: Let_def)
    ultimately have "p_unsent q = []" "p_held q = []" "p_up q = []" "p_down q = []"
      using none r(1,3) k1(1) k2(1) by blast+
    then show False using assms(2) by (simp add: energy_def)
  qed
  then show ?thesis using energy_steps [of evs q] by blast
qed

lemma rounds_finish:
  assumes "\<forall>r\<in>set rounds. fair_round r"
  shows "energy (fold pipe_step (concat rounds) q) \<le> energy q - length rounds"
  using assms
proof (induction rounds arbitrary: q)
  case (Cons r rounds)
  let ?q = "fold pipe_step r q"
  have "energy ?q \<le> energy q - 1"
    using round_moves [of r q] Cons.prems energy_falls [of r q] by (cases "energy q = 0") auto
  then show ?case using Cons.IH [of ?q] Cons.prems by simp
qed simp

end
