(* ===== verification/Echo_Link.thy ===== *)
theory Echo_Link
  imports Echo_Pipe Echo_Client
begin

text \<open>
  The client of example/muduoClient.cc and the server of example/muduoServer.cc over a network: two hosts,
  each with its own net of loops and connections, and between them the bytes that one kernel has
  taken and the other not yet delivered. The two programs refine the pipe of Echo_Pipe.
\<close>

section \<open>Two hosts and a network\<close>

record ('a, 'b) link =
  ln_client :: "'a conn_net_scheme"
  ln_server :: "'b conn_net_scheme"
  ln_up :: "byte list"
  ln_down :: "byte list"
  ln_back :: "byte list"

definition sent_by :: "nat \<Rightarrow> 'a conn_net_scheme \<Rightarrow> byte list" where
  "sent_by c w = (case cn_conns w c of None \<Rightarrow> [] | Some cn \<Rightarrow> sk_sent (cn_socket cn))"

definition waiting_in :: "nat \<Rightarrow> 'a conn_net_scheme \<Rightarrow> byte list" where
  "waiting_in c w = (case cn_conns w c of None \<Rightarrow> [] | Some cn \<Rightarrow> pending_out cn)"

text \<open>
  A handler of connection \<open>c\<close>, with what the kernel has to read and answers to a write: the bytes that
  the kernel took meanwhile, and the state of the host.
\<close>

definition offer :: "nat \<Rightarrow> read_env list \<Rightarrow> write_env \<Rightarrow> 'a conn_net_scheme \<Rightarrow> 'a conn_net_scheme res" where
  "offer c rs e = upd_conn c (\<lambda>cn. cn\<lparr>cn_socket := (cn_socket cn)\<lparr>sk_reads := rs, sk_writes := [e]\<rparr>\<rparr>)"

definition host_io :: "nat \<Rightarrow> read_env list \<Rightarrow> write_env \<Rightarrow> ('a conn_net_scheme \<Rightarrow> 'a conn_net_scheme res) \<Rightarrow>
    'a conn_net_scheme \<Rightarrow> (byte list \<times> 'a conn_net_scheme) res" where
  "host_io c rs e handler w = bind_res (offer c rs e w) (\<lambda>x. bind_res (handler x) (\<lambda>w'.
     Inr (drop (length (sent_by c w)) (sent_by c w'), w')))"

text \<open>
  The connection of the client is \<open>c1\<close> with its string at \<open>p1\<close>, that of the server \<open>c2\<close> with \<open>p2\<close>;
  \<open>close1\<close> and \<open>close2\<close> are the close callbacks of their owners.
\<close>

fun link_step :: "(close_target \<Rightarrow> nat \<Rightarrow> 'a conn_net_scheme \<Rightarrow> 'a conn_net_scheme res) \<Rightarrow>
    (close_target \<Rightarrow> nat \<Rightarrow> 'b conn_net_scheme \<Rightarrow> 'b conn_net_scheme res) \<Rightarrow> nat \<times> nat \<Rightarrow> nat \<times> nat \<Rightarrow>
    link_event \<Rightarrow> ('a, 'b) link \<Rightarrow> ('a, 'b) link res" where
  "link_step close1 close2 (c1, p1) (c2, p2) (CanWrite AtClient e) s =
     bind_res (host_io c1 [] e (handleWrite c1) (ln_client s)) (\<lambda>(out, w).
       Inr (s\<lparr>ln_client := w, ln_up := ln_up s @ out\<rparr>))"
| "link_step close1 close2 (c1, p1) (c2, p2) (CanWrite AtServer e) s =
     bind_res (host_io c2 [] e (handleWrite c2) (ln_server s)) (\<lambda>(out, w).
       Inr (s\<lparr>ln_server := w, ln_down := ln_down s @ out\<rparr>))"
| "link_step close1 close2 (c1, p1) (c2, p2) (Deliver AtServer k t e) s =
     (let d = take k (ln_up s) in
      if d = [] then Inr s
      else bind_res (host_io c2 [ReadData d] e (handleRead (server_app p2) close2 t c2) (ln_server s)) (\<lambda>(out, w).
        Inr (s\<lparr>ln_server := w, ln_up := drop k (ln_up s), ln_down := ln_down s @ out\<rparr>)))"
| "link_step close1 close2 (c1, p1) (c2, p2) (Deliver AtClient k t e) s =
     (let d = take k (ln_down s) in
      if d = [] then Inr s
      else bind_res (host_io c1 [ReadData d] e (handleRead (client_app p1) close1 t c1) (ln_client s)) (\<lambda>(out, w).
        Inr (s\<lparr>ln_client := w, ln_down := drop k (ln_down s), ln_up := ln_up s @ out, ln_back := ln_back s @ d\<rparr>)))"

definition pipe_of :: "nat \<Rightarrow> nat \<Rightarrow> ('a, 'b) link \<Rightarrow> pipe" where
  "pipe_of c1 c2 s = \<lparr>p_unsent = waiting_in c1 (ln_client s), p_up = ln_up s, p_held = waiting_in c2 (ln_server s),
     p_down = ln_down s, p_back = ln_back s\<rparr>"

section \<open>One handler of one host\<close>

lemma serving_conn: "serving c p n w cn \<Longrightarrow> cn_conns w c = Some cn"
  by (simp add: serving_def)

lemma serving_mono: "serving c p n w cn \<Longrightarrow> m \<le> n \<Longrightarrow> serving c p m w cn"
  by (auto simp: serving_def elim: room_mono)

lemma serving_offer:
  assumes "serving c p n w cn"
  obtains cn0 x where "offer c rs e w = Inr x" "serving c p n x cn0"
    "cn0 = cn\<lparr>cn_socket := (cn_socket cn)\<lparr>sk_reads := rs, sk_writes := [e]\<rparr>\<rparr>"
proof -
  let ?cn = "cn\<lparr>cn_socket := (cn_socket cn)\<lparr>sk_reads := rs, sk_writes := [e]\<rparr>\<rparr>"
  have "good {} w (Inr (put_conn c ?cn w))"
    by (rule good_put_conn [where cn = cn])
      (use assms in \<open>auto simp: serving_def advances_def same_place_def stream_def pending_out_def conn_local_def\<close>)
  then have "serving c p n (put_conn c ?cn w) ?cn"
    using assms by (auto simp: serving_def good_def)
  moreover have "offer c rs e w = Inr (put_conn c ?cn w)"
    using assms by (simp add: offer_def upd_conn_def get_conn_def serving_def)
  ultimately show thesis by (intro that) simp_all
qed

lemma offered_write:
  assumes "serving c p n x cn0" "cn0 = cn\<lparr>cn_socket := (cn_socket cn)\<lparr>sk_reads := rs, sk_writes := [e]\<rparr>\<rparr>" "\<not> reset e"
  shows "next_write (cn_socket cn0) = e" "no_reset cn0" "pending_out cn0 = pending_out cn"
    "sk_sent (cn_socket cn0) = sk_sent (cn_socket cn)"
proof -
  show n: "no_reset cn0" using assms(2,3) by (auto simp: no_reset_def reset_def)
  show "next_write (cn_socket cn0) = e"
    using serving_not_refused(2) [OF assms(1) n] assms(2) by (simp add: next_write_def)
qed (simp_all add: assms(2) pending_out_def)

lemma host_io_returns:
  assumes "serving c p n w cn" "offer c rs e w = Inr x" "sk_sent (cn_socket cn0) = sk_sent (cn_socket cn)"
    and handler: "returns (f x) Q" "\<And>w'. Q w' \<Longrightarrow> \<exists>cn'. serving c p m w' cn'
      \<and> sk_sent (cn_socket cn') = sk_sent (cn_socket cn0) @ bs \<and> pending_out cn' = rest"
  shows "returns (host_io c rs e f w) (\<lambda>(out, w'). \<exists>cn'. serving c p m w' cn' \<and> out = bs \<and> pending_out cn' = rest)"
proof -
  obtain w' where w': "f x = Inr w'" "Q w'" using handler(1) by (auto simp: returns_iff)
  obtain cn' where cn': "serving c p m w' cn'" "sk_sent (cn_socket cn') = sk_sent (cn_socket cn0) @ bs" "pending_out cn' = rest"
    using handler(2) [OF w'(2)] by blast
  have "host_io c rs e f w = Inr (bs, w')"
    using assms(2,3) w'(1) cn'(2) serving_conn [OF assms(1)] serving_conn [OF cn'(1)]
    by (simp add: host_io_def sent_by_def)
  then show ?thesis using cn' by auto
qed

lemma host_write:
  assumes s: "serving c p n w cn" and e: "\<not> reset e"
  shows "returns (host_io c [] e (handleWrite c) w) (\<lambda>(out, w'). \<exists>cn'. serving c p n w' cn'
     \<and> out = take (takes_now e) (pending_out cn) \<and> pending_out cn' = drop (takes_now e) (pending_out cn))"
proof -
  obtain cn0 x where x: "offer c [] e w = Inr x" "serving c p n x cn0"
    "cn0 = cn\<lparr>cn_socket := (cn_socket cn)\<lparr>sk_reads := [], sk_writes := [e]\<rparr>\<rparr>" using s by (rule serving_offer)
  note o = offered_write [OF x(2,3) e]
  have n: "take (written cn0) (pending_out cn) = take (takes_now e) (pending_out cn)"
    "drop (written cn0) (pending_out cn) = drop (takes_now e) (pending_out cn)"
    using o(1,3) by (cases e; simp add: written_def min_def)+
  from serving_write [OF x(2)] show ?thesis
    by (rule host_io_returns [OF s x(1) o(4)]) (use n o(3) in auto)
qed

lemma host_server_read:
  assumes s: "serving c p (length d + n) w cn" and d: "d \<noteq> []" "length d \<le> 65536" and e: "\<not> reset e"
    and r: "r = (if pending_out cn = [] then takes_now e else 0)"
  shows "returns (host_io c [ReadData d] e (handleRead (server_app p) close t c) w) (\<lambda>(out, w'). \<exists>cn'. serving c p n w' cn'
     \<and> out = take r d \<and> pending_out cn' = pending_out cn @ drop r d)"
proof -
  obtain cn0 x where x: "offer c [ReadData d] e w = Inr x" "serving c p (length d + n) x cn0"
    "cn0 = cn\<lparr>cn_socket := (cn_socket cn)\<lparr>sk_reads := [ReadData d], sk_writes := [e]\<rparr>\<rparr>" using s by (rule serving_offer)
  note o = offered_write [OF x(2,3) e]
  have n: "take (taken cn0 d) d = take r d" "drop (taken cn0 d) d = drop r d"
    using o(1,3) r by (cases e; simp add: taken_def min_def)+
  have "next_read (cn_socket cn0) = ReadData d" by (simp add: x(3) next_read_def)
  from server_read [OF x(2) o(2) d this] show ?thesis
    by (rule host_io_returns [OF s x(1) o(4)]) (use n o(3) in auto)
qed

lemma host_client_read:
  assumes s: "serving c p (length d + n) w cn" and d: "d \<noteq> []" "length d \<le> 65536" and e: "\<not> reset e"
  shows "returns (host_io c [ReadData d] e (handleRead (client_app p) close t c) w) (\<lambda>(out, w'). \<exists>cn'. serving c p n w' cn'
     \<and> out = [] \<and> pending_out cn' = pending_out cn)"
proof -
  obtain cn0 x where x: "offer c [ReadData d] e w = Inr x" "serving c p (length d + n) x cn0"
    "cn0 = cn\<lparr>cn_socket := (cn_socket cn)\<lparr>sk_reads := [ReadData d], sk_writes := [e]\<rparr>\<rparr>" using s by (rule serving_offer)
  note o = offered_write [OF x(2,3) e]
  have "next_read (cn_socket cn0) = ReadData d" by (simp add: x(3) next_read_def)
  from client_read [OF x(2) d this] show ?thesis
    by (rule host_io_returns [OF s x(1) o(4)]) (use o(3) in auto)
qed

section \<open>The programs refine the pipe\<close>

text \<open>Both connections are served, with room for all the bytes that may still come.\<close>

definition link_ok :: "nat \<times> nat \<Rightarrow> nat \<times> nat \<Rightarrow> ('a, 'b) link \<Rightarrow> bool" where
  "link_ok i j s \<longleftrightarrow> (\<exists>cn1 cn2.
     serving (fst i) (snd i) (length (ln_down s) + length (pending_out cn2) + length (ln_up s) + length (pending_out cn1)) (ln_client s) cn1
   \<and> serving (fst j) (snd j) (length (ln_up s) + length (pending_out cn1)) (ln_server s) cn2)"

lemma link_okE:
  assumes "link_ok (c1, p1) (c2, p2) s"
  obtains cn1 cn2 where
    "serving c1 p1 (length (ln_down s) + length (pending_out cn2) + length (ln_up s) + length (pending_out cn1)) (ln_client s) cn1"
    "serving c2 p2 (length (ln_up s) + length (pending_out cn1)) (ln_server s) cn2"
  using assms by (auto simp: link_ok_def)

lemma pipe_of_serving:
  assumes "serving c1 p1 n (ln_client s) cn1" "serving c2 p2 m (ln_server s) cn2"
  shows "pipe_of c1 c2 s = \<lparr>p_unsent = pending_out cn1, p_up = ln_up s, p_held = pending_out cn2, p_down = ln_down s, p_back = ln_back s\<rparr>"
  using serving_conn [OF assms(1)] serving_conn [OF assms(2)] by (simp add: pipe_of_def waiting_in_def)

text \<open>The state after an event, from the connections it ends with.\<close>

lemma link_steps_to:
  assumes "serving c1 p1 n1 (ln_client s) cn1" "serving c2 p2 n2 (ln_server s) cn2"
    and "length (ln_down s) + length (pending_out cn2) + length (ln_up s) + length (pending_out cn1) \<le> n1"
    and "length (ln_up s) + length (pending_out cn1) \<le> n2"
    and "q = \<lparr>p_unsent = pending_out cn1, p_up = ln_up s, p_held = pending_out cn2, p_down = ln_down s, p_back = ln_back s\<rparr>"
  shows "link_ok (c1, p1) (c2, p2) s \<and> pipe_of c1 c2 s = q"
  using serving_mono [OF assms(1,3)] serving_mono [OF assms(2,4)] pipe_of_serving [OF assms(1,2)] assms(5)
  by (auto simp: link_ok_def)

lemma link_step_ok:
  assumes ok: "link_ok (c1, p1) (c2, p2) s" and ev: "link_event_ok ev"
  shows "returns (link_step close1 close2 (c1, p1) (c2, p2) ev s) (\<lambda>s'. link_ok (c1, p1) (c2, p2) s'
     \<and> pipe_of c1 c2 s' = pipe_step ev (pipe_of c1 c2 s))"
proof -
  obtain cn1 cn2 where a: "serving c1 p1 (length (ln_down s) + length (pending_out cn2) + length (ln_up s) + length (pending_out cn1)) (ln_client s) cn1"
    and b: "serving c2 p2 (length (ln_up s) + length (pending_out cn1)) (ln_server s) cn2" using ok by (rule link_okE)
  note p = pipe_of_serving [OF a b]
  show ?thesis
  proof (cases ev rule: link_event_cases)
    case (ClientWrites e)
    obtain w' cn' where w': "host_io c1 [] e (handleWrite c1) (ln_client s) = Inr (take (takes_now e) (pending_out cn1), w')"
      "serving c1 p1 (length (ln_down s) + length (pending_out cn2) + length (ln_up s) + length (pending_out cn1)) w' cn'"
      "pending_out cn' = drop (takes_now e) (pending_out cn1)"
      using host_write [OF a, of e] ev ClientWrites by (auto simp: returns_iff)
    show ?thesis unfolding ClientWrites link_step.simps w'(1) bind_res_simps split_conv returns_simps
      by (rule link_steps_to [where s = "s\<lparr>ln_client := w', ln_up := ln_up s @ take (takes_now e) (pending_out cn1)\<rparr>", simplified, OF w'(2) b])
        (use w'(3) in \<open>auto simp: p min_def\<close>)
  next
    case (ServerWrites e)
    obtain w' cn' where w': "host_io c2 [] e (handleWrite c2) (ln_server s) = Inr (take (takes_now e) (pending_out cn2), w')"
      "serving c2 p2 (length (ln_up s) + length (pending_out cn1)) w' cn'"
      "pending_out cn' = drop (takes_now e) (pending_out cn2)"
      using host_write [OF b, of e] ev ServerWrites by (auto simp: returns_iff)
    show ?thesis unfolding ServerWrites link_step.simps w'(1) bind_res_simps split_conv returns_simps
      by (rule link_steps_to [where s = "s\<lparr>ln_server := w', ln_down := ln_down s @ take (takes_now e) (pending_out cn2)\<rparr>", simplified, OF a w'(2)])
        (use w'(3) in \<open>auto simp: p min_def\<close>)
  next
    case (ServerReads k t e)
    define d where "d = take k (ln_up s)"
    define r where "r = (if pending_out cn2 = [] then takes_now e else 0)"
    have len: "length (ln_up s) = length d + length (drop k (ln_up s))" by (simp add: d_def)
    have split: "length d = length (take r d) + length (drop r d)" by simp
    have q: "pipe_step ev (pipe_of c1 c2 s) = \<lparr>p_unsent = pending_out cn1, p_up = drop k (ln_up s),
        p_held = pending_out cn2 @ drop r d, p_down = ln_down s @ take r d, p_back = ln_back s\<rparr>"
      by (simp add: ServerReads p d_def r_def Let_def)
    show ?thesis
    proof (cases "d = []")
      case True
      then have "drop k (ln_up s) = ln_up s" by (auto simp: d_def)
      then have same: "pipe_step ev (pipe_of c1 c2 s) = pipe_of c1 c2 s" unfolding q unfolding p using True by simp
      have "link_step close1 close2 (c1, p1) (c2, p2) ev s = Inr s" using True by (simp add: ServerReads d_def)
      then show ?thesis using ok same by simp
    next
      case False
      have d: "length d \<le> 65536" "\<not> reset e" using ev ServerReads by (simp_all add: d_def min_le_iff_disj)
      have sv: "serving c2 p2 (length d + (length (drop k (ln_up s)) + length (pending_out cn1))) (ln_server s) cn2"
        using b by (simp only: len add.assoc)
      obtain w' cn' where w': "host_io c2 [ReadData d] e (handleRead (server_app p2) close2 t c2) (ln_server s) = Inr (take r d, w')"
        "serving c2 p2 (length (drop k (ln_up s)) + length (pending_out cn1)) w' cn'"
        "pending_out cn' = pending_out cn2 @ drop r d"
        using host_server_read [OF sv False d r_def, of close2 t] unfolding returns_iff by (elim exE conjE) (auto split: prod.splits)
      have "link_step close1 close2 (c1, p1) (c2, p2) ev s = Inr (s\<lparr>ln_server := w', ln_up := drop k (ln_up s), ln_down := ln_down s @ take r d\<rparr>)"
        using False w'(1) by (simp add: ServerReads d_def Let_def)
      then show ?thesis unfolding q
        by (simp only: returns_simps, intro link_steps_to
            [where s = "s\<lparr>ln_server := w', ln_up := drop k (ln_up s), ln_down := ln_down s @ take r d\<rparr>", simplified, OF a w'(2)])
          (use w'(3) in \<open>auto simp: d_def min_def\<close>)
    qed
  next
    case (ClientReads k t e)
    define d where "d = take k (ln_down s)"
    have len: "length (ln_down s) = length d + length (drop k (ln_down s))" by (simp add: d_def)
    have q: "pipe_step ev (pipe_of c1 c2 s) = \<lparr>p_unsent = pending_out cn1, p_up = ln_up s,
        p_held = pending_out cn2, p_down = drop k (ln_down s), p_back = ln_back s @ d\<rparr>"
      by (simp add: ClientReads p d_def)
    show ?thesis
    proof (cases "d = []")
      case True
      then have "drop k (ln_down s) = ln_down s" by (auto simp: d_def)
      then have same: "pipe_step ev (pipe_of c1 c2 s) = pipe_of c1 c2 s" unfolding q unfolding p using True by simp
      have "link_step close1 close2 (c1, p1) (c2, p2) ev s = Inr s" using True by (simp add: ClientReads d_def)
      then show ?thesis using ok same by simp
    next
      case False
      have d: "length d \<le> 65536" "\<not> reset e" using ev ClientReads by (simp_all add: d_def min_le_iff_disj)
      have sv: "serving c1 p1 (length d + (length (drop k (ln_down s)) + length (pending_out cn2) + length (ln_up s)
          + length (pending_out cn1))) (ln_client s) cn1"
        using a by (simp only: len add.assoc)
      obtain w' cn' where w': "host_io c1 [ReadData d] e (handleRead (client_app p1) close1 t c1) (ln_client s) = Inr ([], w')"
        "serving c1 p1 (length (drop k (ln_down s)) + length (pending_out cn2) + length (ln_up s) + length (pending_out cn1)) w' cn'"
        "pending_out cn' = pending_out cn1"
        using host_client_read [OF sv False d, of close1 t] unfolding returns_iff by (elim exE conjE) (auto split: prod.splits)
      have "link_step close1 close2 (c1, p1) (c2, p2) ev s = Inr (s\<lparr>ln_client := w', ln_down := drop k (ln_down s), ln_back := ln_back s @ d\<rparr>)"
        using False w'(1) by (simp add: ClientReads d_def Let_def)
      then show ?thesis unfolding q
        by (simp only: returns_simps, intro link_steps_to
            [where s = "s\<lparr>ln_client := w', ln_down := drop k (ln_down s), ln_back := ln_back s @ d\<rparr>", simplified, OF w'(2) b])
          (use w'(3) in \<open>auto simp: d_def min_def\<close>)
    qed
  qed
qed

lemma link_steps_ok:
  fixes s :: "('a, 'b) link"
  assumes "link_ok (c1, p1) (c2, p2) s" "\<forall>ev\<in>set evs. link_event_ok ev"
  shows "returns (fold_res (link_step close1 close2 (c1, p1) (c2, p2)) evs s) (\<lambda>s'. link_ok (c1, p1) (c2, p2) s'
     \<and> pipe_of c1 c2 s' = fold pipe_step evs (pipe_of c1 c2 s))"
  using assms
proof (induction evs arbitrary: s)
  case (Cons ev evs)
  show ?case unfolding fold_res.simps returns_simps
  proof (rule returns_mono [OF link_step_ok [OF Cons.prems(1)]])
    fix s1 :: "('a, 'b) link"
    assume 1: "link_ok (c1, p1) (c2, p2) s1 \<and> pipe_of c1 c2 s1 = pipe_step ev (pipe_of c1 c2 s)"
    then show "returns (fold_res (link_step close1 close2 (c1, p1) (c2, p2)) evs s1) (\<lambda>s'. link_ok (c1, p1) (c2, p2) s'
       \<and> pipe_of c1 c2 s' = fold pipe_step (ev # evs) (pipe_of c1 c2 s))"
      using Cons.IH [of s1] Cons.prems(2) by simp
  qed (use Cons.prems(2) in simp)
qed simp

text \<open>
  C5. The two echo programs over a network refine the pipe of Echo_Pipe, event by event: whatever
  sizes the kernels take and deliver, and in whatever order the four kinds of events come, the bytes
  waiting in the two output buffers, those on the way, and those back at the client are what the pipe
  says. No event fails, and both connections stay established.
\<close>

theorem programs_refine_pipe:
  assumes "link_ok (c1, p1) (c2, p2) s" "\<forall>ev\<in>set evs. link_event_ok ev"
  shows "returns (fold_res (link_step close1 close2 (c1, p1) (c2, p2)) evs s) (\<lambda>s'.
    pipe_of c1 c2 s' = fold pipe_step evs (pipe_of c1 c2 s) \<and> link_ok (c1, p1) (c2, p2) s')"
  by (rule returns_mono [OF link_steps_ok [OF assms]]) simp

text \<open>Two bytes on the way to the server; the first is delivered, echoed and comes back.\<close>

definition sample_link :: "(unit, unit) link" where
  "sample_link = \<lparr>ln_client = sample_host, ln_server = sample_host, ln_up = [104, 105], ln_down = [], ln_back = []\<rparr>"

lemma sample_host_serving: "n < 2 ^ 63 \<Longrightarrow> serving 5 9 n sample_host sample_host_conn"
  using sample_host_inv by (auto simp: serving_def room_new_buffer) (simp_all add: sample_host_def)

theorem programs_refine_pipe_witness:
  "returns (fold_res (link_step (\<lambda>t c w. Inr w) (\<lambda>t c w. Inr w) (5, 9) (5, 9))
      [Deliver AtServer 1 invalid (WriteErr EWOULDBLOCK), CanWrite AtServer (WriteRoom 8), Deliver AtClient 7 invalid (WriteRoom 0)]
      sample_link) (\<lambda>s'. ln_back s' = [104] \<and> ln_up s' = [105])"
proof -
  let ?evs = "[Deliver AtServer 1 invalid (WriteErr EWOULDBLOCK), CanWrite AtServer (WriteRoom 8), Deliver AtClient 7 invalid (WriteRoom 0)]"
  have "link_ok (5, 9) (5, 9) sample_link \<and> pipe_of 5 5 sample_link
      = \<lparr>p_unsent = [], p_up = [104, 105], p_held = [], p_down = [], p_back = []\<rparr>"
    by (rule link_steps_to [of 5 9 2 _ sample_host_conn 5 9 2 sample_host_conn])
      (simp_all add: sample_link_def sample_host_serving)
  moreover have "\<forall>ev\<in>set ?evs. link_event_ok ev" by (simp add: reset_def EWOULDBLOCK_def EPIPE_def ECONNRESET_def)
  ultimately have "returns (fold_res (link_step (\<lambda>t c w. Inr w) (\<lambda>t c w. Inr w) (5, 9) (5, 9)) ?evs sample_link)
     (\<lambda>s'. pipe_of 5 5 s' = fold pipe_step ?evs \<lparr>p_unsent = [], p_up = [104, 105], p_held = [], p_down = [], p_back = []\<rparr>)"
    using programs_refine_pipe [of 5 9 5 9 sample_link ?evs "\<lambda>t c w. Inr w" "\<lambda>t c w. Inr w"]
    by (auto simp del: fold_res.simps elim!: returns_mono)
  then show ?thesis by (rule returns_mono) (simp add: pipe_of_def Let_def)
qed

section \<open>The greeting comes back\<close>

text \<open>The link when the client has greeted: what its kernel has taken is on the way.\<close>

definition link_start :: "nat \<Rightarrow> 'a conn_net_scheme \<Rightarrow> 'b conn_net_scheme \<Rightarrow> ('a, 'b) link" where
  "link_start c1 w ws = \<lparr>ln_client = w, ln_server = ws, ln_up = sent_by c1 w, ln_down = [], ln_back = []\<rparr>"

lemma answered_serving:
  assumes a: "answered c msg x cn w cn'" and cn: "cn_state cn = kConnected" "cn_messageCallback cn = Some UserCb"
    "content (cn_inputBuffer cn) = []" "room n (cn_inputBuffer cn)" "room (n + length msg) (cn_outputBuffer cn)"
    and p: "cn_strings x p = None"
  shows "serving c p n w cn'"
proof -
  obtain sk b where cn': "cn' = cn\<lparr>cn_socket := sk, cn_outputBuffer := b\<rparr>" using a by (auto simp only: answered_def)
  show ?thesis using a cn p by (auto simp: answered_def serving_def room_left_def cn')
qed

text \<open>
  C4. The greeting of example/muduoClient.cc comes back from example/muduoServer.cc. From the event at which the
  connector's attempt has succeeded, over any events of the network: every byte of the greeting is at
  one place, back at the client, on the way, or in an output buffer, and these places in order are
  the greeting. After enough rounds in which each of the four kinds of events moves something, the
  client has got the whole greeting.
\<close>

theorem greeting_comes_back:
  fixes w :: "'a client_net_scheme" and ws :: "'b conn_net_scheme"
  assumes at: "connector_at Trying w" and ok: "cl w = Some c" "cl_connectionCallback c = Some UserCb" "cl_nextConnId c \<noteq> 2 ^ 31 - 1"
    and wish: "ct_connect (ct w)" "ct_newConnectionCallback (ct w)"
    and e: "e = next_result w" "re_error e = 0" "\<not> isSelfConnect (re_local e) (re_peer e)" "places_free e w"
    and p: "cn_strings w p1 = None"
    and up: "next_write (re_sock e) \<notin> {WriteErr EPIPE, WriteErr ECONNRESET}"
    and msg: "cl_messageCallback c = Some UserCb" "sk_sent (re_sock e) = []"
    and server: "conn_inv ws" "cn_conns ws c2 = Some cn2" "cn_state cn2 = kConnected" "cn_messageCallback cn2 = Some UserCb"
      "n_loops ws (cn_loop cn2) = Some el" "threadId el = n_tid ws" "cn_strings ws p2 = None"
      "content (cn_inputBuffer cn2) = []" "pending_out cn2 = []"
      "room (length greeting) (cn_inputBuffer cn2)" "room (length greeting) (cn_outputBuffer cn2)"
    and evs: "\<forall>ev\<in>set evs. link_event_ok ev"
  shows "returns (bind_res (run_client_handler (client_app p1) t ConnectorHandleWrite w) (\<lambda>w'.
      fold_res (link_step close1 close2 (re_conn e, p1) (c2, p2)) evs (link_start (re_conn e) w' ws))) (\<lambda>s.
    ln_back s @ ln_down s @ waiting_in c2 (ln_server s) @ ln_up s @ waiting_in (re_conn e) (ln_client s) = greeting
    \<and> (\<forall>rounds. evs = concat rounds \<and> (\<forall>r\<in>set rounds. fair_round r) \<and> 4 * length greeting \<le> length rounds
        \<longrightarrow> ln_back s = greeting))"
proof -
  let ?c = "re_conn e"
  obtain fd x where x: "ct_open w = [fd]" "cn_strings x = cn_strings w"
    "returns (run_client_handler (client_app p1) t ConnectorHandleWrite w) (\<lambda>w'. \<exists>cn'.
       answered ?c greeting x ((client_conn c fd e (ct_loop (ct w)))\<lparr>cn_state := kConnected\<rparr>) w' cn')"
    using at ok wish e p up by (rule client_greets)
  let ?cn = "(client_conn c fd e (ct_loop (ct w)))\<lparr>cn_state := kConnected\<rparr>"
  show ?thesis unfolding returns_simps
  proof (rule returns_mono [OF x(3)], elim exE)
    fix w' cn1
    assume a: "answered ?c greeting x ?cn w' cn1"
    let ?s = "link_start ?c w' ws"
    have "serving ?c p1 (2 * length greeting) w' cn1"
      by (rule answered_serving [OF a]) (use msg p x(2) in \<open>simp_all add: room_new_buffer greeting_def\<close>)
    moreover have "serving c2 p2 (length greeting) ws cn2" using server by (auto simp: serving_def)
    moreover have "stream ?cn = []"
      using client_conn_new(1,2) [of c fd e "ct_loop (ct w)"] msg(2) by (simp add: stream_def pending_out_def)
    then have out: "sent_by ?c w' @ pending_out cn1 = greeting"
      using a by (simp add: answered_def stream_def sent_by_def)
    then have len: "length (sent_by ?c w') + length (pending_out cn1) = length greeting" by (metis length_append)
    ultimately have start: "link_ok (?c, p1) (c2, p2) ?s
      \<and> pipe_of ?c c2 ?s = \<lparr>p_unsent = pending_out cn1, p_up = sent_by ?c w', p_held = [], p_down = [], p_back = []\<rparr>"
      using len server(9)
      by (intro link_steps_to [of ?c p1 "2 * length greeting" ?s cn1 c2 p2 "length greeting" cn2]) (simp_all add: link_start_def)
    let ?q = "pipe_of ?c c2 ?s"
    have flow: "flow ?q = greeting" using start out by (simp add: flow_def)
    have energy: "energy ?q \<le> 4 * length greeting" using start len by (simp add: energy_def)
    show "returns (fold_res (link_step close1 close2 (?c, p1) (c2, p2)) evs ?s) (\<lambda>s.
      ln_back s @ ln_down s @ waiting_in c2 (ln_server s) @ ln_up s @ waiting_in ?c (ln_client s) = greeting
      \<and> (\<forall>rounds. evs = concat rounds \<and> (\<forall>r\<in>set rounds. fair_round r) \<and> 4 * length greeting \<le> length rounds
          \<longrightarrow> ln_back s = greeting))"
    proof (rule returns_mono [OF link_steps_ok [OF conjunct1 [OF start] evs]], intro conjI allI impI, elim conjE)
      fix s
      assume s: "pipe_of ?c c2 s = fold pipe_step evs ?q"
      show "ln_back s @ ln_down s @ waiting_in c2 (ln_server s) @ ln_up s @ waiting_in ?c (ln_client s) = greeting"
        using flow_steps [of evs ?q] flow unfolding s [symmetric] by (simp add: flow_def pipe_of_def)
    next
      fix s rounds
      assume s: "link_ok (?c, p1) (c2, p2) s \<and> pipe_of ?c c2 s = fold pipe_step evs ?q"
        and r: "evs = concat rounds \<and> (\<forall>r\<in>set rounds. fair_round r) \<and> 4 * length greeting \<le> length rounds"
      then have "energy (pipe_of ?c c2 s) = 0" using rounds_finish [of rounds ?q] energy by simp
      then have "p_back (pipe_of ?c c2 s) = flow (fold pipe_step evs ?q)" using s by (simp add: energy_0)
      then show "ln_back s = greeting" using flow by (simp add: pipe_of_def)
    qed
  qed
qed

text \<open>The sample client and a server; in each round at most one byte is written and four are delivered.\<close>

definition sample_round :: "link_event list" where
  "sample_round = [CanWrite AtClient (WriteRoom 1), Deliver AtServer 4 invalid (WriteRoom 1), CanWrite AtServer (WriteRoom 1),
     Deliver AtClient 4 invalid (WriteRoom 0)]"

lemma sample_round_fair: "fair_round sample_round" "ev \<in> set sample_round \<Longrightarrow> link_event_ok ev"
proof -
  have "\<exists>r > 0. CanWrite h (WriteRoom r) \<in> set sample_round" "\<exists>k > 0. \<exists>t e. Deliver h k t e \<in> set sample_round" for h
    by (cases h; auto simp: sample_round_def intro: exI [of _ 1] exI [of _ 4])+
  then show "fair_round sample_round" by (simp add: fair_round_def)
  show "link_event_ok ev" if "ev \<in> set sample_round" using that by (auto simp: sample_round_def reset_def)
qed

theorem greeting_comes_back_witness:
  "returns (bind_res (run_client_handler (client_app 9) invalid ConnectorHandleWrite sample_greeter) (\<lambda>w'.
      fold_res (link_step (\<lambda>t c w. Inr w) (\<lambda>t c w. Inr w) (7, 9) (5, 9)) (concat (replicate 52 sample_round))
        (link_start 7 w' sample_host))) (\<lambda>s. ln_back s = map of_char ''Hello, muduo!'')"
proof -
  let ?evs = "concat (replicate 52 sample_round)"
  have len: "length greeting = 13" by (simp add: greeting_def)
  have sv: "conn_inv sample_host" "cn_conns sample_host 5 = Some sample_host_conn"
    "n_loops sample_host (cn_loop sample_host_conn) = Some sample_evloop" "threadId sample_evloop = n_tid sample_host"
    "cn_strings sample_host 9 = None" "content (cn_inputBuffer sample_host_conn) = []"
    "room (length greeting) (cn_inputBuffer sample_host_conn)" "room (length greeting) (cn_outputBuffer sample_host_conn)"
    using sample_host_inv by (simp_all add: len room_new_buffer) (simp_all add: sample_host_def)
  have evs: "\<forall>ev\<in>set ?evs. link_event_ok ev" using sample_round_fair(2) by (simp add: set_replicate_conv_if)
  have rounds: "?evs = concat (replicate 52 sample_round) \<and> (\<forall>r\<in>set (replicate 52 sample_round). fair_round r)
      \<and> 4 * length greeting \<le> length (replicate 52 sample_round)"
    using sample_round_fair(1) len by (simp add: set_replicate_conv_if)
  note home = greeting_comes_back [OF sample_greeter_at sample_greeter_ready(1,2,4-6) refl sample_greeter_result(1-3)
      sample_greeter_ready(7) sample_greeter_result(4) sample_greeter_ready(3) sample_greeter_result(5)
      sv(1,2) sample_host_conn_simps(1,3) sv(3-6) sample_host_conn_simps(9) sv(7,8) evs,
      of invalid "\<lambda>t c w. Inr w" "\<lambda>t c w. Inr w", unfolded sample_greeter_result(6)]
  show ?thesis
    by (rule returns_mono [OF home]) (use rounds in \<open>auto simp only: greeting_def\<close>)
qed

end
