(* ===== verification/Server_Race.thy ===== *)
theory Server_Race
  imports Server_Properties
begin

text \<open>
  The race of \<open>forceClose\<close>: why the machine of a server confines the members of a connection to the
  thread of its loop.
\<close>

section \<open>One connection in its loop's thread\<close>

text \<open>
  \<open>settled\<close>: connection \<open>c\<close> is \<open>cn\<close>, its channel \<open>ch\<close> and its loop \<open>el\<close>, and the pollers agree with
  the channels.
\<close>

definition settled :: "nat \<Rightarrow> conn \<Rightarrow> channel \<Rightarrow> evloop \<Rightarrow> 'a conn_net_scheme \<Rightarrow> bool" where
  "settled c cn ch el w \<longleftrightarrow> net_inv w \<and> linked c cn ch el w"

lemma settled_setc: "focused c cn ch el w \<Longrightarrow> settled c cn ch el (setc c cn ch el w)"
  by (simp add: settled_def focused_def linked_def)

lemma settled_focus:
  "settled c cn ch el w \<Longrightarrow> focused c cn ch el w" "settled c cn ch el w \<Longrightarrow> setc c cn ch el w = w"
  using focused_self unfolding settled_def by blast+

lemma settled_cong:
  "cn_conns w' = cn_conns w \<Longrightarrow> n_chans w' = n_chans w \<Longrightarrow> n_loops w' = n_loops w \<Longrightarrow>
   settled c cn ch el w' = settled c cn ch el w"
  by (simp add: settled_def linked_def net_inv_def)

lemma settled_reads:
  assumes "settled c cn ch el w"
  shows "cn_conns w c = Some cn" "n_chans w (cn_channel cn) = Some ch" "n_loops w (cn_loop cn) = Some el"
    "ch_loop ch = cn_loop cn"
  using assms by (simp_all add: settled_def linked_def owns_def)

lemma settled_conn:
  assumes "settled c cn ch el w" "same_place cn cn'"
  shows "focused c cn' ch el w" "put_conn c cn' w = setc c cn' ch el w"
proof -
  note f = settled_focus [OF assms(1)]
  show "focused c cn' ch el w" by (rule focused_conn [OF assms(2) f(1)])
  show "put_conn c cn' w = setc c cn' ch el w"
    using assms(2) setc_put_conn [of cn' cn c ch el w] f(2) by (simp add: same_place_def)
qed

lemma settled_interest:
  assumes "settled c cn ch el w" "ch_index ch = KAdded"
  shows "interest (kernel (el_poller el)) (sk_fd (cn_socket cn)) = Some (ch_events ch, cn_channel cn)"
proof -
  note r = settled_reads [OF assms(1)]
  have "poller_inv (cn_loop cn) (el_poller el) (n_chans w)" "ch_fd ch = sk_fd (cn_socket cn)"
    using assms(1) r(3) net_invD by (auto simp: settled_def linked_def owns_def)
  then show ?thesis using poller_inv_armed [of _ _ _ _ ch] r(2,4) assms(2) by metis
qed

lemma settled_queued:
  assumes "settled c cn ch el w"
  shows "settled c cn ch (queued t f el) (put_loop (cn_loop cn) (queued t f el) w)"
proof -
  note f = settled_focus [OF assms]
  have "put_loop (cn_loop cn) (queued t f el) w = setc c cn ch (queued t f el) w"
    using setc_put_loop [of "cn_loop cn" cn "queued t f el" c ch el w] f(2) by simp
  then show ?thesis using settled_setc [OF focused_queued [OF f(1)]] by simp
qed

text \<open>The three operations of the race.\<close>

lemma close_here:
  fixes w :: "'a server_net_scheme"
  assumes s: "settled c cn ch el w" and cb: "cn_connectionCallback cn = Some UserCb" "cn_closeCallback cn = Some ServerRemove"
    and l: "cn_loop cn = sv_loop sid" "threadId el = n_tid w"
  shows "returns (handleClose quiet (server_close sid) c w) (\<lambda>w'.
      settled c (cn\<lparr>cn_state := kDisconnected\<rparr>) (masked DisableAll ch)
        (queued (n_tid w) (FConnectDestroyed c) (synced (cn_channel cn) (masked DisableAll ch) el)) w'
      \<and> n_tid w' = n_tid w \<and> cn_trace w' = cn_trace w @ [OnConnection c])"
proof -
  let ?cn = "cn\<lparr>cn_state := kDisconnected\<rparr>" and ?ch = "masked DisableAll ch"
  let ?el = "synced (cn_channel cn) ?ch el"
  let ?w1 = "setc c ?cn ?ch ?el w"
  let ?w2 = "?w1\<lparr>cn_trace := cn_trace w @ [OnConnection c]\<rparr>"
  let ?w3 = "upd_server (\<lambda>s. s\<lparr>sv_connections := (sv_connections s)(cn_name cn := None)\<rparr>) ?w2"
  have p: "focused c ?cn ch el w" "put_conn c ?cn w = setc c ?cn ch el w" by (rule settled_conn [OF s]; simp)+
  have a: "change_mask DisableAll (cn_channel cn) (put_conn c ?cn w) = Inr ?w1"
    unfolding p(2) by (simp add: setc_change_mask [OF p(1)])
  have b: "connectionCallback quiet c ?w1 = Inr ?w2"
    using cb(1) by (simp add: connectionCallback_def call_app_def quiet_def)
  have "settled c ?cn ?ch ?el ?w1" by (rule settled_setc [OF focused_masked [OF p(1)]]) simp
  then have s3: "settled c ?cn ?ch ?el ?w3" by (subst settled_cong [of _ ?w1]) simp_all
  have "runInLoop (sv_loop sid) (FRemoveConnectionInLoop c) (removeConnectionInLoop c) ?w2 = removeConnectionInLoop c ?w2"
    using l by (simp add: runInLoop_def isInLoopThread_def)
  also have "\<dots> = Inr (put_loop (cn_loop cn) (queued (n_tid w) (FConnectDestroyed c) ?el) ?w3)"
    by (simp add: removeConnectionInLoop_def get_conn_def queueInLoop_eq)
  finally have "closeCallback_call (server_close sid) c ?w2
      = Inr (put_loop (cn_loop cn) (queued (n_tid w) (FConnectDestroyed c) ?el) ?w3)"
    using cb(2) by (simp add: closeCallback_call_def get_conn_def server_close_def removeConnection_def)
  then show ?thesis
    using settled_reads(1) [OF s] a b settled_queued [OF s3]
    by (simp add: handleClose_def get_conn_def)
qed

lemma destroy_here:
  assumes s: "settled c cn ch el w" and st: "cn_state cn \<noteq> kConnected"
  shows "returns (connectDestroyed app c w) (\<lambda>w'.
      settled c cn (ch\<lparr>ch_index := KNew\<rparr>) (synced (cn_channel cn) (ch\<lparr>ch_index := KNew\<rparr>) el) w'
      \<and> n_tid w' = n_tid w \<and> cn_trace w' = cn_trace w)"
proof -
  note f = settled_focus [OF s]
  have "chan_remove (cn_channel cn) w
      = Inr (setc c cn (ch\<lparr>ch_index := KNew\<rparr>) (synced (cn_channel cn) (ch\<lparr>ch_index := KNew\<rparr>) el) w)"
    using setc_chan_remove [OF f(1) refl] f(2) by simp
  then show ?thesis
    using settled_reads(1) [OF s] st settled_setc [OF focused_removed [OF f(1) refl]]
    by (simp add: connectDestroyed_def get_conn_def)
qed

lemma forceClose_set_here:
  assumes s: "settled c cn ch el w"
  shows "returns (forceClose_set c w) (\<lambda>w'.
      settled c (cn\<lparr>cn_state := kDisconnecting\<rparr>) ch (queued (n_tid w) (FForceCloseInLoop c) el) w'
      \<and> n_tid w' = n_tid w \<and> cn_trace w' = cn_trace w)"
proof -
  let ?cn = "cn\<lparr>cn_state := kDisconnecting\<rparr>"
  have p: "focused c ?cn ch el w" "put_conn c ?cn w = setc c ?cn ch el w" by (rule settled_conn [OF s]; simp)+
  show ?thesis
    using settled_reads(1) [OF s] settled_setc [OF focused_queued [OF p(1)]] p(2)
    by (simp add: forceClose_set_def get_conn_def setc_queueInLoop)
qed

section \<open>The race\<close>

text \<open>
  The schedule: another thread \<open>t\<close> has read the state in \<open>forceClose\<close>; the thread of the loop handles
  the end of the connection; \<open>t\<close> goes on with the second half; the loop runs its functors.
\<close>

definition forceClose_race :: "server_id \<Rightarrow> nat \<Rightarrow> nat \<Rightarrow> 'a server_net_scheme \<Rightarrow> 'a server_net_scheme res" where
  "forceClose_race sid t c w =
     bind_res (handleClose quiet (server_close sid) c w) (\<lambda>w1.
     bind_res (forceClose_set c (w1\<lparr>n_tid := t\<rparr>)) (\<lambda>w2.
       doPendingFunctors (run_server_functor quiet sid True) (sv_loop sid) (w2\<lparr>n_tid := n_tid w\<rparr>)))"

lemma settled_loop:
  assumes "settled c cn ch el w" "el_poller el' = el_poller el" "l = cn_loop cn"
  shows "settled c cn ch el' (put_loop l el' w)"
proof -
  note f = settled_focus [OF assms(1)]
  have "put_loop l el' w = setc c cn ch el' w"
    using setc_put_loop [of l cn el' c ch el w] f(2) assms(3) by simp
  then show ?thesis using settled_setc [OF focused_loop [OF assms(2) f(1)]] by simp
qed

lemma settled_tid: "settled c cn ch el (w\<lparr>n_tid := t\<rparr>) = settled c cn ch el w"
  by (rule settled_cong) simp_all

lemma race_functors:
  fixes w :: "'a server_net_scheme"
  assumes s: "settled c cn ch el w" and st: "cn_state cn = kDisconnecting" and l: "cn_loop cn = sv_loop sid" "threadId el = n_tid w"
    and cb: "cn_connectionCallback cn = Some UserCb" "cn_closeCallback cn = Some ServerRemove"
    and fs: "pendingFunctors el = [FConnectDestroyed c, FForceCloseInLoop c]"
  shows "returns (doPendingFunctors (run_server_functor quiet sid True) (sv_loop sid) w) (\<lambda>w'.
      \<exists>el'. settled c (cn\<lparr>cn_state := kDisconnected\<rparr>) (masked DisableAll (ch\<lparr>ch_index := KNew\<rparr>)) el' w'
      \<and> pendingFunctors el' = [FConnectDestroyed c] \<and> cn_trace w' = cn_trace w @ [OnConnection c])"
proof -
  let ?el1 = "el\<lparr>el_calling := True, pendingFunctors := []\<rparr>"
  let ?w1 = "put_loop (sv_loop sid) ?el1 w"
  let ?ch = "ch\<lparr>ch_index := KNew\<rparr>"
  have s1: "settled c cn ch ?el1 ?w1" using settled_loop [OF s, of ?el1] l(1) by simp
  obtain w2 where w2: "connectDestroyed quiet c ?w1 = Inr w2" "settled c cn ?ch (synced (cn_channel cn) ?ch ?el1) w2"
      "n_tid w2 = n_tid w" "cn_trace w2 = cn_trace w"
    using destroy_here [OF s1, of quiet] st by (auto simp: returns_iff)
  have t: "threadId (synced (cn_channel cn) ?ch ?el1) = n_tid w2" using l(2) w2(3) by simp
  obtain w3 el3 where w3: "handleClose quiet (server_close sid) c w2 = Inr w3"
      "settled c (cn\<lparr>cn_state := kDisconnected\<rparr>) (masked DisableAll ?ch) el3 w3"
      "pendingFunctors el3 = [FConnectDestroyed c]" "cn_trace w3 = cn_trace w @ [OnConnection c]"
    using close_here [OF w2(2) cb l(1) t] w2(4) by (fastforce simp: returns_iff)
  have f: "forceCloseInLoop quiet (server_close sid) c w2 = Inr w3"
    using settled_reads(1) [OF w2(2)] st w3(1) by (simp add: forceCloseInLoop_def get_conn_def)
  have "n_loops w (sv_loop sid) = Some el" "n_loops w3 (sv_loop sid) = Some el3"
    using settled_reads(3) [OF s] settled_reads(3) [OF w3(2)] l(1) by simp_all
  then have "doPendingFunctors (run_server_functor quiet sid True) (sv_loop sid) w
      = Inr (put_loop (sv_loop sid) (el3\<lparr>el_calling := False\<rparr>) w3)"
    using w2(1) f by (simp add: doPendingFunctors_def get_loop_def fs run_server_functor_def run_conn_functor_def)
  moreover have "settled c (cn\<lparr>cn_state := kDisconnected\<rparr>) (masked DisableAll ?ch) (el3\<lparr>el_calling := False\<rparr>)
      (put_loop (sv_loop sid) (el3\<lparr>el_calling := False\<rparr>) w3)"
    using settled_loop [OF w3(2)] l(1) by simp
  ultimately show ?thesis using w3(3,4) by (auto simp: returns_iff)
qed

text \<open>
  C40. \<open>forceClose\<close> called in another thread can close a connection twice. Its first half reads
  \<open>kConnected\<close>; before its second half the loop handles the end of the connection and takes it out of
  the map; then the second half turns the closed connection back to \<open>kDisconnecting\<close>. When the loop
  runs its functors, the first \<open>connectDestroyed\<close> takes the channel out of the poller and
  \<open>forceCloseInLoop\<close> closes the connection again: the user's connection callback has run twice for
  one end, \<open>disableAll\<close> has put the channel of the closed connection back into the poller and the
  kernel, a second \<open>connectDestroyed\<close> waits, and the invariant of the server is broken.
\<close>

theorem forceClose_closes_twice:
  assumes "server_inv sid w" "life_at sid c w Alive" "cn_conns w c = Some cn" "cn_connectionCallback cn = Some UserCb"
    and "cn_loop cn = sv_loop sid" "n_loops w (sv_loop sid) = Some el" "threadId el = n_tid w"
    and "pendingFunctors el = []"
  shows "forceClose_test c (w\<lparr>n_tid := t\<rparr>) = Inr True
    \<and> returns (forceClose_race sid t c w) (\<lambda>w'. cn_trace w' = cn_trace w @ [OnConnection c, OnConnection c]
       \<and> (\<exists>ch' el'. cn_conns w' c = Some (cn\<lparr>cn_state := kDisconnected\<rparr>)
            \<and> n_chans w' (cn_channel cn) = Some ch' \<and> ch_index ch' = KAdded
            \<and> n_loops w' (sv_loop sid) = Some el' \<and> pendingFunctors el' = [FConnectDestroyed c]
            \<and> interest (kernel (el_poller el')) (sk_fd (cn_socket cn)) = Some (kNoneEvent, cn_channel cn))
       \<and> \<not> server_inv sid w')"
proof -
  note d = server_inv_butD [OF assms(1)]
  obtain ch el0 where lk: "linked c cn ch el0 w" using d(1) assms(3) by (rule conn_invE)
  then have s: "settled c cn ch el w"
    using conn_inv_net [OF d(1)] assms(5,6) by (simp add: settled_def linked_def)
  have cb: "cn_closeCallback cn = Some ServerRemove" using d(9) assms(3) by (simp add: closers_ok_def)
  have add: "ch_index ch = KAdded" and up: "kind_of (cn_state cn) = Up"
    using assms(2,3) lk by (simp_all add: life_at_def profile_of_def linked_def)
  let ?c1 = "cn\<lparr>cn_state := kDisconnected\<rparr>" and ?h1 = "masked DisableAll ch"
  let ?e1 = "queued (n_tid w) (FConnectDestroyed c) (synced (cn_channel cn) ?h1 el)"
  obtain w1 where w1: "handleClose quiet (server_close sid) c w = Inr w1" "settled c ?c1 ?h1 ?e1 w1"
      "n_tid w1 = n_tid w" "cn_trace w1 = cn_trace w @ [OnConnection c]"
    using close_here [OF s assms(4) cb assms(5,7)] by (auto simp: returns_iff)
  let ?c2 = "?c1\<lparr>cn_state := kDisconnecting\<rparr>" and ?e2 = "queued t (FForceCloseInLoop c) ?e1"
  have "settled c ?c1 ?h1 ?e1 (w1\<lparr>n_tid := t\<rparr>)" using w1(2) by (simp add: settled_tid)
  from forceClose_set_here [OF this]
  obtain w2 where w2: "forceClose_set c (w1\<lparr>n_tid := t\<rparr>) = Inr w2" "settled c ?c2 ?h1 ?e2 w2" "cn_trace w2 = cn_trace w1"
    by (auto simp: returns_iff)
  have s3: "settled c ?c2 ?h1 ?e2 (w2\<lparr>n_tid := n_tid w\<rparr>)" using w2(2) by (simp add: settled_tid)
  let ?h4 = "masked DisableAll (?h1\<lparr>ch_index := KNew\<rparr>)"
  have "returns (doPendingFunctors (run_server_functor quiet sid True) (sv_loop sid) (w2\<lparr>n_tid := n_tid w\<rparr>)) (\<lambda>w'.
      \<exists>el'. settled c (?c2\<lparr>cn_state := kDisconnected\<rparr>) ?h4 el' w'
      \<and> pendingFunctors el' = [FConnectDestroyed c] \<and> cn_trace w' = cn_trace (w2\<lparr>n_tid := n_tid w\<rparr>) @ [OnConnection c])"
    by (rule race_functors [OF s3]) (simp_all add: assms cb)
  then obtain w4 e4 where w4: "doPendingFunctors (run_server_functor quiet sid True) (sv_loop sid) (w2\<lparr>n_tid := n_tid w\<rparr>) = Inr w4"
      "settled c ?c1 ?h4 e4 w4" "pendingFunctors e4 = [FConnectDestroyed c]" "cn_trace w4 = cn_trace w @ [OnConnection c, OnConnection c]"
    using w1(4) w2(3) by (auto simp: returns_iff)
  have h4: "ch_index ?h4 = KAdded" "ch_events ?h4 = kNoneEvent"
    using isNoneEvent_change(1) [unfolded isNoneEvent_def] by (simp_all add: masked_def next_index_def KNew_def KAdded_def)
  have i: "interest (kernel (el_poller e4)) (sk_fd (cn_socket cn)) = Some (kNoneEvent, cn_channel cn)"
    using settled_interest [OF w4(2) h4(1)] h4(2) by simp
  have "\<not> registered_up w4"
    using settled_reads(1,2) [OF w4(2)] h4(1) unfolding registered_up_def by (auto intro!: exI)
  then have "\<not> server_inv sid w4" by (auto dest: server_inv_butD(2))
  moreover have "forceClose_race sid t c w = Inr w4" using w1(1) w2(1) w4(1) by (simp add: forceClose_race_def)
  moreover have "forceClose_test c (w\<lparr>n_tid := t\<rparr>) = Inr True"
    using assms(3) up by (cases "cn_state cn") (simp_all add: forceClose_test_def get_conn_def)
  ultimately show ?thesis
    using w4 h4(1) i settled_reads [OF w4(2)] assms(5) by (auto simp: returns_iff)
qed

text \<open>The sample's connection with a callback of the user.\<close>

definition sample_watched :: machine where
  "sample_watched = (case cn_conns sample_accepted 5 of None \<Rightarrow> sample_accepted
     | Some cn \<Rightarrow> put_conn 5 (cn\<lparr>cn_connectionCallback := Some UserCb\<rparr>) sample_accepted)"

lemma sample_accepted_born:
  "life_at sample_id 5 sample_accepted Born \<or> life_at sample_id 5 sample_accepted Alive"
  "\<exists>cn. cn_conns sample_accepted 5 = Some cn \<and> cn_loop cn = 1"
proof -
  have b: "birth sample_id (sk_fd (sample_sock [])) 5 (sample_machine []) sample_accepted"
    using newConnection_birth [OF idle_inv(1) [OF sample_machine_idle] quiet_local sample_short sample_fresh,
      of sample_addr sample_addr 5 6 "[]"] sample_accepted_ok(1) by simp
  have "getAllLoops (mk_pool 1 ''s'') ! turn (mk_pool 1 ''s'') = 1" by (simp add: getAllLoops_def mk_pool_def turn_def)
  with b show "life_at sample_id 5 sample_accepted Born \<or> life_at sample_id 5 sample_accepted Alive"
    "\<exists>cn. cn_conns sample_accepted 5 = Some cn \<and> cn_loop cn = 1"
    by (auto simp: birth_def newborn_def sample_server_def)
qed

lemma sample_accepted_loop:
  "\<exists>el. n_loops sample_accepted 1 = Some el \<and> threadId el = n_tid sample_accepted \<and> pendingFunctors el = []"
proof -
  let ?el = "mk_loop 1 (mk_poller (\<lambda>_ _. False)) 3 4"
  have e: "evolves (sample_machine []) sample_accepted"
    using newConnection_evolves [of quiet sample_id "sample_sock []" sample_addr sample_addr 5 6 "sample_machine []"]
      sample_accepted_ok(1) by simp
  moreover have "n_loops (sample_machine []) 1 = Some ?el" by simp
  ultimately obtain el where el: "n_loops sample_accepted 1 = Some el" "grows 1 ?el el"
    unfolding evolves_def by (metis sample_tid)
  moreover have "threadId el = 1" using el(2) by (simp add: grows_def mk_loop_def)
  moreover have "n_tid sample_accepted = 1" using e by (simp add: evolves_def)
  moreover have "pending_at 1 sample_accepted = []" using sample_accepted_ok(3) [of 1] by (simp add: upcoming_def)
  ultimately show ?thesis by (simp add: pending_at_def)
qed

theorem forceClose_closes_twice_witness:
  "returns (forceClose_race sample_id 2 5 sample_watched) (\<lambda>w'.
     cn_trace w' = cn_trace sample_watched @ [OnConnection 5, OnConnection 5])"
proof -
  obtain cn where cn: "cn_conns sample_accepted 5 = Some cn" "cn_loop cn = 1" using sample_accepted_born(2) by blast
  let ?cn = "cn\<lparr>cn_connectionCallback := Some UserCb\<rparr>"
  have w: "sample_watched = put_conn 5 ?cn sample_accepted" by (simp add: sample_watched_def cn)
  note i = sample_accepted_ok(2)
  have c: "calm sample_accepted sample_watched"
    unfolding w by (rule calm_put_conn [OF cn(1)]) (simp add: same_conn_def same_place_def)
  have "good {} sample_accepted (Inr sample_watched)"
    unfolding w by (rule good_put_conn [OF server_inv_butD(1) [OF i] cn(1)])
      (simp_all add: advances_def same_place_def conn_local_def pending_out_def stream_def)
  then have "conn_inv sample_watched" by (auto dest: good_InrD)
  then have inv: "server_inv sample_id sample_watched" by (rule calm_inv [OF i c])
  have "life_at sample_id 5 sample_accepted Alive"
    using sample_accepted_born(1) cn(1) by (auto simp: life_at_def profile_of_def sample_accepted_ok(3) split: option.splits)
  then have alive: "life_at sample_id 5 sample_watched Alive"
    using calm_profile [OF server_inv_butD(1) [OF i] c] by (simp add: life_at_def)
  obtain el where el: "n_loops sample_accepted 1 = Some el" "threadId el = n_tid sample_accepted" "pendingFunctors el = []"
    using sample_accepted_loop by blast
  have "cn_conns sample_watched 5 = Some ?cn" "cn_connectionCallback ?cn = Some UserCb" "cn_loop ?cn = sv_loop sample_id"
      "n_loops sample_watched (sv_loop sample_id) = Some el" "threadId el = n_tid sample_watched"
    using cn el by (simp_all add: w sample_id_def)
  from forceClose_closes_twice [OF inv alive this el(3), of 2] show ?thesis by (auto simp: returns_iff)
qed

end
