(* ===== verification/Client_Machine.thy ===== *)
theory Client_Machine
  imports TcpClient_Properties Server_Safety
begin

text \<open>
  A client in the loop that runs it: polls, events, functors, the calls of the application on the
  client and on its connections, and the end of connections, in any order. The connector starts
  again when a connection goes (\<open>restart\<close>), so connector and connections are one machine.
\<close>

section \<open>The machine\<close>

record client_machine = client_net +
  cm_phase :: phase

abbreviation client_loop :: "'a connector_net_scheme \<Rightarrow> nat" where
  "client_loop w \<equiv> ct_loop (ct w)"

definition client_phase :: "phase \<Rightarrow> client_machine \<Rightarrow> client_machine" where
  "client_phase p w = w\<lparr>cm_phase := p\<rparr>"

definition client_todo :: "client_machine \<Rightarrow> Functor list" where
  "client_todo w = phase_todo (cm_phase w)"

definition client_pending :: "client_machine \<Rightarrow> Functor list" where
  "client_pending w = pending_at (client_loop w) w"

definition client_upcoming :: "client_machine \<Rightarrow> Functor list" where
  "client_upcoming w = client_todo w @ client_pending w"

definition my_conn :: "'a client_net_scheme \<Rightarrow> nat option" where
  "my_conn w = (case cl w of None \<Rightarrow> None | Some k \<Rightarrow> cl_connection k)"

text \<open>A \<open>shared_ptr\<close> to a connection is in the client, in a queued functor, or in the vector being run.\<close>

definition client_held :: "nat \<Rightarrow> client_machine \<Rightarrow> bool" where
  "client_held c w \<longleftrightarrow> my_conn w = Some c
     \<or> (\<exists>f \<in> set (phase_held (cm_phase w)) \<union> set (client_upcoming w). holds f = Some c)"

definition client_poll :: "poll_env \<Rightarrow> client_machine \<Rightarrow> client_machine res" where
  "client_poll env w =
     bind_res (get_loop (client_loop w) w) (\<lambda>el. bind_res (poll env (el_poller el) (n_chans w)) (\<lambda>(p, cs, active).
       Inr (client_phase (Handling active)
         (put_loop (client_loop w) (el\<lparr>el_poller := p, activeChannels := active\<rparr>) (w\<lparr>n_chans := cs\<rparr>)))))"

definition client_swap :: "client_machine \<Rightarrow> client_machine res" where
  "client_swap w = bind_res (get_loop (client_loop w) w) (\<lambda>el.
     Inr (client_phase (Running (pendingFunctors el) (pendingFunctors el))
       (put_loop (client_loop w) (el\<lparr>el_calling := True, pendingFunctors := []\<rparr>) w)))"

definition client_finish :: "client_machine \<Rightarrow> client_machine res" where
  "client_finish w = bind_res (get_loop (client_loop w) w) (\<lambda>el.
     Inr (client_phase Waiting (put_loop (client_loop w) (el\<lparr>el_calling := False\<rparr>) w)))"

text \<open>
  What the system promises: a new socket's descriptor is not open, and objects are put at free
  places. The connection that \<open>newConnection\<close> makes has a socket that was not shut down.
\<close>

definition connect_fresh :: "'a connector_net_scheme \<Rightarrow> bool" where
  "connect_fresh w \<longleftrightarrow> (let e = next_connect w in
     0 \<le> ce_fd e \<longrightarrow> fresh_fd (ce_fd e) w \<and> n_chans w (ce_chan e) = None)"

definition answers_ok :: "'a connector_net_scheme \<Rightarrow> bool" where
  "answers_ok w \<longleftrightarrow> connect_fresh w \<and> places_free (next_result w) w"

text \<open>
  The discipline of the application, which the code does not check (\<open>FIXME: check state\<close>): it
  calls \<open>connect()\<close> only when the client has no connection and the connector no attempt and no
  channel left over from one.
\<close>

definition may_connect :: "'a client_net_scheme \<Rightarrow> bool" where
  "may_connect w \<longleftrightarrow> ct_channel (ct w) = None \<and> my_conn w = None"

text \<open>Everything runs in the thread of the loop; the client lives as long as the loop runs.\<close>

inductive client_step :: "(app_event \<Rightarrow> client_machine \<Rightarrow> api list) \<Rightarrow> client_machine \<Rightarrow> client_machine res \<Rightarrow> bool"
  for app where
  client_polls: "cm_phase w = Waiting \<Longrightarrow> poll_env_ok env \<Longrightarrow> client_step app w (client_poll env w)"
| client_event: "cm_phase w = Handling (d # ds) \<Longrightarrow> answers_ok w \<Longrightarrow>
     client_step app w (handleEvent (get_chan d) (run_client_handler app t) conn_alive (client_phase (Handling ds) w))"
| client_swaps: "cm_phase w = Handling [] \<Longrightarrow> client_step app w (client_swap w)"
| client_functor: "cm_phase w = Running fs0 (f # fs) \<Longrightarrow> answers_ok w \<Longrightarrow>
     client_step app w (run_client_functor app f (client_phase (Running fs0 fs) w))"
| client_finishes: "cm_phase w = Running fs0 [] \<Longrightarrow> client_step app w (client_finish w)"
| client_answers: "client_step app w (Inr (w\<lparr>ct_connects := es, ct_results := rs\<rparr>))"
| client_connects: "may_connect w \<Longrightarrow> connect_fresh w \<Longrightarrow> client_step app w (client_connect w)"
| client_stops: "client_step app w (client_stop w)"
| client_disconnects: "client_step app w (client_disconnect w)"
| client_call: "confined_call a w \<Longrightarrow> client_step app w (run_api a w)"
| client_collect: "cn_conns w c \<noteq> None \<Longrightarrow> \<not> client_held c w \<Longrightarrow> client_step app w (destroy_conn c w)"

inductive client_reachable :: "(app_event \<Rightarrow> client_machine \<Rightarrow> api list) \<Rightarrow> client_machine \<Rightarrow> client_machine \<Rightarrow> bool"
  for app w0 where
  client_start: "client_reachable app w0 w0"
| client_next: "client_reachable app w0 w \<Longrightarrow> client_step app w (Inr w') \<Longrightarrow> client_reachable app w0 w'"

section \<open>The invariant\<close>

text \<open>The part that does not speak of the phase of the attempt. \<open>X\<close>: connections about to be queued for removal.\<close>

definition conns_ok :: "client_machine \<Rightarrow> bool" where
  "conns_ok w \<longleftrightarrow> (\<forall>c cn. cn_conns w c = Some cn \<longrightarrow> kind_of (cn_state cn) \<noteq> Young
       \<and> cn_closeCallback cn = Some ClientRemove \<and> cn_loop cn = client_loop w
       \<and> (kind_of (cn_state cn) = Up \<longrightarrow> my_conn w = Some c))
     \<and> (\<forall>c. my_conn w = Some c \<longrightarrow> cn_conns w c \<noteq> None)"

fun client_valid :: "'a conn_net_scheme \<Rightarrow> Functor \<Rightarrow> bool" where
  "client_valid w (FConnectDestroyed c) = (\<exists>cn. cn_conns w c = Some cn \<and> kind_of (cn_state cn) = Down)"
| "client_valid w (FForceCloseInLoop c) = (cn_conns w c \<noteq> None)"
| "client_valid w (FWriteComplete c) = True"
| "client_valid w (FHighWaterMark c n) = True"
| "client_valid w (FUser n) = True"
| "client_valid w FResetChannel = True"
| "client_valid w f = False"

definition functors_ok :: "client_machine \<Rightarrow> bool" where
  "functors_ok w \<longleftrightarrow> (\<forall>f \<in> set (client_upcoming w). client_valid w f)"

definition wake_chan :: "nat \<Rightarrow> channel \<Rightarrow> bool" where
  "wake_chan l ch \<longleftrightarrow> ch_loop ch = l \<and> readCallback ch = Some (LoopHandleRead l)
     \<and> writeCallback ch = None \<and> closeCallback ch = None \<and> errorCallback ch = None"

definition channels_ok :: "client_machine \<Rightarrow> bool" where
  "channels_ok w \<longleftrightarrow> (\<forall>d ch. n_chans w d = Some ch \<longrightarrow>
     \<not> no_conn_chan d w \<or> ct_channel (ct w) = Some d \<or> wake_chan (client_loop w) ch)"

definition active_ok :: "client_machine \<Rightarrow> bool" where
  "active_ok w \<longleftrightarrow> (\<forall>ds. cm_phase w = Handling ds \<longrightarrow> distinct ds
     \<and> (\<forall>d \<in> set ds. \<exists>ch. n_chans w d = Some ch \<and> (ch_index ch = KAdded \<or> ct_channel (ct w) = Some d)))"

definition leaving_ok :: "nat set \<Rightarrow> client_machine \<Rightarrow> bool" where
  "leaving_ok X w \<longleftrightarrow> (\<forall>c cn ch. cn_conns w c = Some cn \<and> n_chans w (cn_channel cn) = Some ch \<and> c \<notin> X
     \<and> ch_index ch = KDelete \<longrightarrow> FConnectDestroyed c \<in> set (client_upcoming w))"

definition client_core :: "nat set \<Rightarrow> client_machine \<Rightarrow> bool" where
  "client_core X w \<longleftrightarrow> registered_up w \<and> cl w \<noteq> None \<and> conns_ok w \<and> functors_ok w \<and> channels_ok w
     \<and> active_ok w \<and> leaving_ok X w"

text \<open>
  While a connection is up there is no attempt, and its channel left over from the attempt goes
  before the connection can: the loop has not polled since, and \<open>resetChannel\<close> waits in front of any
  \<open>forceCloseInLoop\<close>.
\<close>

definition reset_first :: "nat \<Rightarrow> Functor list \<Rightarrow> bool" where
  "reset_first c fs \<longleftrightarrow> FForceCloseInLoop c \<notin> set (takeWhile (\<lambda>f. f \<noteq> FResetChannel) fs)"

fun up_with :: "attempt \<Rightarrow> client_machine \<Rightarrow> nat \<Rightarrow> nat \<Rightarrow> bool" where
  "up_with Idle w c d = True"
| "up_with Trying w c d = False"
| "up_with Cleaning w c d = ((\<exists>ds. cm_phase w = Handling ds \<and> d \<notin> set ds) \<and> reset_first c (client_pending w))"
| "up_with Resetting w c d = reset_first c (client_todo w)"

definition ups_ok :: "attempt \<Rightarrow> client_machine \<Rightarrow> bool" where
  "ups_ok ph w \<longleftrightarrow> (\<forall>c cn. cn_conns w c = Some cn \<and> kind_of (cn_state cn) = Up \<longrightarrow> up_with ph w c (cn_channel cn))"

definition client_inv_but :: "nat set \<Rightarrow> attempt \<Rightarrow> client_machine \<Rightarrow> bool" where
  "client_inv_but X ph w \<longleftrightarrow> connector_at ph w \<and> client_core X w \<and> ups_ok ph w
     \<and> count_list (client_todo w) FResetChannel = (if ph = Resetting then 1 else 0)"

abbreviation client_inv :: "attempt \<Rightarrow> client_machine \<Rightarrow> bool" where
  "client_inv \<equiv> client_inv_but {}"

lemma client_inv_butD:
  assumes "client_inv_but X ph w"
  shows "connector_at ph w" "client_core X w" "ups_ok ph w" "conn_inv w"
    "count_list (client_todo w) FResetChannel = (if ph = Resetting then 1 else 0)"
  using assms connector_atD(1) [of ph w] by (simp_all add: client_inv_but_def)

lemma client_coreD:
  assumes "client_core X w"
  shows "registered_up w" "cl w \<noteq> None" "conns_ok w" "functors_ok w" "channels_ok w" "active_ok w" "leaving_ok X w"
  using assms by (simp_all add: client_core_def)

lemma machine_more:
  assumes "conn_net.more w' = conn_net.more w"
  shows "cl w' = cl w" "ct w' = ct w" "ct_open w' = ct_open w" "cm_phase w' = cm_phase w" "my_conn w' = my_conn w"
    "next_connect w' = next_connect w" "next_result w' = next_result w" "client_todo w' = client_todo w" "ct_connects w' = ct_connects w"
proof -
  show a: "cl w' = cl w" "ct w' = ct w" "ct_open w' = ct_open w" "cm_phase w' = cm_phase w"
    using assms by (cases w; cases w'; simp)+
  have "ct_connects w' = ct_connects w" "ct_results w' = ct_results w" using assms by (cases w; cases w'; simp)+
  with a show "my_conn w' = my_conn w" "next_connect w' = next_connect w" "next_result w' = next_result w"
      "client_todo w' = client_todo w" "ct_connects w' = ct_connects w"
    by (simp_all add: my_conn_def next_connect_def next_result_def client_todo_def)
qed

lemma my_conn_cong: "cl w' = cl w \<Longrightarrow> my_conn w' = my_conn w"
  by (simp add: my_conn_def)

text \<open>The connections and their channels are the same but for what no clause reads; some may be gone.\<close>

definition same_lives :: "'a conn_net_scheme \<Rightarrow> 'a conn_net_scheme \<Rightarrow> bool" where
  "same_lives w w' \<longleftrightarrow> (\<forall>c cn'. cn_conns w' c = Some cn' \<longrightarrow> (\<exists>cn. cn_conns w c = Some cn \<and> same_conn cn cn'
     \<and> (\<forall>ch'. n_chans w' (cn_channel cn') = Some ch' \<longrightarrow>
          (\<exists>ch. n_chans w (cn_channel cn) = Some ch \<and> ch_index ch' = ch_index ch))))"

lemma same_livesE:
  assumes "same_lives w w'" "cn_conns w' c = Some cn'"
  obtains cn where "cn_conns w c = Some cn" "cn_channel cn' = cn_channel cn" "cn_loop cn' = cn_loop cn"
    "cn_closeCallback cn' = cn_closeCallback cn" "kind_of (cn_state cn') = kind_of (cn_state cn)"
    "\<And>ch'. n_chans w' (cn_channel cn') = Some ch' \<Longrightarrow> \<exists>ch. n_chans w (cn_channel cn) = Some ch \<and> ch_index ch' = ch_index ch"
  using assms unfolding same_lives_def same_conn_def same_place_def by blast

lemma same_lives_calm:
  assumes "calm w w'"
  shows "same_lives w w'"
  unfolding same_lives_def
proof (intro allI impI)
  fix c cn'
  assume cn': "cn_conns w' c = Some cn'"
  have "rel_option same_conn (cn_conns w c) (cn_conns w' c)" using assms by (simp add: calm_def same_conns_def)
  then obtain cn where cn: "cn_conns w c = Some cn" "same_conn cn cn'" using cn' by (cases "cn_conns w c") auto
  have "rel_option same_chan (n_chans w (cn_channel cn)) (n_chans w' (cn_channel cn))"
    using assms by (simp add: calm_def same_chans_def)
  then have "\<exists>ch. n_chans w (cn_channel cn) = Some ch \<and> ch_index ch' = ch_index ch"
    if "n_chans w' (cn_channel cn') = Some ch'" for ch'
    using that cn(2) by (cases "n_chans w (cn_channel cn)") (auto simp: same_chan_def same_conn_def same_place_def)
  with cn show "\<exists>cn. cn_conns w c = Some cn \<and> same_conn cn cn' \<and> (\<forall>ch'. n_chans w' (cn_channel cn') = Some ch' \<longrightarrow>
      (\<exists>ch. n_chans w (cn_channel cn) = Some ch \<and> ch_index ch' = ch_index ch))" by blast
qed

lemma same_lives_apart:
  assumes "apart w w'"
  shows "same_lives w w'"
  using assms unfolding same_lives_def apart_def by (metis same_conn_refl)

lemma lives_core:
  assumes s: "same_lives w w'" and reg: "registered_up w" and ok: "conns_ok w" and lv: "leaving_ok X w"
    and l: "client_loop w' = client_loop w" and mine: "my_conn w' = my_conn w"
    and live: "\<And>c. my_conn w = Some c \<Longrightarrow> cn_conns w c \<noteq> None \<Longrightarrow> cn_conns w' c \<noteq> None"
    and up: "\<And>c. cn_conns w' c \<noteq> None \<Longrightarrow> c \<notin> Y \<Longrightarrow> c \<notin> X \<and>
      (FConnectDestroyed c \<in> set (client_upcoming w) \<longrightarrow> FConnectDestroyed c \<in> set (client_upcoming w'))"
  shows "registered_up w'" "conns_ok w'" "leaving_ok Y w'"
proof -
  show "registered_up w'" unfolding registered_up_def
  proof (intro allI impI, elim conjE)
    fix c cn' ch'
    assume c: "cn_conns w' c = Some cn'" "n_chans w' (cn_channel cn') = Some ch'"
    show "ch_index ch' = KAdded \<longleftrightarrow> kind_of (cn_state cn') = Up"
      by (rule same_livesE [OF s c(1)]) (use c(2) reg in \<open>fastforce simp: registered_up_def\<close>)
  qed
  show "conns_ok w'" unfolding conns_ok_def mine l
  proof (intro conjI allI impI)
    fix c cn'
    assume c: "cn_conns w' c = Some cn'"
    obtain cn where cn: "cn_conns w c = Some cn" "cn_loop cn' = cn_loop cn"
        "cn_closeCallback cn' = cn_closeCallback cn" "kind_of (cn_state cn') = kind_of (cn_state cn)"
      using same_livesE [OF s c] by metis
    show "kind_of (cn_state cn') \<noteq> Young" "cn_closeCallback cn' = Some ClientRemove" "cn_loop cn' = client_loop w"
      using ok cn by (auto simp: conns_ok_def)
    show "my_conn w = Some c" if "kind_of (cn_state cn') = Up" using ok cn that by (auto simp: conns_ok_def)
  qed (use ok live in \<open>auto simp: conns_ok_def\<close>)
  show "leaving_ok Y w'" unfolding leaving_ok_def
  proof (intro allI impI, elim conjE)
    fix c cn' ch'
    assume c: "cn_conns w' c = Some cn'" "n_chans w' (cn_channel cn') = Some ch'" "c \<notin> Y" "ch_index ch' = KDelete"
    obtain cn ch where "cn_conns w c = Some cn" "n_chans w (cn_channel cn) = Some ch" "ch_index ch = KDelete"
      using same_livesE [OF s c(1)] c(2,4) by metis
    then show "FConnectDestroyed c \<in> set (client_upcoming w')" using lv up [OF _ c(3)] c(1) by (auto simp: leaving_ok_def)
  qed
qed

lemma client_valid_same:
  assumes "same_conns w w'"
  shows "client_valid w' f = client_valid w f"
proof -
  have "(cn_conns w' c = None \<longleftrightarrow> cn_conns w c = None) \<and> ((\<exists>cn. cn_conns w' c = Some cn \<and> kind_of (cn_state cn) = Down)
      \<longleftrightarrow> (\<exists>cn. cn_conns w c = Some cn \<and> kind_of (cn_state cn) = Down))" for c
    using assms [unfolded same_conns_def, rule_format, of c]
    by (cases "cn_conns w c"; cases "cn_conns w' c") (simp_all add: same_conn_def)
  then show ?thesis by (cases f) simp_all
qed

section \<open>Steps that leave the attempt alone\<close>

lemma connector_keep:
  assumes at: "connector_at ph w" and inv: "conn_inv w'" and same: "ct w' = ct w" "ct_open w' = ct_open w" "n_tid w' = n_tid w"
    and chan: "\<And>d ch. ct_channel (ct w) = Some d \<Longrightarrow> n_chans w d = Some ch \<Longrightarrow> \<exists>r. n_chans w' d = Some (ch\<lparr>ch_revents := r\<rparr>)"
    and loop: "\<And>el. n_loops w (ct_loop (ct w)) = Some el \<Longrightarrow> \<exists>el'. n_loops w' (ct_loop (ct w)) = Some el'
      \<and> threadId el' = threadId el \<and> (timerQueue el' = None \<longleftrightarrow> timerQueue el = None)
      \<and> count_list (pendingFunctors el') FResetChannel = count_list (pendingFunctors el) FResetChannel"
    and fds: "\<And>fd. no_conn_fd fd w \<Longrightarrow> no_conn_fd fd w'"
  shows "connector_at ph w'"
proof -
  obtain el where hm: "home (resets ph) el w" and el: "n_loops w (ct_loop (ct w)) = Some el"
    using at by (rule connector_at_home)
  then obtain el' where "home (resets ph) el' w'" using loop [OF el] same by (auto simp: home_def)
  moreover have "\<exists>ch'. n_chans w' d = Some ch' \<and> attempt_chan l ch' = attempt_chan l ch \<and> ch_index ch' = ch_index ch
      \<and> ch_events ch' = ch_events ch \<and> ch_fd ch' = ch_fd ch"
    if "ct_channel (ct w) = Some d" "n_chans w d = Some ch" for d ch l
    using chan [OF that] by (auto simp: attempt_chan_def)
  with connector_atD(2) [OF at] have "shape ph w'" using same fds by (cases ph) fastforce+
  ultimately show ?thesis using inv same connector_atD(3) [OF at] by (auto simp: connector_at_def)
qed

lemma no_conn_fd_lives:
  assumes s: "same_lives w w'" and f: "no_conn_fd fd w"
  shows "no_conn_fd fd w'"
  unfolding no_conn_fd_def
proof (intro allI impI)
  fix c cn'
  assume "cn_conns w' c = Some cn'"
  then obtain cn where "cn_conns w c = Some cn" "same_conn cn cn'" using s unfolding same_lives_def by blast
  then show "sk_fd (cn_socket cn') \<noteq> fd" using f by (auto simp: no_conn_fd_def same_conn_def same_place_def)
qed

lemma attempt_no_conn:
  assumes "connector_at ph w" "ct_channel (ct w) = Some d"
  shows "no_conn_chan d w" "n_chans w d \<noteq> None"
proof -
  obtain ch where "n_chans w d = Some ch" "attempt_chan (ct_loop (ct w)) ch"
    using connector_atD(2) [OF assms(1)] assms(2) by (cases ph) auto
  then show "no_conn_chan d w" "n_chans w d \<noteq> None"
    using no_conn_chan_other [OF connector_atD(1) [OF assms(1)]] by (simp_all add: attempt_chan_def)
qed

lemma calm_pending:
  assumes "calm w w'" "n_loops w (client_loop w) \<noteq> None"
  obtains new where "client_pending w' = client_pending w @ new" "\<forall>f \<in> set new. benign (client_loop w) w f"
proof -
  have m: "conn_net.more w' = conn_net.more w" and q: "queues (\<lambda>l. benign l w) w w'" using assms(1) by (simp_all add: calm_def)
  have "client_loop w' = client_loop w" "rel_option (\<lambda>el el'. \<exists>new. pendingFunctors el' = pendingFunctors el @ new
      \<and> (\<forall>f \<in> set new. benign (client_loop w) w f)) (n_loops w (client_loop w)) (n_loops w' (client_loop w))"
    using machine_more(2) [OF m] q by (simp_all add: queues_def)
  then show ?thesis
    using that assms(2) by (cases "n_loops w (client_loop w)"; cases "n_loops w' (client_loop w)")
      (auto simp: client_pending_def pending_at_def)
qed

lemma connector_calm:
  fixes w :: client_machine
  assumes at: "connector_at ph w" and inv: "conn_inv w'" and c: "calm w w'"
  shows "connector_at ph w'"
proof (rule connector_keep [OF at inv])
  have more: "conn_net.more w' = conn_net.more w" and ev: "evolves w w'" using c by (simp_all add: calm_def)
  show "ct w' = ct w" "ct_open w' = ct_open w" using machine_more [OF more] by simp_all
  show "n_tid w' = n_tid w" using ev by (simp add: evolves_def)
  show "\<exists>r. n_chans w' d = Some (ch\<lparr>ch_revents := r\<rparr>)" if "ct_channel (ct w) = Some d" "n_chans w d = Some ch" for d ch
  proof -
    have "n_chans w' d = n_chans w d" using attempt_no_conn(1) [OF at that(1)] c by (simp add: calm_def other_chans_def)
    then show ?thesis using that(2) by (intro exI [of _ "ch_revents ch"]) simp
  qed
  show "no_conn_fd fd w'" if "no_conn_fd fd w" for fd by (rule no_conn_fd_lives [OF same_lives_calm [OF c] that])
  fix el
  assume el: "n_loops w (ct_loop (ct w)) = Some el"
  obtain new where new: "client_pending w' = client_pending w @ new" "\<forall>f \<in> set new. benign (client_loop w) w f"
    using c el by (auto elim: calm_pending)
  obtain el' where el': "n_loops w' (ct_loop (ct w)) = Some el'" "grows (n_tid w) el el'"
    using ev el unfolding evolves_def by blast
  have "FResetChannel \<notin> set new" using new(2) by auto
  then have "count_list (pendingFunctors el') FResetChannel = count_list (pendingFunctors el) FResetChannel"
    using new(1) el el'(1) machine_more(2) [OF more] by (simp add: client_pending_def pending_at_def)
  with el' show "\<exists>el'. n_loops w' (ct_loop (ct w)) = Some el' \<and> threadId el' = threadId el
      \<and> (timerQueue el' = None \<longleftrightarrow> timerQueue el = None)
      \<and> count_list (pendingFunctors el') FResetChannel = count_list (pendingFunctors el) FResetChannel"
    by (auto simp: grows_def)
qed

lemma reset_first_append: "FResetChannel \<in> set fs \<Longrightarrow> reset_first c (fs @ new) = reset_first c fs"
  by (simp add: reset_first_def)

lemma cleaning_waits:
  assumes "connector_at Cleaning w"
  shows "FResetChannel \<in> set (client_pending w)"
proof -
  obtain el where "home 1 el w" "n_loops w (ct_loop (ct w)) = Some el" using assms by (auto elim: connector_at_home)
  then show ?thesis using count_list_0_iff [of "pendingFunctors el" FResetChannel]
    by (simp add: home_def client_pending_def pending_at_def)
qed

lemma loop_live: "connector_at ph w \<Longrightarrow> n_loops w (ct_loop (ct w)) \<noteq> None"
  by (erule connector_at_home) simp

text \<open>Calls of the application and everything else that is calm.\<close>

theorem calm_client_inv:
  assumes i: "client_inv_but X ph w" and c: "calm w w'" and inv: "conn_inv w'"
  shows "client_inv_but X ph w'"
proof -
  note d = client_inv_butD [OF i] and k = client_coreD [OF client_inv_butD(2) [OF i]]
  have more: "conn_net.more w' = conn_net.more w" using c by (simp add: calm_def)
  note m = machine_more [OF more]
  have same: "same_conns w w'" "same_chans w w'" using c by (simp_all add: calm_def)
  obtain new where new: "client_pending w' = client_pending w @ new" "\<forall>f \<in> set new. benign (client_loop w) w f"
    using c loop_live [OF d(1)] by (rule calm_pending)
  have up: "client_upcoming w' = client_upcoming w @ new" using new(1) m by (simp add: client_upcoming_def)
  note s = same_lives_calm [OF c]
  have live: "cn_conns w' b \<noteq> None" if "cn_conns w b \<noteq> None" for b
    using that same(1) [unfolded same_conns_def, rule_format, of b] by (cases "cn_conns w' b") auto
  have core: "registered_up w'" "conns_ok w'" "leaving_ok X w'"
    by (rule lives_core [OF s k(1,3,7)]; use up m live in \<open>simp del: not_None_eq\<close>)+
  have "functors_ok w'" unfolding functors_ok_def up
  proof (intro ballI)
    fix f
    assume "f \<in> set (client_upcoming w @ new)"
    then have "f \<in> set (client_upcoming w) \<or> benign (client_loop w) w f" using new(2) by auto
    then have "client_valid w f" using k(4) by (cases f) (auto simp: functors_ok_def lives_on_def)
    then show "client_valid w' f" using client_valid_same [OF same(1)] by simp
  qed
  moreover have "channels_ok w'" unfolding channels_ok_def
  proof (intro allI impI)
    fix b ch'
    assume b: "n_chans w' b = Some ch'"
    show "\<not> no_conn_chan b w' \<or> ct_channel (ct w') = Some b \<or> wake_chan (client_loop w') ch'"
    proof (cases "no_conn_chan b w")
      case True
      then have "n_chans w b = Some ch'" using c b by (simp add: calm_def other_chans_def)
      then show ?thesis using k(5) True m by (simp add: channels_ok_def)
    next
      case False
      then show ?thesis using no_conn_chan_same [OF same(1)] by simp
    qed
  qed
  moreover have "active_ok w'" unfolding active_ok_def m
  proof (intro allI impI conjI ballI)
    fix ds b
    assume ds: "cm_phase w = Handling ds"
    then show "distinct ds" using k(6) by (simp add: active_ok_def)
    assume "b \<in> set ds"
    then obtain ch where ch: "n_chans w b = Some ch" "ch_index ch = KAdded \<or> ct_channel (ct w) = Some b"
      using k(6) ds by (auto simp: active_ok_def)
    then show "\<exists>ch. n_chans w' b = Some ch \<and> (ch_index ch = KAdded \<or> ct_channel (ct w) = Some b)"
      using same(2) [unfolded same_chans_def, rule_format, of b]
      by (cases "n_chans w' b") (auto simp: same_chan_def)
  qed
  moreover have "ups_ok ph w'" unfolding ups_ok_def
  proof (intro allI impI, elim conjE)
    fix b bn
    assume "cn_conns w' b = Some bn" "kind_of (cn_state bn) = Up"
    then obtain bn0 where "cn_conns w b = Some bn0" "kind_of (cn_state bn0) = Up" "cn_channel bn = cn_channel bn0"
      using same_livesE [OF s] by metis
    then have "up_with ph w b (cn_channel bn)" using d(3) by (auto simp: ups_ok_def)
    then show "up_with ph w' b (cn_channel bn)"
      using reset_first_append [OF cleaning_waits] d(1) new(1) m by (cases ph) auto
  qed
  ultimately show ?thesis using core k(2) m d(5) connector_calm [OF d(1) inv c]
    by (simp add: client_inv_but_def client_core_def)
qed

section \<open>The loop's own steps\<close>

lemma client_phase_simps [simp]:
  "cn_conns (client_phase p w) = cn_conns w" "n_chans (client_phase p w) = n_chans w" "n_loops (client_phase p w) = n_loops w"
  "n_tid (client_phase p w) = n_tid w" "cn_strings (client_phase p w) = cn_strings w" "ct (client_phase p w) = ct w"
  "ct_open (client_phase p w) = ct_open w" "cl (client_phase p w) = cl w" "cm_phase (client_phase p w) = p"
  "next_connect (client_phase p w) = next_connect w" "next_result (client_phase p w) = next_result w"
  "my_conn (client_phase p w) = my_conn w" "client_todo (client_phase p w) = phase_todo p"
  by (simp_all add: client_phase_def my_conn_def client_todo_def next_connect_def next_result_def)

lemma cm_simps [simp]:
  "cm_phase (put_loop l el w) = cm_phase w" "my_conn (put_loop l el w) = my_conn w" "client_todo (put_loop l el w) = client_todo w"
  by (simp_all add: put_loop_def my_conn_def client_todo_def)

lemma loop_same: "n_loops w l = Some el \<Longrightarrow> put_loop l el w = w"
  by (simp add: put_loop_def fun_upd_idem)

lemma loop_step_core:
  assumes core: "client_core X w" and el: "n_loops w (client_loop w) = Some el"
    and fs: "set (phase_todo p @ pendingFunctors el') \<subseteq> set (client_upcoming w)"
    and leave: "\<And>c. c \<notin> Y \<Longrightarrow> c \<notin> X \<and> (FConnectDestroyed c \<in> set (client_upcoming w) \<longrightarrow>
      FConnectDestroyed c \<in> set (phase_todo p @ pendingFunctors el'))"
    and ds: "\<And>ds. p = Handling ds \<Longrightarrow> \<exists>es. cm_phase w = Handling es \<and> distinct ds \<and> set ds \<subseteq> set es"
  shows "client_core Y (client_phase p (put_loop (client_loop w) el' w))"
proof -
  let ?w = "client_phase p (put_loop (client_loop w) el' w)"
  note k = client_coreD [OF core]
  have up: "client_upcoming ?w = phase_todo p @ pendingFunctors el'"
    by (simp add: client_upcoming_def client_pending_def pending_at_def)
  have v: "client_valid ?w f = client_valid w f" for f by (rule client_valid_same) (simp add: same_conns_cong)
  have "registered_up ?w" "conns_ok ?w" "channels_ok ?w"
    using k(1,3,5) by (simp_all add: registered_up_def conns_ok_def channels_ok_def no_conn_chan_def)
  moreover have "functors_ok ?w" using k(4) fs unfolding functors_ok_def up v by blast
  moreover have "leaving_ok Y ?w" using k(7) leave unfolding leaving_ok_def up by (simp del: set_append)
  moreover have "active_ok ?w" using k(6) ds unfolding active_ok_def by simp blast
  ultimately show ?thesis using k(2) by (simp add: client_core_def)
qed

lemma connector_at_loop:
  assumes at: "connector_at ph w" and el: "n_loops w (ct_loop (ct w)) = Some el" "el_poller el' = el_poller el"
    "threadId el' = threadId el" "timerQueue el' = timerQueue el"
    "count_list (pendingFunctors el') FResetChannel = count_list (pendingFunctors el) FResetChannel"
  shows "connector_at ph (client_phase p (put_loop (ct_loop (ct w)) el' w))"
proof (rule connector_keep [OF at])
  have "conn_inv (put_loop (ct_loop (ct w)) el' w)" by (rule conn_inv_put_loop [OF connector_atD(1) [OF at] el(1,2)])
  then show "conn_inv (client_phase p (put_loop (ct_loop (ct w)) el' w))"
    by (subst conn_inv_cong [where w = "put_loop (ct_loop (ct w)) el' w"]) simp_all
  show "\<exists>r. n_chans (client_phase p (put_loop (ct_loop (ct w)) el' w)) d = Some (ch\<lparr>ch_revents := r\<rparr>)"
    if "n_chans w d = Some ch" for d ch
    using that by (intro exI [of _ "ch_revents ch"]) simp
qed (use el in \<open>simp_all add: no_conn_fd_def\<close>)

lemma client_pop:
  assumes i: "client_inv_but X ph w" and p: "cm_phase w = Handling (d # ds)"
  shows "client_inv_but X ph (client_phase (Handling ds) w)" "d \<notin> set ds"
    "\<exists>ch. n_chans w d = Some ch \<and> (ch_index ch = KAdded \<or> ct_channel (ct w) = Some d)"
proof -
  note h = client_inv_butD [OF i]
  obtain el where el: "n_loops w (client_loop w) = Some el" using loop_live [OF h(1)] by blast
  have u: "client_upcoming w = pendingFunctors el" "client_todo w = []"
    using p el by (simp_all add: client_upcoming_def client_todo_def client_pending_def pending_at_def)
  have a: "active_ok w" by (rule client_coreD(6) [OF h(2)])
  then show "d \<notin> set ds" "\<exists>ch. n_chans w d = Some ch \<and> (ch_index ch = KAdded \<or> ct_channel (ct w) = Some d)"
    using p by (simp_all add: active_ok_def)
  have es: "distinct ds \<and> set ds \<subseteq> set (d # ds)" using a p by (auto simp: active_ok_def)
  have "client_core X (client_phase (Handling ds) (put_loop (client_loop w) el w))"
    by (rule loop_step_core [OF h(2) el]) (use u p es in simp_all)
  moreover have "connector_at ph (client_phase (Handling ds) (put_loop (client_loop w) el w))"
    by (rule connector_at_loop [OF h(1) el]) simp_all
  moreover have "ups_ok ph (client_phase (Handling ds) w)" unfolding ups_ok_def
  proof (intro allI impI, elim conjE)
    fix c cn
    assume "cn_conns (client_phase (Handling ds) w) c = Some cn" "kind_of (cn_state cn) = Up"
    then have "up_with ph w c (cn_channel cn)" using h(3) by (simp add: ups_ok_def)
    then show "up_with ph (client_phase (Handling ds) w) c (cn_channel cn)"
      using p by (cases ph) (auto simp: client_pending_def pending_at_def client_todo_def)
  qed
  ultimately show "client_inv_but X ph (client_phase (Handling ds) w)"
    using h(5) u(2) by (simp add: client_inv_but_def loop_same [OF el])
qed

text \<open>A functor is taken off the vector; a \<open>resetChannel\<close> is treated on its own.\<close>

lemma client_take:
  assumes i: "client_inv ph w" and p: "cm_phase w = Running fs0 (f # fs)" and f: "f \<noteq> FResetChannel"
  defines "x \<equiv> client_phase (Running fs0 fs) w"
  shows "client_inv_but {c. f = FConnectDestroyed c} ph x" "client_valid w f"
    "\<And>c cn. f = FForceCloseInLoop c \<Longrightarrow> cn_conns w c = Some cn \<Longrightarrow> kind_of (cn_state cn) = Up \<Longrightarrow> ph = Idle"
proof -
  note h = client_inv_butD [OF i]
  obtain el where el: "n_loops w (client_loop w) = Some el" using loop_live [OF h(1)] by blast
  have u: "client_upcoming w = f # fs @ pendingFunctors el" "client_todo w = f # fs"
    using p el by (simp_all add: client_upcoming_def client_todo_def client_pending_def pending_at_def)
  show "client_valid w f" using client_coreD(4) [OF h(2)] u(1) by (simp add: functors_ok_def)
  have "client_core {c. f = FConnectDestroyed c} (client_phase (Running fs0 fs) (put_loop (client_loop w) el w))"
    by (rule loop_step_core [OF h(2) el]) (auto simp: u)
  moreover have "connector_at ph (client_phase (Running fs0 fs) (put_loop (client_loop w) el w))"
    by (rule connector_at_loop [OF h(1) el]) simp_all
  moreover have r: "reset_first c (f # fs) \<longleftrightarrow> f \<noteq> FForceCloseInLoop c \<and> reset_first c fs" for c
    using f by (auto simp: reset_first_def)
  have "ups_ok ph x" unfolding ups_ok_def
  proof (intro allI impI, elim conjE)
    fix c cn
    assume "cn_conns x c = Some cn" "kind_of (cn_state cn) = Up"
    then have "up_with ph w c (cn_channel cn)" using h(3) by (simp add: ups_ok_def x_def)
    then show "up_with ph x c (cn_channel cn)" using p u(2) r by (cases ph) (simp_all add: x_def)
  qed
  ultimately show "client_inv_but {c. f = FConnectDestroyed c} ph x"
    using h(5) u(2) f by (simp add: client_inv_but_def loop_same [OF el] x_def)
  show "ph = Idle" if "f = FForceCloseInLoop c" "cn_conns w c = Some cn" "kind_of (cn_state cn) = Up" for c cn
  proof -
    have "up_with ph w c (cn_channel cn)" using h(3) that by (simp add: ups_ok_def)
    then show ?thesis using p u(2) r that(1) by (cases ph) simp_all
  qed
qed

text \<open>Nothing is up while an attempt is over and its channel waits, unless the reports are being handled.\<close>

lemma client_swap_ok:
  assumes i: "client_inv ph w" and p: "cm_phase w = Handling []"
  shows "returns (client_swap w) (client_inv (if ph = Cleaning then Resetting else ph))"
proof -
  note h = client_inv_butD [OF i]
  obtain el where hm: "home (resets ph) el w" and el: "n_loops w (client_loop w) = Some el"
    using h(1) by (rule connector_at_home)
  let ?fs = "pendingFunctors el" and ?ph = "if ph = Cleaning then Resetting else ph"
  let ?el = "el\<lparr>el_calling := True, pendingFunctors := []\<rparr>"
  let ?w = "client_phase (Running ?fs ?fs) (put_loop (client_loop w) ?el w)"
  have u: "client_upcoming w = ?fs" "client_todo w = []" "client_pending w = ?fs"
    using p el by (simp_all add: client_upcoming_def client_todo_def client_pending_def pending_at_def)
  have n: "count_list ?fs FResetChannel = resets ph" using hm by (simp add: home_def)
  have ph: "ph \<noteq> Resetting" using h(5) u(2) by auto
  have "client_core {} ?w" by (rule loop_step_core [OF h(2) el]) (simp_all add: u)
  moreover have "connector_at ?ph ?w"
  proof (cases "ph = Cleaning")
    case True
    have inv: "conn_inv ?w"
      using conn_inv_put_loop [OF h(4) el, of ?el] by (subst conn_inv_cong [where w = "put_loop (client_loop w) ?el w"]) simp_all
    have "home (resets Resetting) ?el ?w" using hm by (simp add: home_def)
    moreover have "shape Resetting ?w" "ct_state (ct ?w) \<noteq> cConnecting"
      using connector_atD(2,3) [OF h(1)] True by simp_all
    ultimately show ?thesis using inv True by (auto simp: connector_at_def)
  next
    case False
    then have "resets ph = 0" by (cases ph) simp_all
    then show ?thesis using connector_at_loop [OF h(1) el, of ?el] n False by simp
  qed
  moreover have "ups_ok ?ph ?w" unfolding ups_ok_def
  proof (intro allI impI, elim conjE)
    fix c cn
    assume "cn_conns ?w c = Some cn" "kind_of (cn_state cn) = Up"
    then have "up_with ph w c (cn_channel cn)" using h(3) by (simp add: ups_ok_def)
    then show "up_with ?ph ?w c (cn_channel cn)" using ph u by (cases ph) simp_all
  qed
  moreover have "count_list (client_todo ?w) FResetChannel = (if ?ph = Resetting then 1 else 0)"
    using n ph by (cases ph) simp_all
  ultimately show ?thesis using el by (simp add: client_swap_def client_inv_but_def)
qed

lemma not_handling_up:
  assumes "client_inv_but X ph w" "\<And>ds. cm_phase w \<noteq> Handling ds" "client_todo w = []" "cn_conns w c = Some cn"
    "kind_of (cn_state cn) = Up"
  shows "ph = Idle"
proof -
  note h = client_inv_butD [OF assms(1)]
  have "up_with ph w c (cn_channel cn)" using h(3) assms(4,5) by (simp add: ups_ok_def)
  then show ?thesis using h(5) assms(2,3) by (cases ph) auto
qed

lemma client_finish_ok:
  assumes i: "client_inv ph w" and p: "cm_phase w = Running fs0 []"
  shows "returns (client_finish w) (client_inv ph)"
proof -
  note h = client_inv_butD [OF i]
  obtain el where el: "n_loops w (client_loop w) = Some el" using loop_live [OF h(1)] by blast
  let ?w = "client_phase Waiting (put_loop (client_loop w) (el\<lparr>el_calling := False\<rparr>) w)"
  have u: "client_upcoming w = pendingFunctors el" "client_todo w = []"
    using p el by (simp_all add: client_upcoming_def client_todo_def client_pending_def pending_at_def)
  have "client_core {} ?w" by (rule loop_step_core [OF h(2) el]) (simp_all add: u)
  moreover have "connector_at ph ?w" by (rule connector_at_loop [OF h(1) el]) simp_all
  moreover have "ups_ok ph ?w" using not_handling_up [OF i _ u(2)] p by (auto simp: ups_ok_def)
  ultimately show ?thesis using el h(5) u(2) by (simp add: client_finish_def client_inv_but_def)
qed

lemma client_poll_ok:
  assumes i: "client_inv ph w" and p: "cm_phase w = Waiting" and env: "poll_env_ok env"
  shows "returns (client_poll env w) (client_inv ph)"
proof -
  note h = client_inv_butD [OF i] and k = client_coreD [OF client_inv_butD(2) [OF i]]
  let ?l = "client_loop w"
  obtain el where el: "n_loops w ?l = Some el" using loop_live [OF h(1)] by blast
  have pi: "poller_inv b (el_poller eb) (n_chans w)" if "n_loops w b = Some eb" for b eb
    using conn_inv_net [OF h(4)] that by (rule net_invD)
  obtain x where x: "poll env (el_poller el) (n_chans w) = Inr x" "case x of (p', cs', active) \<Rightarrow>
      poller_inv ?l p' cs' \<and> revents_only (n_chans w) cs' \<and> kernel p' = kernel (el_poller el)
      \<and> channels_map p' = channels_map (el_poller el) \<and> length active \<le> events_size (el_poller el)
      \<and> events_size p' = (if length active = events_size (el_poller el) \<and> active \<noteq> []
           then 2 * events_size (el_poller el) else events_size (el_poller el))
      \<and> (\<forall>c \<in> set active. \<exists>ch. cs' c = Some ch \<and> ch_loop ch = ?l \<and> ch_index ch = KAdded
           \<and> ch_revents ch \<noteq> 0 \<and> wanted (ch_events ch) (ch_revents ch))"
    using poll_ok [OF pi [OF el], of env] unfolding returns_iff by blast
  obtain q cs active where xs: "x = (q, cs, active)" by (cases x)
  note y = x [unfolded xs]
  have ro: "revents_only (n_chans w) cs" using y(2) by simp
  let ?el = "el\<lparr>el_poller := q, activeChannels := active\<rparr>"
  let ?w = "client_phase (Handling active) (put_loop ?l ?el (w\<lparr>n_chans := cs\<rparr>))"
  have f: "n_chans ?w = cs" "cn_conns ?w = cn_conns w" "cn_strings ?w = cn_strings w" "n_loops ?w = (n_loops w)(?l \<mapsto> ?el)"
    "ct ?w = ct w" "ct_open ?w = ct_open w" "cl ?w = cl w" "n_tid ?w = n_tid w" "my_conn ?w = my_conn w"
    by (simp_all add: put_loop_def client_phase_def my_conn_def)
  have "poller_inv b (el_poller eb) cs" if "n_loops w b = Some eb" for b eb
    by (rule poller_inv_cong [OF pi [OF that] pview_revents_only [OF ro]])
  then have "net_inv ?w" unfolding net_inv_def f using y(2) by (auto split: if_splits)
  then have inv': "conn_inv ?w"
    by (rule conn_inv_polled [OF h(4)]) (use f y(2) el in auto)
  have chan: "\<exists>r. cs d = Some (ch\<lparr>ch_revents := r\<rparr>)" if "n_chans w d = Some ch" for d ch
    using ro that by (auto elim: revents_onlyE)
  have orig: "\<exists>ch r. n_chans w d = Some ch \<and> ch' = ch\<lparr>ch_revents := r\<rparr>" if "cs d = Some ch'" for d ch'
    using ro [unfolded revents_only_def, THEN spec, of d] that by (cases "n_chans w d") auto
  have at: "connector_at ph ?w"
    by (rule connector_keep [OF h(1) inv']) (use f el chan in \<open>auto simp: no_conn_fd_def\<close>)
  have u: "client_upcoming ?w = client_upcoming w" "client_todo w = []"
    using p el f by (simp_all add: client_upcoming_def client_todo_def client_pending_def pending_at_def)
  have s: "same_lives w ?w" unfolding same_lives_def f using orig by fastforce
  have core: "registered_up ?w" "conns_ok ?w" "leaving_ok {} ?w"
    by (rule lives_core [OF s k(1,3,7)]; use u f in simp)+
  have "functors_ok ?w" using k(4) client_valid_same [of w ?w] f(2) by (simp add: functors_ok_def u same_conns_cong)
  moreover have "channels_ok ?w" unfolding channels_ok_def f
  proof (intro allI impI)
    fix d ch'
    assume "cs d = Some ch'"
    then obtain ch r where "n_chans w d = Some ch" "ch' = ch\<lparr>ch_revents := r\<rparr>" using orig by blast
    then show "\<not> no_conn_chan d ?w \<or> ct_channel (ct w) = Some d \<or> wake_chan ?l ch'"
      using k(5) f(2) by (auto simp: channels_ok_def no_conn_chan_def wake_chan_def)
  qed
  moreover have "active_ok ?w"
    using poll_distinct [OF pi [OF el] env y(1)] y(2) f by (fastforce simp: active_ok_def)
  moreover have "ups_ok ph ?w" using not_handling_up [OF i _ u(2)] p f(2) by (auto simp: ups_ok_def)
  ultimately show ?thesis using at core k(2) f(7) h(5) u(2) y(1) el
    by (simp add: client_poll_def client_inv_but_def client_core_def)
qed

end
