(* ===== verification/Client_Steps.thy ===== *)
theory Client_Steps
  imports Client_Machine
begin

text \<open>
  What the connector's own steps, the calls of the application and the end of a connection do to the
  machine of a client and its invariant.
\<close>

section \<open>The connector's own steps\<close>

lemma beside_machine:
  fixes w :: client_machine
  assumes "beside w w'"
  shows "cl w' = cl w" "cm_phase w' = cm_phase w" "my_conn w' = my_conn w" "client_todo w' = client_todo w"
    "client_loop w' = client_loop w" "cn_conns w' = cn_conns w" "apart w w'"
proof -
  have m: "connector_net.more w' = connector_net.more w" using assms by (simp add: beside_def)
  show a: "cl w' = cl w" "cm_phase w' = cm_phase w" using m by (cases w; cases w'; simp)+
  then show "my_conn w' = my_conn w" "client_todo w' = client_todo w" by (simp_all add: my_conn_def client_todo_def)
  show "client_loop w' = client_loop w" "apart w w'" using assms by (simp_all add: beside_def)
  then show "cn_conns w' = cn_conns w" by (simp add: apart_def)
qed

lemma beside_core:
  assumes core: "client_core X w" and inv: "connector_at ph w" and b: "beside w w'" and at: "connector_at ph' w'"
    and keep: "\<And>ds d. cm_phase w = Handling ds \<Longrightarrow> d \<in> set ds \<Longrightarrow> ct_channel (ct w) = Some d \<Longrightarrow> ct_channel (ct w') = Some d"
  shows "client_core X w'"
proof -
  note k = client_coreD [OF core] and m = beside_machine [OF b]
  have own: "n_chans w' d = n_chans w d" if "ct_channel (ct w) \<noteq> Some d" "ct_channel (ct w') \<noteq> Some d" for d
    using b that by (simp add: beside_def only_own_chan_def)
  have gone: "n_chans w' d = None" if "ct_channel (ct w) = Some d" "ct_channel (ct w') \<noteq> Some d" for d
    using b that by (auto simp: beside_def only_own_chan_def)
  obtain el where el: "n_loops w (client_loop w) = Some el" using loop_live [OF inv] by blast
  then obtain el' where el': "n_loops w' (client_loop w) = Some el'"
    "filter (\<lambda>f. f \<noteq> FResetChannel) (pendingFunctors el') = filter (\<lambda>f. f \<noteq> FResetChannel) (pendingFunctors el)"
    using b by (auto simp: beside_def same_queue_def)
  have q: "f \<in> set (client_upcoming w') \<longleftrightarrow> f \<in> set (client_upcoming w)" if "f \<noteq> FResetChannel" for f
  proof -
    have "f \<in> set (filter (\<lambda>f. f \<noteq> FResetChannel) (pendingFunctors el')) \<longleftrightarrow> f \<in> set (filter (\<lambda>f. f \<noteq> FResetChannel) (pendingFunctors el))"
      by (simp only: el'(2))
    then show ?thesis using that el el'(1) m by (simp add: client_upcoming_def client_pending_def pending_at_def)
  qed
  have core: "registered_up w'" "conns_ok w'" "leaving_ok X w'"
    by (rule lives_core [OF same_lives_apart [OF m(7)] k(1,3,7)]; use m q in simp)+
  have v: "client_valid w' f = client_valid w f" for f by (rule client_valid_same) (simp add: same_conns_cong m(6))
  have "functors_ok w'" unfolding functors_ok_def v
  proof
    fix f
    assume "f \<in> set (client_upcoming w')"
    then show "client_valid w f" using q [of f] k(4) by (cases "f = FResetChannel") (auto simp: functors_ok_def)
  qed
  moreover have "channels_ok w'" unfolding channels_ok_def
  proof (intro allI impI)
    fix d ch
    assume d: "n_chans w' d = Some ch"
    show "\<not> no_conn_chan d w' \<or> ct_channel (ct w') = Some d \<or> wake_chan (client_loop w') ch"
    proof (cases "ct_channel (ct w') = Some d \<or> ct_channel (ct w) = Some d")
      case True
      then show ?thesis using gone [of d] d by auto
    next
      case False
      then have "n_chans w d = Some ch" using own d by simp
      then show ?thesis using k(5) False m by (auto simp: channels_ok_def no_conn_chan_def)
    qed
  qed
  moreover have "active_ok w'" unfolding active_ok_def m
  proof (intro allI impI conjI ballI)
    fix ds d
    assume ds: "cm_phase w = Handling ds"
    then show "distinct ds" using k(6) by (simp add: active_ok_def)
    assume d: "d \<in> set ds"
    then obtain ch where ch: "n_chans w d = Some ch" "ch_index ch = KAdded \<or> ct_channel (ct w) = Some d"
      using k(6) ds by (auto simp: active_ok_def)
    show "\<exists>ch. n_chans w' d = Some ch \<and> (ch_index ch = KAdded \<or> ct_channel (ct w') = Some d)"
    proof (cases "ct_channel (ct w') = Some d")
      case True
      then show ?thesis using attempt_no_conn(2) [OF at] by auto
    next
      case False
      then have "ct_channel (ct w) \<noteq> Some d" using keep [OF ds d] by blast
      then show ?thesis using own [OF _ False] ch by simp
    qed
  qed
  ultimately show ?thesis using core k(2) m(1) by (simp add: client_core_def)
qed

text \<open>Changes of fields that no clause reads.\<close>

lemma fields_client_inv:
  assumes i: "client_inv_but X ph w" and at: "connector_at ph' w'" "ph' = ph"
    and same: "n_loops w' = n_loops w" "n_chans w' = n_chans w" "cn_conns w' = cn_conns w" "cm_phase w' = cm_phase w"
      "cl w' \<noteq> None" "my_conn w' = my_conn w" "client_loop w' = client_loop w" "ct_channel (ct w') = ct_channel (ct w)"
  shows "client_inv_but X ph w'"
proof -
  note h = client_inv_butD [OF i] and k = client_coreD [OF client_inv_butD(2) [OF i]]
  have t: "client_todo w' = client_todo w" "client_pending w' = client_pending w" "client_upcoming w' = client_upcoming w"
    using same by (simp_all add: client_todo_def client_pending_def client_upcoming_def pending_at_def)
  have v: "client_valid w' f = client_valid w f" for f by (rule client_valid_same) (simp add: same_conns_cong same)
  have "client_core X w'"
    using k same by (simp add: client_core_def registered_up_def conns_ok_def functors_ok_def v t channels_ok_def
        no_conn_chan_def active_ok_def leaving_ok_def)
  moreover have "up_with ph w' c d = up_with ph w c d" for c d using same t by (cases ph) simp_all
  then have "ups_ok ph w'" using h(3) same by (simp add: ups_ok_def)
  ultimately show ?thesis using at h(5) t by (simp add: client_inv_but_def)
qed

definition nothing_up :: "'a conn_net_scheme \<Rightarrow> bool" where
  "nothing_up w \<longleftrightarrow> (\<forall>c cn. cn_conns w c = Some cn \<longrightarrow> kind_of (cn_state cn) \<noteq> Up)"

lemma nothing_up_ok: "nothing_up w \<Longrightarrow> ups_ok ph w"
  by (auto simp: nothing_up_def ups_ok_def)

lemma nothing_upI:
  assumes "client_core X w" "\<And>c cn. my_conn w = Some c \<Longrightarrow> cn_conns w c = Some cn \<Longrightarrow> kind_of (cn_state cn) \<noteq> Up"
  shows "nothing_up w"
  using client_coreD(3) [OF assms(1)] assms(2) unfolding nothing_up_def conns_ok_def by blast

lemma trying_nothing_up: "client_inv_but X Trying w \<Longrightarrow> nothing_up w"
  using client_inv_butD(3) [of X Trying w] by (auto simp: nothing_up_def ups_ok_def)

lemma beside_client_inv:
  assumes i: "client_inv_but X ph w" and n: "nothing_up w" and b: "beside w w'" and at: "connector_at ph' w'"
    and ph: "ph = Resetting \<longleftrightarrow> ph' = Resetting"
    and keep: "\<And>d. ct_channel (ct w) = Some d \<Longrightarrow> ct_channel (ct w') = Some d"
  shows "client_inv_but X ph' w'"
proof -
  note h = client_inv_butD [OF i] and m = beside_machine [OF b]
  have "client_core X w'" by (rule beside_core [OF h(2,1) b at]) (rule keep)
  moreover have "ups_ok ph' w'" using n m(6) by (intro nothing_up_ok) (simp add: nothing_up_def)
  ultimately show ?thesis using at h(5) m(4) ph by (simp add: client_inv_but_def)
qed

lemma fresh_descriptor:
  assumes inv: "conn_inv w" and f: "fresh_fd fd w" "n_chans w d = None"
  shows "new_descriptor fd d w"
proof -
  have "no_conn_fd fd w" unfolding no_conn_fd_def
  proof (intro allI impI)
    fix c cn
    assume "cn_conns w c = Some cn"
    then obtain ch el where "linked c cn ch el w" using inv by (auto elim: conn_invE)
    then show "sk_fd (cn_socket cn) \<noteq> fd" using f(1) by (auto simp: fresh_fd_def linked_def owns_def)
  qed
  moreover have "channels_map (el_poller el) fd = None" if el: "n_loops w l = Some el" for l el
  proof (rule ccontr)
    assume "channels_map (el_poller el) fd \<noteq> None"
    then obtain b where "registered l (n_chans w) fd b"
      using poller_inv_map [OF net_invD [OF conn_inv_net [OF inv] el]] by blast
    then show False using f(1) by (auto simp: registered_def fresh_fd_def)
  qed
  ultimately show ?thesis using f(2) by (simp add: new_descriptor_def)
qed

lemma connect_ok:
  assumes i: "client_inv_but X Idle w" and n: "nothing_up w" and f: "connect_fresh w"
  shows "ends connector_faults (connect w) (\<lambda>w'. \<exists>ph \<in> {Idle, Trying}. client_inv_but X ph w' \<and> beside w w')"
proof -
  note h = client_inv_butD [OF i]
  have idle: "ct_channel (ct w) = None" using connector_atD(2) [OF h(1)] by simp
  have ok: "\<exists>ph \<in> {Idle, Trying}. client_inv_but X ph w' \<and> beside w w'"
    if "connector_at ph w' \<and> beside w w'" "ph \<in> {Idle, Trying}" for ph w'
  proof -
    have "client_inv_but X ph w'" by (rule beside_client_inv [OF i n, of w' ph]) (use that idle in auto)
    then show ?thesis using that by blast
  qed
  have new: "0 \<le> ce_fd (next_connect w) \<Longrightarrow> new_descriptor (ce_fd (next_connect w)) (ce_chan (next_connect w)) w"
    using f fresh_descriptor [OF h(4)] by (simp add: connect_fresh_def Let_def)
  define P where "P w' \<longleftrightarrow> (\<exists>ph \<in> {Idle, Trying}. client_inv_but X ph w' \<and> beside w w')" for w'
  have t: "connector_at Trying w' \<and> beside w w' \<Longrightarrow> P w'" "connector_at Idle w' \<and> beside w w' \<Longrightarrow> P w'" for w'
    unfolding P_def using ok [of Trying w'] ok [of Idle w'] by simp_all
  have "ends connector_faults (connect w) P"
    using connect_branches [OF h(1) refl new] t
    by (fastforce split: if_splits simp: connector_faults_def returns_iff)
  then show ?thesis by (rule ends_mono) (simp only: P_def)
qed

lemma connector_at_field:
  assumes at: "connector_at Idle w" and ct': "ct_loop (f (ct w)) = ct_loop (ct w)" "ct_channel (f (ct w)) = None"
    "ct_state (f (ct w)) \<noteq> cConnecting"
  shows "connector_at Idle (upd_connector f w)"
proof -
  have inv: "conn_inv (upd_connector f w)"
    by (rule apart_conn_inv [OF connector_atD(1) [OF at] apart_fields(1) [OF connector_atD(1) [OF at]]])
  then show ?thesis using at ct' by (simp add: connector_at_def home_fields)
qed

lemma upd_machine [simp]:
  "cl (upd_connector f w) = cl w" "cm_phase (upd_connector f w) = cm_phase w" "my_conn (upd_connector f w) = my_conn w"
  "next_connect (upd_connector f w) = next_connect w" "cm_phase (put_client k w) = cm_phase w"
  "my_conn (put_client k w) = cl_connection k" "next_connect (put_client k w) = next_connect w"
  by (simp_all add: upd_connector_def my_conn_def next_connect_def put_client_def)

lemma connect_fresh_cong:
  "next_connect w' = next_connect w \<Longrightarrow> n_chans w' = n_chans w \<Longrightarrow> connect_fresh w' = connect_fresh w"
  by (simp add: connect_fresh_def fresh_fd_def)

lemma restart_ok:
  assumes i: "client_inv_but X Idle w" and n: "nothing_up w" and f: "connect_fresh w"
  shows "ends connector_faults (restart w) (\<lambda>w'. \<exists>ph \<in> {Idle, Trying}. client_inv_but X ph w' \<and> beside w w')"
proof -
  let ?f = "\<lambda>c. c\<lparr>ct_state := cDisconnected, ct_connect := True\<rparr>"
  let ?w = "upd_connector ?f w"
  note h = client_inv_butD [OF i]
  have at: "connector_at Idle ?w"
    by (rule connector_at_field [OF h(1)]) (use connector_atD(2) [OF h(1)] in simp_all)
  have "client_inv_but X Idle ?w"
    by (rule fields_client_inv [OF i at refl]) (use client_coreD(2) [OF h(2)] in simp_all)
  moreover have "nothing_up ?w" using n by (simp add: nothing_up_def)
  moreover have "connect_fresh ?w" using f by (subst connect_fresh_cong [of _ w]) simp_all
  ultimately have "ends connector_faults (connect ?w) (\<lambda>w'. \<exists>ph \<in> {Idle, Trying}. client_inv_but X ph w' \<and> beside ?w w')"
    by (rule connect_ok)
  moreover have "restart w = connect ?w"
    by (simp add: restart_def startInLoop_def set_state_def upd_connector_def)
  moreover have "beside w w'" if "beside ?w w'" for w' by (rule beside_after [OF that]) simp_all
  ultimately show ?thesis by (auto elim!: ends_mono)
qed

section \<open>The calls of the application\<close>

definition client_faults :: "fault set" where
  "client_faults = insert SignedOverflow app_faults \<union> connector_faults"

lemma client_calm:
  assumes i: "client_inv_but X ph w" and r: "safely r (calm w)" "good app_faults w r"
  shows "ends app_faults r (\<lambda>w'. calm w w' \<and> evolves w w' \<and> client_inv_but X ph w')"
  using r calm_client_inv [OF i] by (cases r) (auto simp: good_def)

definition settled_client :: "client_machine \<Rightarrow> bool" where
  "settled_client w \<longleftrightarrow> (\<exists>ph. client_inv ph w)"

lemma client_wider: "ends E r P \<Longrightarrow> E \<subseteq> client_faults \<Longrightarrow> (\<And>w'. P w' \<Longrightarrow> settled_client w') \<Longrightarrow>
    ends client_faults r settled_client"
  by (cases r) auto

lemma faults_client: "app_faults \<subseteq> client_faults" "connector_faults \<subseteq> client_faults"
  by (auto simp: client_faults_def)

lemma client_calm_ok:
  assumes "client_inv ph w" "safely r (calm w)" "good app_faults w r"
  shows "ends client_faults r settled_client"
  by (rule client_wider [OF client_calm [OF assms] faults_client(1)]) (auto simp: settled_client_def)

lemma client_thread:
  assumes "client_inv_but X ph w"
  shows "own_thread c w"
  unfolding own_thread_def
proof (intro allI impI)
  fix cn
  assume "cn_conns w c = Some cn"
  then have "cn_loop cn = client_loop w"
    using client_coreD(3) [OF client_inv_butD(2) [OF assms]] by (auto simp: conns_ok_def)
  moreover obtain el where "home (resets ph) el w" "n_loops w (client_loop w) = Some el"
    using client_inv_butD(1) [OF assms] by (rule connector_at_home)
  ultimately show "\<exists>el. n_loops w (cn_loop cn) = Some el \<and> threadId el = n_tid w" by (auto simp: home_def)
qed

lemma client_answers_ok:
  assumes i: "client_inv ph w"
  shows "client_inv ph (w\<lparr>ct_connects := es, ct_results := rs\<rparr>)"
proof (rule fields_client_inv [OF i _ refl])
  show "connector_at ph (w\<lparr>ct_connects := es, ct_results := rs\<rparr>)"
    using connector_at_answers(2) [OF connector_at_answers(1) [OF client_inv_butD(1) [OF i], of es], of rs] by simp
qed (use client_coreD(2) [OF client_inv_butD(2) [OF i]] in \<open>simp_all add: my_conn_def\<close>)

lemma put_client_at: "connector_at ph w \<Longrightarrow> connector_at ph (put_client k w)" for w :: "'a client_net_scheme"
proof -
  assume at: "connector_at ph w"
  have "conn_inv (put_client k w)" using connector_atD(1) [OF at] by (subst conn_inv_cong [where w = w]) simp_all
  moreover have "shape ph (put_client k w) = shape ph w" by (cases ph) (simp_all add: no_conn_fd_def)
  ultimately show ?thesis using at by (simp add: connector_at_def home_def)
qed

lemma wish_client_inv:
  assumes i: "client_inv_but X ph w" and k: "cl w = Some k"
  shows "client_inv_but X ph (upd_connector (\<lambda>c. c\<lparr>ct_connect := b\<rparr>) (put_client (k\<lparr>cl_connect := b'\<rparr>) w))"
  by (rule fields_client_inv [OF i connector_at_wish [OF put_client_at [OF client_inv_butD(1) [OF i]]] refl])
    (use k in \<open>simp_all add: my_conn_def\<close>)

lemma client_connect_ok:
  assumes i: "client_inv ph w" and may: "may_connect w" and f: "connect_fresh w"
  shows "ends client_faults (client_connect w) settled_client"
proof -
  note h = client_inv_butD [OF i] and k = client_coreD [OF client_inv_butD(2) [OF i]]
  obtain k0 where k0: "cl w = Some k0" using k(2) by blast
  let ?w = "upd_connector (\<lambda>c. c\<lparr>ct_connect := True\<rparr>) (put_client (k0\<lparr>cl_connect := True\<rparr>) w)"
  have "ph = Idle" using connector_atD(2) [OF h(1)] may by (cases ph) (auto simp: may_connect_def)
  then have i': "client_inv Idle ?w" using wish_client_inv [OF i k0] by simp
  have "nothing_up w" by (rule nothing_upI [OF h(2)]) (use may in \<open>simp add: may_connect_def\<close>)
  then have n: "nothing_up ?w" by (simp add: nothing_up_def)
  have "connect_fresh ?w" using f by (subst connect_fresh_cong [of _ w]) simp_all
  from connect_ok [OF i' n this] have "ends client_faults (connect ?w) settled_client"
    by (rule client_wider [OF _ faults_client(2)]) (auto simp: settled_client_def)
  moreover have "client_connect w = connect ?w"
    using k0 connector_at_here [OF client_inv_butD(1) [OF i']]
    by (simp add: client_connect_def get_client_def connector_start_def runInLoop_def startInLoop_idle)
  ultimately show ?thesis by simp
qed

lemma client_stop_ok:
  assumes i: "client_inv ph w"
  shows "ends client_faults (client_stop w) settled_client"
proof -
  note k = client_coreD [OF client_inv_butD(2) [OF i]]
  obtain k0 where k0: "cl w = Some k0" using k(2) by blast
  let ?w = "upd_connector (\<lambda>c. c\<lparr>ct_connect := False\<rparr>) (put_client (k0\<lparr>cl_connect := False\<rparr>) w)"
  have i': "client_inv ph ?w" by (rule wish_client_inv [OF i k0])
  note h = client_inv_butD [OF i']
  have "returns (stopInLoop ?w) settled_client"
  proof (cases "ph = Trying")
    case False
    then show ?thesis using connector_atD(3) [OF h(1)] i' by (auto simp: stopInLoop_def settled_client_def)
  next
    case True
    have t: "client_inv Trying ?w" using i' True by simp
    have at: "connector_at Trying ?w" by (rule client_inv_butD(1) [OF t])
    have "\<not> ct_connect (ct ?w)" by simp
    from stopInLoop_branches [OF at this] show ?thesis
    proof (rule returns_mono)
      fix w'
      assume *: "connector_at (if Trying = Trying then Cleaning else Trying) w' \<and> beside ?w w'
        \<and> \<not> ct_connect (ct w') \<and> ct_channel (ct w') = ct_channel (ct ?w)"
      have "client_inv Cleaning w'"
        by (rule beside_client_inv [OF t trying_nothing_up [OF t], of w' Cleaning]) (use * in simp_all)
      then show "settled_client w'" by (auto simp: settled_client_def)
    qed
  qed
  moreover have "client_stop w = stopInLoop ?w"
    using k0 connector_at_here [OF h(1)] by (simp add: client_stop_def get_client_def connector_stop_def runInLoop_def)
  ultimately show ?thesis by (simp add: ends_returns)
qed

lemma client_disconnect_ok:
  assumes i: "client_inv ph w"
  shows "ends client_faults (client_disconnect w) settled_client"
proof -
  note k = client_coreD [OF client_inv_butD(2) [OF i]]
  obtain k0 where k0: "cl w = Some k0" using k(2) by blast
  let ?w = "put_client (k0\<lparr>cl_connect := False\<rparr>) w"
  have i': "client_inv ph ?w"
    by (rule fields_client_inv [OF i put_client_at [OF client_inv_butD(1) [OF i]] refl]) (use k0 in \<open>simp_all add: my_conn_def\<close>)
  note h = client_inv_butD [OF i']
  have "ends client_faults (tcp_shutdown c ?w) settled_client" if c: "cl_connection k0 = Some c" for c
  proof -
    obtain cn where "cn_conns w c = Some cn" using k(3) c k0 by (auto simp: conns_ok_def my_conn_def)
    then have "good app_faults ?w (tcp_shutdown c ?w)" by (intro tcp_shutdown_good [OF h(4)]) simp
    with client_calm_ok [OF i' tcp_shutdown_calm [OF client_thread [OF i']]] show ?thesis .
  qed
  moreover have "settled_client ?w" using i' by (auto simp: settled_client_def)
  ultimately show ?thesis using k0
    by (simp add: client_disconnect_def get_client_def Let_def split: option.split)
qed

lemma client_call_ok:
  assumes i: "client_inv ph w" and a: "confined_call a w"
  shows "ends client_faults (run_api a w) settled_client"
proof -
  note h = client_inv_butD [OF i]
  have "good app_faults w (run_api a w)" by (rule run_api_good [OF h(4)]) blast
  with client_calm_ok [OF i run_api_calm [OF h(4) client_coreD(1) [OF h(2)] confined_local [OF a]]] show ?thesis .
qed

text \<open>The wakeup channel.\<close>

lemma client_wake_ok:
  assumes i: "client_inv ph w"
  shows "ends client_faults (loop_handleRead (client_loop w) w) settled_client"
proof -
  note h = client_inv_butD [OF i]
  obtain el where el: "n_loops w (client_loop w) = Some el" using loop_live [OF h(1)] by blast
  let ?el = "read_eventfd el" and ?p = "cm_phase w"
  have e: "pendingFunctors ?el = pendingFunctors el" "el_poller ?el = el_poller el" "threadId ?el = threadId el"
      "timerQueue ?el = timerQueue el"
    by (simp_all add: read_eventfd_def)
  have same: "client_phase ?p (put_loop (client_loop w) ?el w) = put_loop (client_loop w) ?el w"
    by (simp add: client_phase_def put_loop_def)
  have u: "client_upcoming w = client_todo w @ pendingFunctors el"
    using el by (simp add: client_upcoming_def client_pending_def pending_at_def)
  have "client_core {} (client_phase ?p (put_loop (client_loop w) ?el w))"
    by (rule loop_step_core [OF h(2) el]) (use client_coreD(6) [OF h(2)] in \<open>simp_all add: u e client_todo_def active_ok_def\<close>)
  moreover have "connector_at ph (client_phase ?p (put_loop (client_loop w) ?el w))"
    by (rule connector_at_loop [OF h(1) el]) (simp_all add: e)
  moreover have "client_pending (put_loop (client_loop w) ?el w) = client_pending w"
    using el by (simp add: client_pending_def pending_at_def e)
  then have "ups_ok ph (put_loop (client_loop w) ?el w)" using h(3) by (cases ph) (simp_all add: ups_ok_def)
  ultimately show ?thesis using h(5) el
    by (auto simp: same loop_handleRead_def settled_client_def client_inv_but_def)
qed

section \<open>The end of a connection\<close>

text \<open>A connection goes down, or its channel leaves the poller.\<close>

lemma setc_client_inv:
  assumes i: "client_inv_but X ph w" and l: "linked c cn ch el w" and inv: "conn_inv (setc c cn' ch' el' w)"
    and cn': "same_place cn cn'" "cn_closeCallback cn' = cn_closeCallback cn" "kind_of (cn_state cn') = Down"
    and el': "pendingFunctors el' = pendingFunctors el" "threadId el' = threadId el" "timerQueue el' = timerQueue el"
    and ch': "ch_index ch' \<noteq> KAdded" "ch_index ch' = KDelete \<Longrightarrow> c \<in> Y" and Y: "X \<subseteq> insert c Y"
    and rep: "\<And>ds. cm_phase w = Handling ds \<Longrightarrow> cn_channel cn \<notin> set ds"
  shows "client_inv_but Y ph (setc c cn' ch' el' w)"
proof -
  let ?w = "setc c cn' ch' el' w" and ?d = "cn_channel cn"
  note h = client_inv_butD [OF i] and k = client_coreD [OF client_inv_butD(2) [OF i]]
  have c: "cn_conns w c = Some cn" "n_chans w ?d = Some ch" "n_loops w (cn_loop cn) = Some el" using l by (simp_all add: linked_def)
  have p: "cn_channel cn' = ?d" "cn_loop cn' = cn_loop cn" "sk_fd (cn_socket cn') = sk_fd (cn_socket cn)"
    using cn'(1) by (simp_all add: same_place_def)
  have at_l: "cn_loop cn = client_loop w" "cn_closeCallback cn = Some ClientRemove" using k(3) c(1) by (auto simp: conns_ok_def)
  have f: "cn_conns ?w = (cn_conns w)(c \<mapsto> cn')" "n_chans ?w = (n_chans w)(?d \<mapsto> ch')"
      "n_loops ?w = (n_loops w)(client_loop w \<mapsto> el')"
    by (simp_all add: p at_l)
  have m: "cl ?w = cl w" "ct ?w = ct w" "ct_open ?w = ct_open w" "cm_phase ?w = cm_phase w" "my_conn ?w = my_conn w" "client_todo ?w = client_todo w"
    using machine_more [of ?w w] by simp_all
  have other: "cn_channel bn \<noteq> ?d" if "cn_conns w b = Some bn" "b \<noteq> c" for b bn
    using other_channel [OF h(4) c(1) that] by simp
  have chans: "no_conn_chan d ?w = no_conn_chan d w" for d
    using c(1) p(1) unfolding no_conn_chan_def f by (metis fun_upd_apply option.sel)
  have u: "client_pending ?w = client_pending w" "client_upcoming ?w = client_upcoming w"
    using c(3) at_l el'(1) m f(3) by (simp_all add: client_upcoming_def client_pending_def pending_at_def)
  have at: "connector_at ph ?w"
  proof (rule connector_keep [OF h(1) inv m(2,3)])
    show "\<exists>r. n_chans ?w d = Some (ch0\<lparr>ch_revents := r\<rparr>)" if "ct_channel (ct w) = Some d" "n_chans w d = Some ch0" for d ch0
    proof -
      have "d \<noteq> ?d" using attempt_no_conn(1) [OF h(1) that(1)] c(1) by (auto simp: no_conn_chan_def)
      then show ?thesis using that(2) unfolding f by (intro exI [of _ "ch_revents ch0"]) simp
    qed
    show "\<exists>el2. n_loops ?w (ct_loop (ct w)) = Some el2 \<and> threadId el2 = threadId el1
        \<and> (timerQueue el2 = None \<longleftrightarrow> timerQueue el1 = None)
        \<and> count_list (pendingFunctors el2) FResetChannel = count_list (pendingFunctors el1) FResetChannel"
      if "n_loops w (ct_loop (ct w)) = Some el1" for el1
      using that c(3) at_l el' by (simp add: f)
    show "no_conn_fd fd ?w" if "no_conn_fd fd w" for fd
      using that c(1) p(3) unfolding no_conn_fd_def f by (metis fun_upd_apply option.sel)
  qed simp
  have "registered_up ?w" unfolding registered_up_def f
  proof (intro allI impI, elim conjE)
    fix b bn bh
    assume b: "((cn_conns w)(c \<mapsto> cn')) b = Some bn" "((n_chans w)(?d \<mapsto> ch')) (cn_channel bn) = Some bh"
    show "ch_index bh = KAdded \<longleftrightarrow> kind_of (cn_state bn) = Up"
    proof (cases "b = c")
      case True
      then show ?thesis using b p(1) cn'(3) ch'(1) by simp
    next
      case False
      then have "cn_conns w b = Some bn" using b(1) by simp
      then show ?thesis using b(2) other [OF _ False] k(1) by (simp add: registered_up_def)
    qed
  qed
  moreover have "conns_ok ?w" using k(3) at_l cn' p(2) by (auto simp: conns_ok_def m f)
  moreover have "client_valid ?w g" if "client_valid w g" for g
    using that cn'(3) c(1) by (cases g) (auto simp: f)
  then have "functors_ok ?w" using k(4) by (simp add: functors_ok_def u)
  moreover have "channels_ok ?w" unfolding channels_ok_def chans m f
  proof (intro allI impI)
    fix d dh
    assume "((n_chans w)(?d \<mapsto> ch')) d = Some dh"
    moreover have "\<not> no_conn_chan ?d w" using c(1) by (auto simp: no_conn_chan_def)
    ultimately show "\<not> no_conn_chan d w \<or> ct_channel (ct w) = Some d \<or> wake_chan (client_loop w) dh"
      using k(5) by (auto simp: channels_ok_def split: if_splits)
  qed
  moreover have "active_ok ?w" unfolding active_ok_def m f
  proof (intro allI impI conjI ballI)
    fix ds d
    assume ds: "cm_phase w = Handling ds"
    then show "distinct ds" using k(6) by (simp add: active_ok_def)
    assume d: "d \<in> set ds"
    then have "d \<noteq> ?d" using rep [OF ds] by blast
    then show "\<exists>ch0. ((n_chans w)(?d \<mapsto> ch')) d = Some ch0 \<and> (ch_index ch0 = KAdded \<or> ct_channel (ct w) = Some d)"
      using k(6) ds d by (auto simp: active_ok_def)
  qed
  moreover have "leaving_ok Y ?w" unfolding leaving_ok_def u f
  proof (intro allI impI, elim conjE)
    fix b bn bh
    assume b: "((cn_conns w)(c \<mapsto> cn')) b = Some bn" "((n_chans w)(?d \<mapsto> ch')) (cn_channel bn) = Some bh" "b \<notin> Y" "ch_index bh = KDelete"
    then have "b \<noteq> c" using p(1) ch'(2) by auto
    then show "FConnectDestroyed b \<in> set (client_upcoming w)"
      using b k(7) Y other [of b bn] by (auto simp: leaving_ok_def)
  qed
  moreover have "up_with ph ?w b d = up_with ph w b d" for b d using m u by (cases ph) simp_all
  then have "ups_ok ph ?w" using h(3) cn'(3) by (auto simp: ups_ok_def f)
  ultimately show ?thesis using at k(2) m h(5) by (simp add: client_inv_but_def client_core_def)
qed

text \<open>A connection that nothing points to is down and out of the poller.\<close>

lemma unheld_over:
  assumes i: "client_inv ph w" and l: "linked c cn ch el w" and u: "\<not> client_held c w"
  shows "kind_of (cn_state cn) = Down" "ch_index ch = KNew"
proof -
  note h = client_inv_butD [OF i] and k = client_coreD [OF client_inv_butD(2) [OF i]]
  have c: "cn_conns w c = Some cn" "n_chans w (cn_channel cn) = Some ch" "n_loops w (cn_loop cn) = Some el" "ch_loop ch = cn_loop cn"
    using l by (simp_all add: linked_def owns_def)
  have "kind_of (cn_state cn) \<noteq> Up" using k(3) c(1) u by (auto simp: conns_ok_def client_held_def)
  moreover have "kind_of (cn_state cn) \<noteq> Young" using k(3) c(1) by (auto simp: conns_ok_def)
  ultimately show d: "kind_of (cn_state cn) = Down" by (cases "kind_of (cn_state cn)") simp_all
  have "index_ok ch" by (rule poller_inv_index [OF net_invD [OF conn_inv_net [OF h(4)] c(3)] c(2,4)])
  moreover have "ch_index ch \<noteq> KAdded" using k(1) c d by (simp add: registered_up_def)
  moreover have "ch_index ch \<noteq> KDelete"
  proof
    assume "ch_index ch = KDelete"
    then have "FConnectDestroyed c \<in> set (client_upcoming w)" using k(7) c by (auto simp: leaving_ok_def)
    then show False using u by (auto simp: client_held_def dest!: bspec [where x = "FConnectDestroyed c"])
  qed
  ultimately show "ch_index ch = KNew" by (auto simp: index_ok_def)
qed

lemma client_collect_ok:
  assumes i: "client_inv ph w" and c: "cn_conns w c \<noteq> None" "\<not> client_held c w"
  shows "ends client_faults (destroy_conn c w) settled_client"
proof -
  note h = client_inv_butD [OF i] and k = client_coreD [OF client_inv_butD(2) [OF i]]
  obtain cn where cn: "cn_conns w c = Some cn" using c(1) by blast
  obtain ch el where l: "linked c cn ch el w" using h(4) cn by (rule conn_invE)
  have ch: "n_chans w (cn_channel cn) = Some ch" using l by (simp add: linked_def)
  note over = unheld_over [OF i l c(2)]
  let ?w = "gone c (cn_channel cn) w"
  have m: "cl ?w = cl w" "ct ?w = ct w" "ct_open ?w = ct_open w" "cm_phase ?w = cm_phase w" "my_conn ?w = my_conn w" "client_todo ?w = client_todo w"
    using machine_more [of ?w w] by simp_all
  have u: "client_pending ?w = client_pending w" "client_upcoming ?w = client_upcoming w"
    using m by (simp_all add: client_upcoming_def client_pending_def pending_at_def)
  have inv: "conn_inv ?w" by (rule gone_conn_inv [OF h(4) cn ch over(2)])
  have other: "cn_channel bn \<noteq> cn_channel cn" if "cn_conns w b = Some bn" "b \<noteq> c" for b bn
    using other_channel [OF h(4) cn that] by simp
  have s: "same_lives w ?w" using other by (auto simp: same_lives_def)
  have at: "connector_at ph ?w"
  proof (rule connector_keep [OF h(1) inv m(2,3)])
    show "\<exists>r. n_chans ?w d = Some (ch0\<lparr>ch_revents := r\<rparr>)" if "ct_channel (ct w) = Some d" "n_chans w d = Some ch0" for d ch0
    proof -
      have "d \<noteq> cn_channel cn" using attempt_no_conn(1) [OF h(1) that(1)] cn by (auto simp: no_conn_chan_def)
      then show ?thesis using that(2) by (intro exI [of _ "ch_revents ch0"]) simp
    qed
    show "no_conn_fd fd ?w" if "no_conn_fd fd w" for fd by (rule no_conn_fd_lives [OF s that])
  qed simp_all
  have live: "cn_conns ?w b \<noteq> None" if "my_conn w = Some b" "cn_conns w b \<noteq> None" for b
    using that c(2) by (auto simp: client_held_def)
  have core: "registered_up ?w" "conns_ok ?w" "leaving_ok {} ?w"
    by (rule lives_core [OF s k(1,3,7)]; use u m live in simp)+
  have "functors_ok ?w" unfolding functors_ok_def u
  proof
    fix f
    assume f: "f \<in> set (client_upcoming w)"
    then have "client_valid w f" "holds f \<noteq> Some c" using k(4) c(2) by (auto simp: functors_ok_def client_held_def)
    then show "client_valid ?w f" by (cases f) auto
  qed
  moreover have "channels_ok ?w" unfolding channels_ok_def m
  proof (intro allI impI)
    fix d dh
    assume d: "n_chans ?w d = Some dh"
    then have *: "d \<noteq> cn_channel cn" "n_chans w d = Some dh" by (simp_all split: if_splits)
    have "no_conn_chan d w" if "no_conn_chan d ?w"
      using that *(1) cn unfolding no_conn_chan_def by (metis fun_upd_apply gone_simps(1) option.sel)
    then show "\<not> no_conn_chan d ?w \<or> ct_channel (ct w) = Some d \<or> wake_chan (client_loop w) dh"
      using k(5) *(2) by (auto simp: channels_ok_def)
  qed
  moreover have "active_ok ?w" unfolding active_ok_def m
  proof (intro allI impI conjI ballI)
    fix ds d
    assume ds: "cm_phase w = Handling ds"
    then show "distinct ds" using k(6) by (simp add: active_ok_def)
    assume "d \<in> set ds"
    then obtain dh where dh: "n_chans w d = Some dh" "ch_index dh = KAdded \<or> ct_channel (ct w) = Some d"
      using k(6) ds by (auto simp: active_ok_def)
    have "d \<noteq> cn_channel cn"
      using dh ch over(2) attempt_no_conn(1) [OF h(1), of d] cn by (auto simp: no_conn_chan_def KNew_def KAdded_def)
    then show "\<exists>dh. n_chans ?w d = Some dh \<and> (ch_index dh = KAdded \<or> ct_channel (ct w) = Some d)" using dh by simp
  qed
  moreover have "up_with ph ?w b d = up_with ph w b d" for b d using m u by (cases ph) simp_all
  then have "ups_ok ph ?w" using h(3) by (auto simp: ups_ok_def split: if_splits)
  ultimately have "client_inv ph ?w" using at core k(2) m h(5) by (simp add: client_inv_but_def client_core_def)
  then show ?thesis using cn by (auto simp: destroy_conn_def get_conn_def gone_def settled_client_def)
qed

text \<open>\<open>connectDestroyed\<close> takes the channel of a closed connection out of the poller.\<close>

lemma client_destroyed_ok:
  assumes i: "client_inv_but {c} ph w" and cn: "cn_conns w c = Some cn" "kind_of (cn_state cn) = Down"
  shows "ends client_faults (connectDestroyed app c w) settled_client"
proof -
  note h = client_inv_butD [OF i] and k = client_coreD [OF client_inv_butD(2) [OF i]]
  obtain ch el where l: "linked c cn ch el w" "conn_local cn ch" "focused c cn ch el w" "setc c cn ch el w = w"
    using h(4) cn(1) by (rule conn_invE)
  let ?ch = "ch\<lparr>ch_index := KNew\<rparr>"
  let ?x = "setc c cn ?ch (synced (cn_channel cn) ?ch el) w"
  have x: "chan_remove (cn_channel cn) w = Inr ?x"
    using setc_chan_remove [OF l(3), of "cn_channel cn"] unfolding l(4) by simp
  have "conn_inv ?x" using remove_good [OF h(4) cn(1), of "{}"] unfolding x by (auto dest: good_InrD)
  moreover have "cn_channel cn \<notin> set ds" if ds: "cm_phase w = Handling ds" for ds
  proof
    assume "cn_channel cn \<in> set ds"
    then obtain ch0 where "n_chans w (cn_channel cn) = Some ch0" "ch_index ch0 = KAdded \<or> ct_channel (ct w) = Some (cn_channel cn)"
      using k(6) ds unfolding active_ok_def by blast
    then show False using k(1) cn attempt_no_conn(1) [OF h(1), of "cn_channel cn"]
      by (auto simp: registered_up_def no_conn_chan_def)
  qed
  ultimately have "client_inv ph ?x"
    by (intro setc_client_inv [OF i l(1)]) (use cn(2) in \<open>auto simp: same_place_def KNew_def KAdded_def KDelete_def\<close>)
  moreover have "cn_state cn \<noteq> kConnected" using cn(2) by auto
  ultimately show ?thesis using cn(1) x by (auto simp: connectDestroyed_def get_conn_def settled_client_def)
qed

section \<open>Closing a connection\<close>

text \<open>The handlers that do not close anything, in the contract of the connections.\<close>

interpretation cw: connection_world app "\<lambda>t c. Inr" "\<lambda>w. True" app_faults
  for app :: "app_event \<Rightarrow> client_machine \<Rightarrow> api list"
proof unfold_locales
  show "good app_faults w (call_app app ev w)" if "conn_inv w" for w :: client_machine and ev
    by (rule call_app_good [OF that]) simp
  show "good app_faults w (Inr w)" if "conn_inv w" for w :: client_machine
    by (rule good_Inr [OF that])
qed simp_all

text \<open>The client lets go of the connection and queues its \<open>connectDestroyed\<close>.\<close>

lemma let_go:
  assumes i: "client_inv_but {c} Idle w" and n: "nothing_up w" and c: "cn_conns w c = Some cn" "kind_of (cn_state cn) = Down"
    and el: "n_loops w (client_loop w) = Some el"
  shows "client_inv Idle (put_loop (client_loop w) (queued (n_tid w) (FConnectDestroyed c) el)
     (put_client (k0\<lparr>cl_connection := None\<rparr>) w))"
    (is "client_inv Idle ?w")
proof -
  note h = client_inv_butD [OF i] and k = client_coreD [OF client_inv_butD(2) [OF i]]
  have at: "connector_at Idle ?w"
    using connector_at_loop [OF put_client_at [OF h(1), of "k0\<lparr>cl_connection := None\<rparr>"], of el
      "queued (n_tid w) (FConnectDestroyed c) el" "cm_phase w"] el
    by (simp add: client_phase_def put_loop_def put_client_def)
  have m: "cl ?w \<noteq> None" "my_conn ?w = None" "cm_phase ?w = cm_phase w" "client_todo ?w = client_todo w"
      "ct ?w = ct w" "cn_conns ?w = cn_conns w" "n_chans ?w = n_chans w"
    by (simp_all add: client_todo_def)
  have u: "client_upcoming ?w = client_upcoming w @ [FConnectDestroyed c]"
    using el by (simp add: client_upcoming_def client_pending_def pending_at_def client_todo_def)
  have n': "nothing_up ?w" using n by (simp add: nothing_up_def)
  have "client_valid ?w f = client_valid w f" for f by (rule client_valid_same) (simp add: same_conns_cong)
  then have "functors_ok ?w" using k(4) c by (auto simp: functors_ok_def u)
  moreover have "conns_ok ?w" using k(3) n by (auto simp: conns_ok_def nothing_up_def m)
  moreover have "channels_ok ?w" "registered_up ?w" "active_ok ?w"
    using k(1,5,6) by (simp_all add: channels_ok_def registered_up_def active_ok_def no_conn_chan_def m)
  moreover have "leaving_ok {} ?w" unfolding leaving_ok_def m u
  proof (intro allI impI, elim conjE)
    fix b bn bh
    assume "cn_conns w b = Some bn" "n_chans w (cn_channel bn) = Some bh" "ch_index bh = KDelete"
    then show "FConnectDestroyed b \<in> set (client_upcoming w @ [FConnectDestroyed c])"
      using k(7) by (cases "b = c") (auto simp: leaving_ok_def)
  qed
  ultimately show ?thesis using at m(1) h(5) m(4) nothing_up_ok [OF n']
    by (simp add: client_inv_but_def client_core_def)
qed

text \<open>The rest of \<open>w\<close> that the handlers of the same report go on with.\<close>

definition report_kept :: "nat \<Rightarrow> nat \<Rightarrow> client_machine \<Rightarrow> client_machine \<Rightarrow> bool" where
  "report_kept c d w w' \<longleftrightarrow> cm_phase w' = cm_phase w \<and> (\<forall>ch. n_chans w d = Some ch \<longrightarrow>
       (\<exists>ch'. n_chans w' d = Some ch' \<and> same_dispatch ch ch'))
     \<and> (\<forall>cn. cn_conns w c = Some cn \<longrightarrow> (\<exists>cn'. cn_conns w' c = Some cn' \<and> cn_channel cn' = cn_channel cn
          \<and> (kind_of (cn_state cn') = kind_of (cn_state cn) \<or> kind_of (cn_state cn') = Down)))"

lemma report_kept_refl [simp]: "report_kept c d w w"
  by (simp add: report_kept_def)

lemma report_kept_trans:
  assumes "report_kept c d w x" "report_kept c d x y"
  shows "report_kept c d w y"
  unfolding report_kept_def
proof (intro conjI allI impI)
  show "cm_phase y = cm_phase w" using assms by (simp add: report_kept_def)
  show "\<exists>ch'. n_chans y d = Some ch' \<and> same_dispatch ch ch'" if "n_chans w d = Some ch" for ch
    using assms that unfolding report_kept_def by (metis same_dispatch_trans)
  show "\<exists>cn'. cn_conns y c = Some cn' \<and> cn_channel cn' = cn_channel cn
      \<and> (kind_of (cn_state cn') = kind_of (cn_state cn) \<or> kind_of (cn_state cn') = Down)" if "cn_conns w c = Some cn" for cn
    using assms that unfolding report_kept_def by metis
qed

lemma report_kept_calm:
  assumes "calm w w'"
  shows "report_kept c d w w'"
  unfolding report_kept_def
proof (intro conjI allI impI)
  have more: "conn_net.more w' = conn_net.more w" and ev: "evolves w w'" and s: "same_conns w w'"
    using assms by (simp_all add: calm_def)
  show "cm_phase w' = cm_phase w" by (rule machine_more(4) [OF more])
  show "\<exists>ch'. n_chans w' d = Some ch' \<and> same_dispatch ch ch'" if "n_chans w d = Some ch" for ch
    using ev that unfolding evolves_def by blast
  show "\<exists>cn'. cn_conns w' c = Some cn' \<and> cn_channel cn' = cn_channel cn
      \<and> (kind_of (cn_state cn') = kind_of (cn_state cn) \<or> kind_of (cn_state cn') = Down)" if "cn_conns w c = Some cn" for cn
    using s [unfolded same_conns_def, rule_format, of c] that
    by (cases "cn_conns w' c") (simp_all add: same_conn_def same_place_def)
qed

lemma report_kept_beside:
  assumes b: "beside w w'" and d: "\<not> no_conn_chan d w"
  shows "report_kept c d w w'"
  unfolding report_kept_def
proof (intro conjI allI impI)
  note m = beside_machine [OF b]
  show "cm_phase w' = cm_phase w" by (rule m)
  have "n_chans w' d = n_chans w d" using d m(7) by (auto simp: no_conn_chan_def apart_def)
  then show "\<exists>ch'. n_chans w' d = Some ch' \<and> same_dispatch ch ch'" if "n_chans w d = Some ch" for ch
    using that by simp
qed (simp add: beside_machine(6) [OF b])

lemma removeConnection_ok:
  assumes i: "client_inv_but {c} Idle w" and n: "nothing_up w" and c: "cn_conns w c = Some cn" "kind_of (cn_state cn) = Down"
    and f: "connect_fresh w"
  shows "ends connector_faults (client_removeConnection c w) (\<lambda>w'. settled_client w' \<and> report_kept c (cn_channel cn) w w')"
proof -
  note h = client_inv_butD [OF i] and k = client_coreD [OF client_inv_butD(2) [OF i]]
  obtain k0 where k0: "cl w = Some k0" using k(2) by blast
  obtain el where el: "n_loops w (client_loop w) = Some el" using loop_live [OF h(1)] by blast
  let ?w = "put_loop (client_loop w) (queued (n_tid w) (FConnectDestroyed c) el) (put_client (k0\<lparr>cl_connection := None\<rparr>) w)"
  have i': "client_inv Idle ?w" by (rule let_go [OF i n c el])
  have n': "nothing_up ?w" using n by (simp add: nothing_up_def)
  have "next_connect ?w = next_connect w" by (simp add: next_connect_def put_loop_def put_client_def)
  then have f': "connect_fresh ?w" using f by (subst connect_fresh_cong [of _ w]) simp_all
  have kept: "report_kept c (cn_channel cn) w ?w" by (simp add: report_kept_def)
  have d: "\<not> no_conn_chan (cn_channel cn) ?w" using c(1) by (auto simp: no_conn_chan_def)
  have "ends connector_faults (restart ?w) (\<lambda>w'. settled_client w' \<and> report_kept c (cn_channel cn) w w')"
    using restart_ok [OF i' n' f']
    by (rule ends_mono) (auto simp: settled_client_def intro: report_kept_trans [OF kept] report_kept_beside [OF _ d])
  moreover have "settled_client ?w" using i' by (auto simp: settled_client_def)
  ultimately show ?thesis using k0 el kept
    by (simp add: client_removeConnection_def get_client_def queueInLoop_eq)
qed

lemma connect_fresh_later:
  assumes f: "connect_fresh w" and ev: "evolves w w'" and dom: "\<And>d. n_chans w' d = None \<longleftrightarrow> n_chans w d = None"
    and e: "next_connect w' = next_connect w"
  shows "connect_fresh w'"
proof -
  have "fresh_fd fd w'" if "fresh_fd fd w" for fd
    unfolding fresh_fd_def
  proof (intro allI impI)
    fix d ch'
    assume d: "n_chans w' d = Some ch'"
    then obtain ch where "n_chans w d = Some ch" using dom [of d] by fastforce
    then show "ch_fd ch' \<noteq> fd" using ev d that unfolding evolves_def fresh_fd_def by fastforce
  qed
  then show ?thesis using f dom by (simp add: connect_fresh_def e Let_def)
qed

lemma connect_fresh_calm:
  assumes "connect_fresh w" "calm w w'"
  shows "connect_fresh w'"
proof (rule connect_fresh_later [OF assms(1)])
  have more: "conn_net.more w' = conn_net.more w" and s: "same_chans w w'" using assms(2) by (simp_all add: calm_def)
  show "evolves w w'" using assms(2) by (simp add: calm_def)
  show "next_connect w' = next_connect w" using more by (cases w; cases w') (simp add: next_connect_def)
  show "n_chans w' d = None \<longleftrightarrow> n_chans w d = None" for d
    using s [unfolded same_chans_def, rule_format, of d] by (cases "n_chans w d"; cases "n_chans w' d") simp_all
qed

lemma nothing_up_calm: "nothing_up w \<Longrightarrow> calm w w' \<Longrightarrow> nothing_up w'"
  unfolding nothing_up_def by (metis same_livesE same_lives_calm)

text \<open>\<open>handleClose\<close> of a connection that is up: it is let go, and the connector may start again.\<close>

lemma client_close_ok:
  assumes i: "client_inv Idle w" and cn: "cn_conns w c = Some cn" "kind_of (cn_state cn) = Up" and app: "local_app app"
    and f: "connect_fresh w" and rep: "\<And>ds. cm_phase w = Handling ds \<Longrightarrow> cn_channel cn \<notin> set ds"
  shows "ends client_faults (handleClose app client_close c w) (\<lambda>w'. settled_client w' \<and> report_kept c (cn_channel cn) w w')"
proof -
  note h = client_inv_butD [OF i] and k = client_coreD [OF client_inv_butD(2) [OF i]]
  obtain ch el where l: "linked c cn ch el w" "focused c cn ch el w" "setc c cn ch el w = w"
    using h(4) cn(1) by (rule conn_invE)
  have ch: "n_chans w (cn_channel cn) = Some ch" using l(1) by (simp add: linked_def)
  then have added: "ch_index ch = KAdded" using k(1) cn by (simp add: registered_up_def)
  let ?cn = "cn\<lparr>cn_state := kDisconnected\<rparr>" and ?ch = "masked DisableAll ch" and ?d = "cn_channel cn"
  let ?x = "setc c ?cn ?ch (synced ?d ?ch el) w"
  have fo: "focused c ?cn ch el w" using focused_conn [OF _ l(2), of ?cn] by simp
  have p: "put_conn c ?cn w = setc c ?cn ch el w" using setc_put_conn [of ?cn cn c ch el w] l(3) by simp
  have x: "change_mask DisableAll ?d (put_conn c ?cn w) = Inr ?x" unfolding p by (simp add: setc_change_mask [OF fo])
  have g: "conn_inv ?x" "evolves w ?x"
    using close_state_good [OF h(4) cn(1), of "{}"] unfolding x by (auto dest: good_InrD)
  have ix: "client_inv_but {c} Idle ?x"
    by (rule setc_client_inv [OF i l(1) g(1)]) (use rep in \<open>simp_all add: same_place_def disabled_index [OF added] KDelete_def KAdded_def\<close>)
  note hx = client_inv_butD [OF ix]
  have more: "conn_net.more ?x = conn_net.more w" by simp
  note m = machine_more [OF more]
  have mine: "my_conn w = Some c" using k(3) cn by (auto simp: conns_ok_def)
  have nx: "nothing_up ?x" by (rule nothing_upI [OF hx(2)]) (use m mine in auto)
  have fx: "connect_fresh ?x" by (rule connect_fresh_later [OF f g(2)]) (use m ch in auto)
  have kept: "report_kept c ?d w ?x" unfolding report_kept_def
  proof (intro conjI allI impI)
    show "\<exists>ch'. n_chans ?x ?d = Some ch' \<and> same_dispatch ch0 ch'" if "n_chans w ?d = Some ch0" for ch0
      using g(2) that unfolding evolves_def by blast
  qed (use cn m in simp_all)
  have "ends client_faults (connectionCallback app c ?x) (\<lambda>y. calm ?x y \<and> evolves ?x y \<and> client_inv_but {c} Idle y)"
    by (rule ends_wider [OF client_calm [OF ix] faults_client(1)])
      (use connectionCallback_calm [OF hx(4) client_coreD(1) [OF hx(2)] app] callback_good [OF hx(4)] in simp_all)
  moreover have "ends client_faults (closeCallback_call client_close c y) (\<lambda>w'. settled_client w' \<and> report_kept c ?d w w')"
    if y: "calm ?x y" "client_inv_but {c} Idle y" for y
  proof -
    have ky: "report_kept c ?d ?x y" by (rule report_kept_calm [OF y(1)])
    then obtain cy where cy: "cn_conns y c = Some cy" "cn_channel cy = ?d" "kind_of (cn_state cy) = Down"
      by (auto simp: report_kept_def)
    have cb: "cn_closeCallback cy = Some ClientRemove"
      using client_coreD(3) [OF client_inv_butD(2) [OF y(2)]] cy(1) by (auto simp: conns_ok_def)
    have "ends connector_faults (client_removeConnection c y) (\<lambda>w'. settled_client w' \<and> report_kept c (cn_channel cy) y w')"
      by (rule removeConnection_ok [OF y(2) nothing_up_calm [OF nx y(1)] cy(1,3) connect_fresh_calm [OF fx y(1)]])
    then have "ends connector_faults (client_removeConnection c y) (\<lambda>w'. settled_client w' \<and> report_kept c ?d w w')"
      by (rule ends_mono) (use cy(2) report_kept_trans [OF report_kept_trans [OF kept ky]] in auto)
    from ends_wider [OF this faults_client(2)] show ?thesis
      using cy(1) cb by (simp add: closeCallback_call_def get_conn_def client_close_def)
  qed
  ultimately show ?thesis using cn(1) x
    by (auto simp: handleClose_def get_conn_def elim!: ends_mono)
qed

text \<open>\<open>handleRead\<close>: a message, an error, or the end of the stream.\<close>

lemma client_read_ok:
  assumes i: "client_inv Idle w" and cn: "cn_conns w c = Some cn" "kind_of (cn_state cn) = Up" and app: "local_app app"
    and f: "connect_fresh w" and rep: "\<And>ds. cm_phase w = Handling ds \<Longrightarrow> cn_channel cn \<notin> set ds"
  shows "ends client_faults (handleRead app client_close t c w) (\<lambda>w'. settled_client w' \<and> report_kept c (cn_channel cn) w w')"
proof -
  note h = client_inv_butD [OF i]
  obtain ch el where l: "conn_local cn ch" using h(4) cn(1) by (rule conn_invE)
  have wf: "wf_buffer (cn_inputBuffer cn)" using l by (simp add: conn_local_def)
  let ?env = "next_read (cn_socket cn)" and ?d = "cn_channel cn"
  show ?thesis
  proof (cases "readFd ?env 0 (cn_inputBuffer cn)")
    case (Inl e)
    then have "e = OutOfRange" using readFd_safe [OF wf, of ?env 0] by simp
    then show ?thesis using cn(1) Inl by (simp add: handleRead_def get_conn_def client_faults_def)
  next
    case (Inr x)
    obtain n e b where x: "x = (n, e, b)" by (cases x)
    let ?cn = "cn\<lparr>cn_inputBuffer := b, cn_socket := (cn_socket cn)\<lparr>sk_reads := tl (sk_reads (cn_socket cn))\<rparr>\<rparr>"
    let ?w = "put_conn c ?cn w"
    have b: "wf_buffer b" using readFd_safe [OF wf, of ?env 0] Inr x by simp
    have sc: "same_conn cn ?cn" by (simp add: same_conn_def same_place_def)
    have kw: "calm w ?w" by (rule calm_put_conn [OF cn(1) sc])
    have "advances cn ?cn" by (simp add: advances_def stream_def pending_out_def same_place_def)
    then have g: "good app_faults w (Inr ?w)"
      by (rule good_put_conn [OF h(4) cn(1)]) (use b l in \<open>simp add: conn_local_def pending_out_def\<close>)
    have i': "client_inv Idle ?w" using client_calm [OF i _ g] kw by simp
    note h' = client_inv_butD [OF i']
    have kept: "report_kept c ?d w ?w" by (rule report_kept_calm [OF kw])
    have "ends client_faults (handleClose app client_close c ?w) (\<lambda>w'. settled_client w' \<and> report_kept c (cn_channel ?cn) ?w w')"
      by (rule client_close_ok [OF i' _ _ app connect_fresh_calm [OF f kw]]) (use cn rep in \<open>simp_all add: put_conn_def\<close>)
    then have 1: "ends client_faults (handleClose app client_close c ?w) (\<lambda>w'. settled_client w' \<and> report_kept c ?d w w')"
      by (rule ends_mono) (use report_kept_trans [OF kept] in auto)
    have "good app_faults ?w (messageCallback app t c ?w)" by (rule cw.messageCallback_good [OF h'(4)]) simp
    from client_calm [OF i' messageCallback_calm [OF h'(4) client_coreD(1) [OF h'(2)] app] this]
    have 2: "ends client_faults (messageCallback app t c ?w) (\<lambda>w'. settled_client w' \<and> report_kept c ?d w w')"
      by (rule ends_wider [OF ends_mono faults_client(1)])
        (auto simp: settled_client_def intro: report_kept_trans [OF kept] report_kept_calm)
    have "ends client_faults (handleError c ?w) (\<lambda>w'. settled_client w' \<and> report_kept c ?d w w')"
      using i' kept by (auto simp: handleError_def get_conn_def settled_client_def)
    with 1 2 show ?thesis using cn(1) Inr x by (simp add: handleRead_def get_conn_def Let_def cong: if_cong)
  qed
qed

end
