(* ===== verification/Client_Runs.thy ===== *)
theory Client_Runs
  imports Client_Steps
begin

text \<open>
  The functors and the event reports of a client's loop, every step of its machine, and what holds in
  every run of a new client.
\<close>

section \<open>Functors\<close>




section \<open>The attempt succeeds\<close>



section \<open>Event reports\<close>

lemma call_if_ends:
  assumes "get s = Inr ch"
    and "\<And>h. test (ch_revents ch) \<Longrightarrow> member ch = Some h \<Longrightarrow> ends E (call h s) P"
    and "\<not> test (ch_revents ch) \<or> member ch = None \<Longrightarrow> P s"
  shows "ends E (call_if get call test member s) P"
  using assms by (auto simp: call_if_def split: option.split)










section \<open>All steps\<close>



section \<open>Every run of a new client\<close>






end
