(* ===== verification/Spec2Isabelle.thy ===== *)
theory Spec2Isabelle
  imports Buffer Poller TimerQueue Wakeup Connection_Properties Server_Start TcpClient_Properties
    EventLoopThread Logger Echo Echo_Client Echo_Link Server_Race Client_Runs
begin

text \<open>
  A verification library of mymuduo, a C++ network library in the style of muduo: event loops (one
  per thread) that wait in epoll, call the handlers of the channels that are ready and then the
  functors that other threads have queued; on top of them TCP servers and clients with buffered
  connections. All paths below are under src/.

  \<^bold>\<open>The parts and their theories.\<close> Every definition has the name of the function or member it
  translates where Isabelle allows it; a prefix (\<open>ch_\<close>, \<open>el_\<close>, \<open>cn_\<close>, \<open>sv_\<close>, \<open>ct_\<close>, \<open>cl_\<close>, \<open>tq_\<close>) marks
  the members of a class.

  \<^item> Muduo_Prelude: \<open>size_t\<close> as 64-bit words; \<open>fault\<close>, the ways in which an operation can end the
    process (an exception, LOG_FATAL, undefined behaviour); the result type \<open>'a res\<close> with \<open>bind_res\<close>
    and \<open>fold_res\<close>; the judgements \<open>returns\<close>, \<open>ends\<close> and \<open>safely\<close>.
  \<^item> Buffer: Buffer.h, Buffer.cc. The vector with its two indices, growth, \<open>readv\<close> through the stack
    buffer. The locale \<open>byte_queue\<close> is what connections rely on; the buffer is an instance.
  \<^item> Socket, InetAddress: Socket.h, Socket.cc, InetAddress.h, InetAddress.cc. The kernel's side of a
    connected socket and the options set on it; addresses in network byte order with the text forms
    of \<open>inet_addr\<close>, \<open>inet_ntop\<close> and \<open>sprintf\<close>.
  \<^item> Timestamp, Logger: Timestamp.h, Timestamp.cc, Logger.h, Logger.cc.
  \<^item> Callbacks: the bound functions of the program as data (a \<open>std::bind\<close> is the method and its
    arguments, an object is its address).
  \<^item> Channel: Channel.h, Channel.cc. Event masks, and which callbacks a report makes a channel call, in
    the order of the code (locale \<open>dispatcher\<close>).
  \<^item> Poller: Poller.h, Poller.cc, DefaultPoller.cc, EPollPoller.h, EPollPoller.cc. The map of channels,
    the three states of a channel's index, and the kernel's interest list (locale \<open>demultiplexer\<close>).
  \<^item> TimerQueue: Timer.h, Timer.cc, TimerId.h, TimerQueue.h, TimerQueue.cc. The two ordered sets, the
    heap of timers, expiry with callbacks that add and cancel timers (locale \<open>timer_callbacks\<close>).
  \<^item> Reactor: EventLoop.h, EventLoop.cc, CurrentThread.h, CurrentThread.cc. The shared state \<open>net\<close> (all
    channels and loops, the running thread), the queue of functors with the eventfd, \<open>loop()\<close> over a
    finite run of the environment, construction and destruction (locales \<open>functor_runner\<close>,
    \<open>handler_runner\<close>).
  \<^item> Wakeup: the hand-over of functors between threads at the grain of its atomic steps.
  \<^item> TcpConnection, Connection, Connection_World, Connection_Properties: TcpConnection.h,
    TcpConnection.cc, Callbacks.cc. The class; a connection seen through its channel and its loop; all
    connections under any application and any owner (locale \<open>connection_world\<close>); what it promises.
  \<^item> EventLoopThread: EventLoopThread.h, EventLoopThread.cc, Thread.h, Thread.cc. The owner and the new
    thread as two interleaved processes. EventLoopThreadPool: EventLoopThreadPool.h,
    EventLoopThreadPool.cc.
  \<^item> TcpServer, Server: Acceptor.h, Acceptor.cc, TcpServer.h, TcpServer.cc; the interpretations of the
    locales on the server. Calm, Server_Life, Server_Moves, Server_Inv, Server_Ops, Server_Events,
    Server_Birth, Server_Machine, Server_Safety, Server_Properties: the machine of all loops of a
    running server and the lives of its connections. Server_Start: from the constructors to the first
    state of that machine. Server_Race: the race of \<open>forceClose\<close> that the machine excludes.
  \<^item> Connector, Connector_Steps, Connector_Properties: Connector.h, Connector.cc (locale
    \<open>descriptor_owner\<close>). TcpClient, TcpClient_Properties: TcpClient.h, TcpClient.cc; the client is the
    owner. Client_Machine, Client_Steps, Client_Runs: the machine of a client and the loop that runs it,
    with its polls, events, functors, the restart after a close and the calls of the application.
  \<^item> Echo, Echo_Client: the servers of example/testserver.cc and example/muduoServer.cc and the client of
    example/muduoClient.cc on top of the library (the \<open>main\<close> functions of the servers are in Server_Start).
    Echo_Pipe: a pipe of five byte queues, the specification of client and server seen from the
    network between them. Echo_Link: the two programs on two hosts, each with its own state, and the
    bytes on the way; they refine the pipe, and the greeting of the client comes back to it. The
    network (\<open>link_step\<close>, \<open>pipe_step\<close>) is part of the environment and models no code.

  \<^bold>\<open>State and interaction.\<close> The state is one record, extended layer by layer: \<open>net\<close> (loops, channels),
  \<open>conn_net\<close> (connections, the strings of the application, the trace of its callbacks),
  \<open>server_net\<close> and \<open>machine\<close> (server, coming connections, where each loop is), \<open>connector_net\<close>,
  \<open>client_net\<close> and \<open>client_machine\<close>. Objects live in maps from addresses; a destroyed object is \<open>None\<close>, and reading it is
  the fault \<open>UseAfterFree\<close>. An operation is a function from the state to a result. Callbacks are
  data, and the function that runs one (\<open>run_server_handler\<close>, \<open>run_server_functor\<close>) is an argument of
  the lower layers, so that the reactor does not depend on what it runs. The application is a
  function from a callback and the state to a list of calls.

  \<^bold>\<open>The lemma groups.\<close> For data (buffer, sets of timers, addresses): an invariant and the exact
  effect of each operation on the abstract content. For the poller: \<open>poller_inv\<close>, which says that
  map, kernel and channels agree; every change is the function \<open>sync\<close>. For the loop: the preorder
  \<open>evolves\<close>, collected in \<open>evolving\<close> (queues only grow, with a wakeup where one is due; nothing
  disappears), which every handler and functor keeps. For connections: \<open>conn_inv\<close>, \<open>focused\<close> and
  \<open>leads\<close> (an operation changes one connection, its channel and its loop), \<open>good\<close> (no fault but those
  of the application, the invariant kept, states only forward). For the server: the \<open>profile\<close> of a
  connection (its state, how often each of the functors that drive it waits, its place in the map
  and in the poller) and the six profiles of a \<open>life\<close>; \<open>server_inv\<close> says that every connection has
  one of them, each step moves at most one connection along an edge of \<open>life_step\<close>, and so no step
  touches a destroyed object. For the connector: the phases of an attempt (\<open>connector_at\<close>) and a step lemma per
  operation; for a client \<open>client_inv\<close>, which adds its connections, channels, reports and functors to the
  phase, and which every step of its machine keeps. For the sample programs: \<open>serving\<close>, a connection that is up and whose string is free, which
  every read and write keeps, and \<open>answered\<close>, what a send in a callback leaves.

  \<^bold>\<open>Threads.\<close> The handlers and functors of a loop are run by its thread, one at a time; they
  interleave with those of other loops at this grain in the machine of the server. Where the code
  relies on finer steps they are modelled on their own: Wakeup (push, test, write, poll, swap) and
  EventLoopThread (semaphore, condition variable, \<open>quit_\<close>). The members of a connection are
  not synchronised, so the machine of the server asks that the application calls them in the thread of
  the connection's loop (\<open>confined_app\<close>); what happens otherwise is shown by three properties: a \<open>send\<close>
  and a \<open>shutdown\<close> from another thread, and the two steps of \<open>forceClose\<close> with the end of the connection
  between them. The machine of a client has one thread; the client's own calls come between its
  handlers, \<open>connect\<close> only when nothing of an attempt or a connection is left (\<open>may_connect\<close>), and the
  client outlives the loop. The code checks none of this; what a second \<open>connect\<close> does is shown in
  Connector_Properties.

  \<^bold>\<open>The environment.\<close> Answers of the system are arguments: the result of each \<open>readv\<close>, \<open>write\<close>,
  \<open>accept4\<close>, \<open>connect\<close>, \<open>getsockopt\<close>, the clock, the addresses that \<open>new\<close> returns (never one in use).
  The kernel's interest list follows epoll(7); its further refusals (\<open>refuse\<close>) are excluded by
  \<open>poller_inv\<close>, since LOG_FATAL ends the process on them. SIGPIPE is taken to be ignored by the
  program, as the library does not do it. \<open>shutdown\<close> on a connected socket succeeds: when it fails (the peer
  has reset the connection) the code only logs, and a FIN would reach nobody. Memory is taken to suffice. The target is 64-bit and little-endian. Strings have no zero
  characters. A \<open>double\<close> of seconds is a rational, the count of a Timestamp an integer.

  \<^bold>\<open>Bounds and fuel.\<close> Only \<open>loop()\<close> need not end: \<open>loop_while\<close> runs over a list of polls, and when
  the list is used up the loop is still running; every other loop of the code is a fold or a
  structural recursion. Hypotheses \<open>room\<close> keep a vector inside the range of \<open>size_t\<close>; without them
  the fault is \<open>OutOfRange\<close>. \<open>short_ipPort\<close> holds for every address (Server_Start shows it for a
  started server). A server that has made 2^31 - 2 connections overflows \<open>nextConnId_\<close>: the fault is
  \<open>SignedOverflow\<close>. In Echo_Link each fair round of events brings at least one byte one of four stages
  further, so that four rounds per byte of the greeting are enough.

  \<^bold>\<open>Not modelled.\<close> The output of the log outside the theory Logger, with the count of expiries that
  \<open>readTimerfd\<close> reads only for it; noncopyable.h; the getters and
  forward declarations of the headers; the close-on-exec and non-blocking flags; the test
  CheckLoopNotNull of a loop's address (a place of \<open>n_loops\<close> is never null), unused in TcpServer.cc. \<open>timerQueue_\<close> of EventLoop is never set by the code, so that a
  timer queue is verified on its own and through the calls of a loop that would have one.
\<close>

end
